(* ===== verification/Prelude.thy ===== *)
theory Prelude
  imports Complex_Main "HOL-Library.Word"
begin

text \<open>
  The shared ground of the development.

  The first part is the language the model is written in.  The Python code is asynchronous and
  does all its work by awaiting other systems: Redis, Postgres through SQLAlchemy, the Kafka
  client, the clock.  None of those is part of the repository, so none is defined here.  A
  coroutine is a value of type \<open>prog\<close>: it returns, raises, or awaits the answer to one request
  and goes on.  Nothing is assumed about the answers; in particular an answer may be an
  exception, and other processes may act between two requests.
  \<^item> \<open>conv p t v\<close>: \<open>p\<close> can hold the conversation \<open>t\<close> (requests with their answers) and end
    with \<open>v\<close>, which is \<open>Inl\<close> of an exception or \<open>Inr\<close> of a result;
  \<^item> \<open>always p Q\<close>: every conversation \<open>t\<close> of \<open>p\<close> and its end \<open>v\<close> satisfy \<open>Q t v\<close>;
  \<^item> \<open>exec h p w\<close>: run \<open>p\<close> against services \<open>h\<close> (a parameter) whose state is \<open>w\<close>.

  The second part holds text (a Python \<open>str\<close> is the list of its code points) and a transition
  system interface shared by the state machines.
\<close>

named_theorems prog_simps \<open>evaluation of programs, statement by statement\<close>
named_theorems exec_simps \<open>running programs against services\<close>
named_theorems trail_simps \<open>the conversations of such runs\<close>

section \<open>Programs that talk to other systems\<close>

datatype ('q, 'r, 'e, 'a) prog =
    Return 'a
  | Raise 'e
  | Call 'q "'r \<Rightarrow> ('q, 'r, 'e, 'a) prog"

primrec bindP ::
  "('q, 'r, 'e, 'a) prog \<Rightarrow> ('a \<Rightarrow> ('q, 'r, 'e, 'b) prog) \<Rightarrow> ('q, 'r, 'e, 'b) prog" where
  "bindP (Return x) f = f x"
| "bindP (Raise e) f = Raise e"
| "bindP (Call q k) f = Call q (\<lambda>r. bindP (k r) f)"

text \<open>\<open>seqP p q\<close> is \<open>p\<close> followed by \<open>q\<close>, as two statements in a row.\<close>

definition seqP ::
  "('q, 'r, 'e, 'a) prog \<Rightarrow> ('q, 'r, 'e, 'b) prog \<Rightarrow> ('q, 'r, 'e, 'b) prog" where
  "seqP p q = bindP p (\<lambda>_. q)"

text \<open>\<open>outcome p\<close> runs \<open>p\<close> and reports how it ended, which is what \<open>try\<close> inspects.\<close>

primrec outcome :: "('q, 'r, 'e, 'a) prog \<Rightarrow> ('q, 'r, 'e, 'e + 'a) prog" where
  "outcome (Return x) = Return (Inr x)"
| "outcome (Raise e) = Return (Inl e)"
| "outcome (Call q k) = Call q (\<lambda>r. outcome (k r))"

text \<open>
  \<open>try: p except C as e: handler e\<close>, where \<open>C\<close> is the class of exceptions the clause catches.
  An exception raised by the handler propagates.
\<close>

definition try_except ::
  "('e \<Rightarrow> bool) \<Rightarrow> ('q, 'r, 'e, 'a) prog \<Rightarrow> ('e \<Rightarrow> ('q, 'r, 'e, 'a) prog) \<Rightarrow> ('q, 'r, 'e, 'a) prog"
where
  "try_except C p handler =
     bindP (outcome p) (\<lambda>v. case v of
        Inr x \<Rightarrow> Return x
      | Inl e \<Rightarrow> if C e then handler e else Raise e)"

text \<open>
  \<open>try: p finally: f\<close>: \<open>f\<close> runs in any case, and an exception it raises replaces the outcome.
\<close>

definition try_finally ::
  "('q, 'r, 'e, 'a) prog \<Rightarrow> ('q, 'r, 'e, 'b) prog \<Rightarrow> ('q, 'r, 'e, 'a) prog" where
  "try_finally p f =
     bindP (outcome p) (\<lambda>v. seqP f (case v of Inr x \<Rightarrow> Return x | Inl e \<Rightarrow> Raise e))"

section \<open>Conversations\<close>

primrec conv :: "('q, 'r, 'e, 'a) prog \<Rightarrow> ('q \<times> 'r) list \<Rightarrow> 'e + 'a \<Rightarrow> bool" where
  "conv (Return x) t v \<longleftrightarrow> t = [] \<and> v = Inr x"
| "conv (Raise e) t v \<longleftrightarrow> t = [] \<and> v = Inl e"
| "conv (Call q k) t v \<longleftrightarrow> (\<exists>r t'. t = (q, r) # t' \<and> conv (k r) t' v)"

primrec always ::
  "('q, 'r, 'e, 'a) prog \<Rightarrow> (('q \<times> 'r) list \<Rightarrow> 'e + 'a \<Rightarrow> bool) \<Rightarrow> bool" where
  "always (Return x) Q \<longleftrightarrow> Q [] (Inr x)"
| "always (Raise e) Q \<longleftrightarrow> Q [] (Inl e)"
| "always (Call q k) Q \<longleftrightarrow> (\<forall>r. always (k r) (\<lambda>t v. Q ((q, r) # t) v))"

primrec exec ::
  "('w \<Rightarrow> 'q \<Rightarrow> 'r \<times> 'w) \<Rightarrow> ('q, 'r, 'e, 'a) prog \<Rightarrow> 'w \<Rightarrow> ('e + 'a) \<times> 'w" where
  "exec h (Return x) w = (Inr x, w)"
| "exec h (Raise e) w = (Inl e, w)"
| "exec h (Call q k) w = exec h (k (fst (h w q))) (snd (h w q))"

primrec trail ::
  "('w \<Rightarrow> 'q \<Rightarrow> 'r \<times> 'w) \<Rightarrow> ('q, 'r, 'e, 'a) prog \<Rightarrow> 'w \<Rightarrow> ('q \<times> 'r) list" where
  "trail h (Return x) w = []"
| "trail h (Raise e) w = []"
| "trail h (Call q k) w = (q, fst (h w q)) # trail h (k (fst (h w q))) (snd (h w q))"

declare bindP.simps [prog_simps] outcome.simps [prog_simps]

lemma always_conv: "always p Q \<longleftrightarrow> (\<forall>t v. conv p t v \<longrightarrow> Q t v)"
  by (induction p arbitrary: Q) auto

lemma always_mono: "always p Q \<Longrightarrow> (\<And>t v. Q t v \<Longrightarrow> R t v) \<Longrightarrow> always p R"
  by (auto simp: always_conv)

lemma always_cong: "(\<And>t v. Q t v \<longleftrightarrow> R t v) \<Longrightarrow> always p Q \<longleftrightarrow> always p R"
  by (auto simp: always_conv)

lemma always_conj: "always p (\<lambda>t v. Q t v \<and> R t v) \<longleftrightarrow> always p Q \<and> always p R"
  by (auto simp: always_conv)

lemma conv_exec: "conv p (trail h p w) (fst (exec h p w))"
  by (induction p arbitrary: w) auto

lemma always_exec: "always p Q \<Longrightarrow> Q (trail h p w) (fst (exec h p w))"
  using conv_exec [of p h w] by (auto simp: always_conv)

lemma always_bindP [prog_simps]:
  "always (bindP p f) Q \<longleftrightarrow>
     always p (\<lambda>t v. case v of Inl e \<Rightarrow> Q t (Inl e)
                              | Inr x \<Rightarrow> always (f x) (\<lambda>t' v'. Q (t @ t') v'))"
  by (induction p arbitrary: Q) auto

lemma always_seqP [prog_simps]:
  "always (seqP p q) Q \<longleftrightarrow>
     always p (\<lambda>t v. case v of Inl e \<Rightarrow> Q t (Inl e)
                              | Inr x \<Rightarrow> always q (\<lambda>t' v'. Q (t @ t') v'))"
  by (simp add: seqP_def always_bindP)

lemma always_outcome [prog_simps]: "always (outcome p) Q \<longleftrightarrow> always p (\<lambda>t v. Q t (Inr v))"
  by (induction p arbitrary: Q) auto

lemma always_try_except [prog_simps]:
  "always (try_except C p handler) Q \<longleftrightarrow>
     always p (\<lambda>t v. case v of
        Inr x \<Rightarrow> Q t (Inr x)
      | Inl e \<Rightarrow> if C e then always (handler e) (\<lambda>t' v'. Q (t @ t') v') else Q t (Inl e))"
  unfolding try_except_def always_bindP always_outcome
  by (rule always_cong) (simp split: sum.splits)

lemma always_try_finally [prog_simps]:
  "always (try_finally p f) Q \<longleftrightarrow>
     always p (\<lambda>t v. always f (\<lambda>t' u. case u of
        Inl e \<Rightarrow> Q (t @ t') (Inl e)
      | Inr _ \<Rightarrow> Q (t @ t') v))"
  unfolding try_finally_def always_bindP always_outcome
  by (rule always_cong) (auto simp: always_seqP intro!: always_cong split: sum.splits)

text \<open>Taking a conversation apart along the statements of the program.\<close>

lemma conv_not_always: "conv p t v \<longleftrightarrow> \<not> always p (\<lambda>t' v'. \<not> (t' = t \<and> v' = v))"
  by (auto simp: always_conv)

lemma conv_bindP:
  "conv (bindP p f) t v \<longleftrightarrow>
     (\<exists>t1 x t2. t = t1 @ t2 \<and> conv p t1 (Inr x) \<and> conv (f x) t2 v)
     \<or> (\<exists>e. v = Inl e \<and> conv p t (Inl e))"
  unfolding conv_not_always [of "bindP p f"] always_bindP
  unfolding always_conv by (cases v; simp add: split_sum_all; blast)

lemma conv_seqP:
  "conv (seqP p q) t v \<longleftrightarrow>
     (\<exists>t1 x t2. t = t1 @ t2 \<and> conv p t1 (Inr x) \<and> conv q t2 v)
     \<or> (\<exists>e. v = Inl e \<and> conv p t (Inl e))"
  by (simp add: seqP_def conv_bindP)

lemma conv_outcome: "conv (outcome p) t v \<longleftrightarrow> (\<exists>u. v = Inr u \<and> conv p t u)"
  unfolding conv_not_always [of "outcome p"] always_outcome
  unfolding always_conv by blast

lemma conv_if:
  "conv (if b then p else q) t v \<longleftrightarrow> (b \<and> conv p t v) \<or> (\<not> b \<and> conv q t v)"
  by simp

lemma conv_try_except:
  "conv (try_except C p f) t v \<longleftrightarrow>
     (\<exists>t1 e t2. t = t1 @ t2 \<and> conv p t1 (Inl e) \<and> C e \<and> conv (f e) t2 v)
     \<or> (\<exists>x. v = Inr x \<and> conv p t (Inr x)) \<or> (\<exists>e. v = Inl e \<and> \<not> C e \<and> conv p t (Inl e))"
  unfolding try_except_def conv_bindP conv_outcome by (auto simp: split_sum_ex conv_if) (metis append_Nil2)

lemma conv_try_finally:
  "conv (try_finally p f) t v \<longleftrightarrow>
     (\<exists>t1 t2. t = t1 @ t2 \<and>
        ((\<exists>x. conv p t1 v \<and> conv f t2 (Inr x))
         \<or> (\<exists>u e. conv p t1 u \<and> conv f t2 (Inl e) \<and> v = Inl e)))"
  unfolding conv_not_always [of "try_finally p f"] always_try_finally
  unfolding always_conv by (cases v; simp add: split_sum_all split_sum_ex; blast)

text \<open>Taking a conversation apart, and putting one together.\<close>

lemma conv_bindPE:
  assumes "conv (bindP p f) t v"
  obtains t1 w t2 where "t = t1 @ t2" and "conv p t1 w"
    and "case w of Inl e \<Rightarrow> t2 = [] \<and> v = Inl e | Inr x \<Rightarrow> conv (f x) t2 v"
proof -
  from assms consider t1 x t2 where "t = t1 @ t2" "conv p t1 (Inr x)" "conv (f x) t2 v"
    | e where "v = Inl e" "conv p t (Inl e)"
    unfolding conv_bindP by blast
  then show thesis
  proof cases
    case 1
    then show thesis by (intro that) auto
  next
    case 2
    then show thesis by (intro that [of t "[]"]) auto
  qed
qed

lemma conv_bindPI: "conv p t1 (Inr x) \<Longrightarrow> conv (f x) t2 v \<Longrightarrow> conv (bindP p f) (t1 @ t2) v"
  by (auto simp: conv_bindP)

lemma conv_seqPI: "conv p t1 (Inr x) \<Longrightarrow> conv q t2 v \<Longrightarrow> conv (seqP p q) (t1 @ t2) v"
  unfolding seqP_def by (rule conv_bindPI)

lemma conv_try_finallyI: "conv p t1 v \<Longrightarrow> conv f t2 (Inr u) \<Longrightarrow> conv (try_finally p f) (t1 @ t2) v"
  by (auto simp: conv_try_finally)

lemmas conv_simps = conv_bindP conv_seqP conv_outcome conv_try_except conv_try_finally

subsection \<open>What a program returns\<close>

text \<open>
  \<open>returns p P\<close>: whenever \<open>p\<close> returns a value \<open>x\<close> after a conversation \<open>t\<close>, then \<open>P t x\<close>.  The
  rules follow the statements of a program.
\<close>

definition returns :: "('q, 'r, 'e, 'a) prog \<Rightarrow> (('q \<times> 'r) list \<Rightarrow> 'a \<Rightarrow> bool) \<Rightarrow> bool" where
  "returns p P \<longleftrightarrow> always p (\<lambda>t v. \<forall>x. v = Inr x \<longrightarrow> P t x)"

lemma returns_conv: "returns p P \<longleftrightarrow> (\<forall>t x. conv p t (Inr x) \<longrightarrow> P t x)"
  by (auto simp: returns_def always_conv)

lemma returns_mono: "returns p P \<Longrightarrow> (\<And>t x. P t x \<Longrightarrow> Q t x) \<Longrightarrow> returns p Q"
  by (auto simp: returns_conv)

lemma returns_True [simp]: "returns p (\<lambda>t x. True)"
  by (simp add: returns_conv)

lemma returns_Return [simp]: "returns (Return x) P \<longleftrightarrow> P [] x"
  by (simp add: returns_def)

lemma returns_Raise [simp]: "returns (Raise e) P"
  by (simp add: returns_def)

lemma returns_bindP:
  assumes "returns p P" and "\<And>t x. P t x \<Longrightarrow> returns (f x) (\<lambda>t' y. Q (t @ t') y)"
  shows "returns (bindP p f) Q"
  using assms(1) unfolding returns_def always_bindP
  by (rule always_mono) (use assms(2) in \<open>auto simp: returns_def split: sum.splits\<close>)

lemma returns_seqP:
  assumes "returns p P" and "\<And>t x. P t x \<Longrightarrow> returns q (\<lambda>t' y. Q (t @ t') y)"
  shows "returns (seqP p q) Q"
  unfolding seqP_def using assms by (rule returns_bindP)

lemma returns_outcome:
  assumes "\<And>t v. conv p t v \<Longrightarrow> P t v"
  shows "returns (outcome p) P"
  using assms unfolding returns_def always_outcome by (simp add: always_conv)

lemma returns_first:
  assumes "returns p (\<lambda>t x. E t)" and "\<And>a b. E a \<Longrightarrow> E (a @ b)"
  shows "returns (bindP p f) (\<lambda>t x. E t)" "returns (seqP p q) (\<lambda>t x. E t)"
  using assms by (auto simp: returns_conv conv_bindP conv_seqP)

lemma returns_last:
  assumes "\<And>a b. E b \<Longrightarrow> E (a @ b)"
  shows "(\<And>x. returns (f x) (\<lambda>t y. E t)) \<Longrightarrow> returns (bindP p f) (\<lambda>t y. E t)"
    and "returns q (\<lambda>t y. E t) \<Longrightarrow> returns (seqP p q) (\<lambda>t y. E t)"
  using assms by (auto simp: returns_conv conv_bindP conv_seqP)

lemma returns_try_except:
  assumes "returns p P" and "\<And>e t. C e \<Longrightarrow> returns (f e) (\<lambda>t' y. P (t @ t') y)"
  shows "returns (try_except C p f) P"
  using assms(1) unfolding returns_def always_try_except
  by (rule always_mono) (use assms(2) in \<open>auto simp: returns_def split: sum.splits\<close>)

subsection \<open>Which requests a program sends\<close>

primrec only :: "('q \<Rightarrow> bool) \<Rightarrow> ('q, 'r, 'e, 'a) prog \<Rightarrow> bool" where
  "only \<phi> (Return x) \<longleftrightarrow> True"
| "only \<phi> (Raise e) \<longleftrightarrow> True"
| "only \<phi> (Call q k) \<longleftrightarrow> \<phi> q \<and> (\<forall>r. only \<phi> (k r))"

lemma only_conv: "only \<phi> p \<Longrightarrow> conv p t v \<Longrightarrow> (q, r) \<in> set t \<Longrightarrow> \<phi> q"
  by (induction p arbitrary: t) (auto, blast)

lemma only_always: "only \<phi> p \<Longrightarrow> always p (\<lambda>t v. \<forall>x \<in> set t. \<phi> (fst x))"
  by (auto simp: always_conv dest: only_conv)

lemma only_mono: "only \<phi> p \<Longrightarrow> (\<And>q. \<phi> q \<Longrightarrow> \<psi> q) \<Longrightarrow> only \<psi> p"
  by (induction p) auto

lemma only_bindP [intro!]: "only \<phi> p \<Longrightarrow> (\<And>x. only \<phi> (f x)) \<Longrightarrow> only \<phi> (bindP p f)"
  by (induction p) auto

lemma only_seqP [intro!]: "only \<phi> p \<Longrightarrow> only \<phi> q \<Longrightarrow> only \<phi> (seqP p q)"
  unfolding seqP_def by (rule only_bindP)

lemma only_outcome [intro!]: "only \<phi> p \<Longrightarrow> only \<phi> (outcome p)"
  by (induction p) auto

lemma only_try_except [intro!]:
  "only \<phi> p \<Longrightarrow> (\<And>e. only \<phi> (f e)) \<Longrightarrow> only \<phi> (try_except C p f)"
  unfolding try_except_def by (auto split: sum.split)

lemma only_try_finally [intro!]: "only \<phi> p \<Longrightarrow> only \<phi> f \<Longrightarrow> only \<phi> (try_finally p f)"
  unfolding try_finally_def by (auto split: sum.split)

lemma only_bindP_conv:
  "only \<phi> p \<Longrightarrow> (\<And>t x. conv p t (Inr x) \<Longrightarrow> only \<phi> (f x)) \<Longrightarrow> only \<phi> (bindP p f)"
proof (induction p)
  case (Call q k)
  have "only \<phi> (bindP (k r) f)" for r
  proof (rule Call.IH)
    show "only \<phi> (f x)" if "conv (k r) t (Inr x)" for t x
      using that by (intro Call.prems(2) [of "(q, r) # t"]) simp
  qed (use Call.prems(1) in auto)
  then show ?case using Call.prems(1) by simp
qed auto

subsection \<open>What precedes a request\<close>

text \<open>
  \<open>guarded \<phi> J t p\<close>: after the conversation \<open>t\<close>, the program \<open>p\<close> sends a request of the kind \<open>\<phi>\<close> only
  when the conversation up to there satisfies \<open>J\<close>.
\<close>

primrec guarded ::
  "('q \<Rightarrow> bool) \<Rightarrow> (('q \<times> 'r) list \<Rightarrow> bool) \<Rightarrow> ('q \<times> 'r) list \<Rightarrow> ('q, 'r, 'e, 'a) prog \<Rightarrow> bool" where
  "guarded \<phi> J t (Return x) \<longleftrightarrow> True"
| "guarded \<phi> J t (Raise e) \<longleftrightarrow> True"
| "guarded \<phi> J t (Call q k) \<longleftrightarrow> (\<phi> q \<longrightarrow> J t) \<and> (\<forall>r. guarded \<phi> J (t @ [(q, r)]) (k r))"

lemma guarded_conv:
  "guarded \<phi> J t p \<Longrightarrow> conv p (t1 @ (q, r) # t2) v \<Longrightarrow> \<phi> q \<Longrightarrow> J (t @ t1)"
proof (induction p arbitrary: t t1)
  case (Call q' k)
  then show ?case
  proof (cases t1)
    case (Cons x t1')
    then obtain r' where "x = (q', r')" "conv (k r') (t1' @ (q, r) # t2) v"
      using Call.prems(2) by auto
    then show ?thesis
      using Call.IH [of "k r'" "t @ [(q', r')]" t1'] Call.prems Cons by simp
  qed auto
qed auto

lemma guarded_only: "only (\<lambda>q. \<not> \<phi> q) p \<Longrightarrow> guarded \<phi> J t p"
  by (induction p arbitrary: t) auto

lemma guarded_met: "(\<And>a b. J a \<Longrightarrow> J (a @ b)) \<Longrightarrow> J t \<Longrightarrow> guarded \<phi> J t p"
  by (induction p arbitrary: t) auto

lemma guarded_bindP:
  assumes "guarded \<phi> J t p" and "\<And>t' x. conv p t' (Inr x) \<Longrightarrow> guarded \<phi> J (t @ t') (f x)"
  shows "guarded \<phi> J t (bindP p f)"
  using assms
proof (induction p arbitrary: t)
  case (Return x)
  then show ?case using Return.prems(2) [of "[]" x] by simp
next
  case (Call q k)
  have "guarded \<phi> J (t @ [(q, r)]) (bindP (k r) f)" for r
    by (rule Call.IH) (use Call.prems(1) Call.prems(2) [of "(q, r) # _"] in auto)
  then show ?case using Call.prems(1) by simp
qed auto

lemma guarded_seqP:
  "guarded \<phi> J t p \<Longrightarrow> (\<And>t' x. conv p t' (Inr x) \<Longrightarrow> guarded \<phi> J (t @ t') q) \<Longrightarrow> guarded \<phi> J t (seqP p q)"
  unfolding seqP_def by (rule guarded_bindP)

lemma guarded_outcome [simp]: "guarded \<phi> J t (outcome p) \<longleftrightarrow> guarded \<phi> J t p"
  by (induction p arbitrary: t) auto

lemma guarded_try_except:
  assumes "guarded \<phi> J t p" and "\<And>t' e. conv p t' (Inl e) \<Longrightarrow> C e \<Longrightarrow> guarded \<phi> J (t @ t') (h e)"
  shows "guarded \<phi> J t (try_except C p h)"
  unfolding try_except_def
  by (rule guarded_bindP) (use assms in \<open>auto simp: conv_outcome split: sum.split\<close>)

lemma guarded_try_finally:
  assumes "guarded \<phi> J t p" and "\<And>t' v. conv p t' v \<Longrightarrow> guarded \<phi> J (t @ t') f"
  shows "guarded \<phi> J t (try_finally p f)"
  unfolding try_finally_def
  by (rule guarded_bindP)
    (use assms in \<open>auto simp: conv_outcome intro!: guarded_seqP split: sum.split\<close>)

subsection \<open>Running\<close>

text \<open>The same laws for running against services.\<close>

declare exec.simps [exec_simps]

lemma exec_bindP [exec_simps]:
  "exec h (bindP p f) w =
     (case exec h p w of (Inl e, w') \<Rightarrow> (Inl e, w') | (Inr x, w') \<Rightarrow> exec h (f x) w')"
  by (induction p arbitrary: w) auto

lemma exec_seqP [exec_simps]:
  "exec h (seqP p q) w =
     (case exec h p w of (Inl e, w') \<Rightarrow> (Inl e, w') | (Inr x, w') \<Rightarrow> exec h q w')"
  by (simp add: seqP_def exec_bindP)

lemma exec_outcome [exec_simps]:
  "exec h (outcome p) w = (case exec h p w of (v, w') \<Rightarrow> (Inr v, w'))"
  by (induction p arbitrary: w) auto

lemma exec_try_except [exec_simps]:
  "exec h (try_except C p handler) w =
     (case exec h p w of
        (Inr x, w') \<Rightarrow> (Inr x, w')
      | (Inl e, w') \<Rightarrow> if C e then exec h (handler e) w' else (Inl e, w'))"
  by (simp add: try_except_def exec_bindP exec_outcome split: prod.splits sum.splits)

lemma exec_try_finally [exec_simps]:
  "exec h (try_finally p f) w =
     (case exec h p w of (v, w') \<Rightarrow>
       (case exec h f w' of (Inl e, w'') \<Rightarrow> (Inl e, w'') | (Inr _, w'') \<Rightarrow> (v, w'')))"
  by (simp add: try_finally_def exec_bindP exec_seqP exec_outcome split: prod.splits sum.splits)

text \<open>The conversation of a run, statement by statement.\<close>

declare trail.simps [trail_simps]

lemma trail_bindP [trail_simps]:
  "trail h (bindP p f) w =
     trail h p w @ (case exec h p w of (Inl e, w') \<Rightarrow> [] | (Inr x, w') \<Rightarrow> trail h (f x) w')"
  by (induction p arbitrary: w) auto

lemma trail_seqP [trail_simps]:
  "trail h (seqP p q) w =
     trail h p w @ (case exec h p w of (Inl e, w') \<Rightarrow> [] | (Inr x, w') \<Rightarrow> trail h q w')"
  by (simp add: seqP_def trail_bindP)

lemma trail_outcome [trail_simps]: "trail h (outcome p) w = trail h p w"
  by (induction p arbitrary: w) auto

lemma trail_try_except [trail_simps]:
  "trail h (try_except C p handler) w =
     trail h p w @ (case exec h p w of
        (Inr x, w') \<Rightarrow> []
      | (Inl e, w') \<Rightarrow> if C e then trail h (handler e) w' else [])"
  by (simp add: try_except_def trail_bindP trail_outcome exec_outcome split: prod.splits sum.splits)

lemma trail_try_finally [trail_simps]:
  "trail h (try_finally p f) w = trail h p w @ trail h f (snd (exec h p w))"
  by (simp add: try_finally_def trail_bindP trail_seqP trail_outcome exec_outcome
      split: prod.splits sum.splits)

text \<open>Every run ends: a program is a finite conversation for any services.\<close>

lemma exec_result: "\<exists>v w'. exec h p w = (v, w')"
  by (cases "exec h p w") auto

section \<open>Text\<close>

text \<open>
  A Python \<open>str\<close> is a sequence of code points, so it is the list of them and \<open>length\<close> and
  \<open>take\<close> count what Python's \<open>len\<close> and slices count.  \<open>lit\<close> turns a literal into one.
  A \<open>bytes\<close> object is a list of octets.
\<close>

type_synonym str = "nat list"
type_synonym bytes = "8 word list"

primrec lit :: "string \<Rightarrow> str" where
  "lit [] = []"
| "lit (c # cs) = of_char c # lit cs"

section \<open>Transition systems\<close>

text \<open>
  The interface between a step relation and what is proved of it: an invariant that holds at the
  start and is kept by every step holds in every reachable state.
\<close>

inductive reachable :: "('s \<Rightarrow> bool) \<Rightarrow> ('s \<Rightarrow> 's \<Rightarrow> bool) \<Rightarrow> 's \<Rightarrow> bool"
  for init :: "'s \<Rightarrow> bool" and step :: "'s \<Rightarrow> 's \<Rightarrow> bool" where
  start: "init s \<Longrightarrow> reachable init step s"
| step: "reachable init step s \<Longrightarrow> step s s' \<Longrightarrow> reachable init step s'"

locale transition_system =
  fixes init :: "'s \<Rightarrow> bool" and step :: "'s \<Rightarrow> 's \<Rightarrow> bool" and inv :: "'s \<Rightarrow> bool"
  assumes inv_init: "init s \<Longrightarrow> inv s"
    and inv_step: "inv s \<Longrightarrow> step s s' \<Longrightarrow> inv s'"
begin

lemma inv_reachable: "reachable init step s \<Longrightarrow> inv s"
  by (induction rule: reachable.induct) (auto intro: inv_init inv_step)

lemma inv_steps: "step\<^sup>*\<^sup>* s s' \<Longrightarrow> inv s \<Longrightarrow> inv s'"
  by (induction rule: rtranclp_induct) (auto intro: inv_step)

end

text \<open>
  The interface of an encoder and its decoder: what was encoded decodes to itself, so nothing is
  lost and no two values share an encoding.
\<close>

locale codec =
  fixes enc :: "'a \<Rightarrow> 'b" and dec :: "'b \<Rightarrow> 'a option" and ok :: "'a \<Rightarrow> bool"
  assumes dec_enc: "ok x \<Longrightarrow> dec (enc x) = Some x"
begin

lemma enc_inject: "ok x \<Longrightarrow> ok y \<Longrightarrow> enc x = enc y \<Longrightarrow> x = y"
  by (metis dec_enc option.inject)

lemma enc_eq_iff: "ok x \<Longrightarrow> ok y \<Longrightarrow> enc x = enc y \<longleftrightarrow> x = y"
  using enc_inject by blast

end

end
