(* ===== verification/PyText.thy ===== *)
theory PyText
  imports Prelude
begin

text \<open>
  What the code uses of Python's text types: \<open>str.encode\<close> and \<open>bytes.decode\<close> with
  \<open>errors="replace"\<close>, \<open>int(s)\<close> and \<open>str(n)\<close>, \<open>str.strip\<close>, \<open>str.split\<close>, and \<open>uuid.UUID\<close> with
  its canonical text form.  The lemmas are the round trips the rest of the development rests on.
\<close>

section \<open>UTF-8\<close>

definition surrogate :: "nat \<Rightarrow> bool" where
  "surrogate c \<longleftrightarrow> 0xD800 \<le> c \<and> c < 0xE000"

definition scalar :: "nat \<Rightarrow> bool" where
  "scalar c \<longleftrightarrow> c < 0x110000 \<and> \<not> surrogate c"

text \<open>One code point; a lone surrogate cannot be encoded and becomes a question mark.\<close>

definition utf8_char :: "nat \<Rightarrow> nat list" where
  "utf8_char c =
     (if c < 0x80 then [c]
      else if c < 0x800 then [0xC0 + c div 0x40, 0x80 + c mod 0x40]
      else if surrogate c then [0x3F]
      else if c < 0x10000 then
        [0xE0 + c div 0x1000, 0x80 + c div 0x40 mod 0x40, 0x80 + c mod 0x40]
      else
        [0xF0 + c div 0x40000, 0x80 + c div 0x1000 mod 0x40, 0x80 + c div 0x40 mod 0x40,
         0x80 + c mod 0x40])"

definition utf8_encode :: "str \<Rightarrow> bytes" where
  "utf8_encode s = map word_of_nat (concat (map utf8_char s))"

definition cont :: "nat \<Rightarrow> bool" where
  "cont b \<longleftrightarrow> 0x80 \<le> b \<and> b < 0xC0"

text \<open>The second byte allowed after a three-byte or four-byte lead.\<close>

definition second3 :: "nat \<Rightarrow> nat \<Rightarrow> bool" where
  "second3 b0 b1 \<longleftrightarrow>
     cont b1 \<and> (b0 = 0xE0 \<longrightarrow> 0xA0 \<le> b1) \<and> (b0 = 0xED \<longrightarrow> b1 < 0xA0)"

definition second4 :: "nat \<Rightarrow> nat \<Rightarrow> bool" where
  "second4 b0 b1 \<longleftrightarrow>
     cont b1 \<and> (b0 = 0xF0 \<longrightarrow> 0x90 \<le> b1) \<and> (b0 = 0xF4 \<longrightarrow> b1 < 0x90)"

text \<open>
  \<open>decode("utf-8", "replace")\<close>: each maximal prefix of a sequence that cannot be completed is
  replaced by one U+FFFD.
\<close>

function utf8_nats :: "nat list \<Rightarrow> str" where
  "utf8_nats [] = []"
| "utf8_nats (b0 # bs) =
    (if b0 < 0x80 then b0 # utf8_nats bs
     else if 0xC2 \<le> b0 \<and> b0 < 0xE0 then
       (case bs of [] \<Rightarrow> [0xFFFD]
        | b1 # bs1 \<Rightarrow>
            if cont b1 then ((b0 - 0xC0) * 0x40 + (b1 - 0x80)) # utf8_nats bs1
            else 0xFFFD # utf8_nats bs)
     else if 0xE0 \<le> b0 \<and> b0 < 0xF0 then
       (case bs of [] \<Rightarrow> [0xFFFD]
        | b1 # bs1 \<Rightarrow>
            if \<not> second3 b0 b1 then 0xFFFD # utf8_nats bs
            else (case bs1 of [] \<Rightarrow> [0xFFFD]
                  | b2 # bs2 \<Rightarrow>
                      if cont b2
                      then ((b0 - 0xE0) * 0x1000 + (b1 - 0x80) * 0x40 + (b2 - 0x80)) # utf8_nats bs2
                      else 0xFFFD # utf8_nats bs1))
     else if 0xF0 \<le> b0 \<and> b0 < 0xF5 then
       (case bs of [] \<Rightarrow> [0xFFFD]
        | b1 # bs1 \<Rightarrow>
            if \<not> second4 b0 b1 then 0xFFFD # utf8_nats bs
            else (case bs1 of [] \<Rightarrow> [0xFFFD]
                  | b2 # bs2 \<Rightarrow>
                      if \<not> cont b2 then 0xFFFD # utf8_nats bs1
                      else (case bs2 of [] \<Rightarrow> [0xFFFD]
                            | b3 # bs3 \<Rightarrow>
                                if cont b3
                                then ((b0 - 0xF0) * 0x40000 + (b1 - 0x80) * 0x1000
                                       + (b2 - 0x80) * 0x40 + (b3 - 0x80)) # utf8_nats bs3
                                else 0xFFFD # utf8_nats bs2)))
     else 0xFFFD # utf8_nats bs)"
  by pat_completeness auto
termination
  by (relation "measure length") auto

definition utf8_decode :: "bytes \<Rightarrow> str" where
  "utf8_decode bs = utf8_nats (map unat bs)"

declare utf8_nats.simps(2) [simp del]

lemma utf8_char_bytes: "c < 0x110000 \<Longrightarrow> \<forall>b \<in> set (utf8_char c). b < 256"
  by (auto simp: utf8_char_def)

lemma split_base64:
  fixes c :: nat
  shows "c = c div 0x1000 * 0x1000 + c div 0x40 mod 0x40 * 0x40 + c mod 0x40"
    and "c = c div 0x40000 * 0x40000 + c div 0x1000 mod 0x40 * 0x1000 + c div 0x40 mod 0x40 * 0x40
       + c mod 0x40"
proof -
  have d: "c div 0x40 div 0x40 = c div 0x1000" "c div 0x1000 div 0x40 = c div 0x40000"
    by (simp_all flip: div_mult2_eq)
  note m = div_mult_mod_eq [of c "0x40"] div_mult_mod_eq [of "c div 0x40" "0x40"]
    div_mult_mod_eq [of "c div 0x1000" "0x40"]
  show "c = c div 0x1000 * 0x1000 + c div 0x40 mod 0x40 * 0x40 + c mod 0x40"
    using d m by linarith
  show "c = c div 0x40000 * 0x40000 + c div 0x1000 mod 0x40 * 0x1000 + c div 0x40 mod 0x40 * 0x40
       + c mod 0x40"
    using d m by linarith
qed

lemma utf8_nats_char:
  assumes "scalar c"
  shows "utf8_nats (utf8_char c @ bs) = c # utf8_nats bs"
proof -
  consider "c < 0x80" | "0x80 \<le> c" "c < 0x800" | "0x800 \<le> c" "c < 0x10000"
    | "0x10000 \<le> c" "c < 0x110000"
    using assms unfolding scalar_def by linarith
  then show ?thesis
  proof cases
    case 1
    then show ?thesis by (simp add: utf8_char_def utf8_nats.simps)
  next
    case 2
    then have "2 \<le> c div 0x40" "c div 0x40 < 0x20" by auto
    with 2 show ?thesis
      by (simp add: utf8_char_def utf8_nats.simps cont_def)
  next
    case 3
    let ?a = "c div 0x1000" and ?b = "c div 0x40 mod 0x40" and ?d = "c mod 0x40"
    have b: "?a < 0x10" using 3 by auto
    have eq: "c = ?a * 0x1000 + ?b * 0x40 + ?d" by (rule split_base64)
    have s: "second3 (0xE0 + ?a) (0x80 + ?b)"
      using 3 assms eq by (auto simp: second3_def cont_def scalar_def surrogate_def)
    show ?thesis
      using 3 assms b s eq
      by (simp add: utf8_char_def utf8_nats.simps cont_def scalar_def)
  next
    case 4
    let ?a = "c div 0x40000" and ?b = "c div 0x1000 mod 0x40"
      and ?d = "c div 0x40 mod 0x40" and ?e = "c mod 0x40"
    have b: "?a < 5" using 4 by auto
    have eq: "c = ?a * 0x40000 + ?b * 0x1000 + ?d * 0x40 + ?e" by (rule split_base64)
    have s: "second4 (0xF0 + ?a) (0x80 + ?b)"
      using 4 eq by (auto simp: second4_def cont_def)
    show ?thesis
      using 4 b s eq assms
      by (simp add: utf8_char_def utf8_nats.simps cont_def scalar_def)
  qed
qed

lemma utf8_nats_chars: "\<forall>c \<in> set s. scalar c \<Longrightarrow> utf8_nats (concat (map utf8_char s)) = s"
  by (induction s) (auto simp: utf8_nats_char)

lemma map_unat_of_nat: "\<forall>n \<in> set ns. n < 256 \<Longrightarrow> map unat (map (word_of_nat :: nat \<Rightarrow> 8 word) ns) = ns"
  by (induction ns) (auto simp: unat_of_nat)

lemma utf8_decode_encode:
  assumes "\<forall>c \<in> set s. scalar c"
  shows "utf8_decode (utf8_encode s) = s"
proof -
  have "\<forall>b \<in> set (concat (map utf8_char s)). b < 256"
    using assms utf8_char_bytes by (fastforce simp: scalar_def)
  then have "utf8_decode (utf8_encode s) = utf8_nats (concat (map utf8_char s))"
    by (simp only: utf8_decode_def utf8_encode_def map_unat_of_nat)
  then show ?thesis using assms by (simp only: utf8_nats_chars)
qed

interpretation utf8: codec utf8_encode "\<lambda>bs. Some (utf8_decode bs)" "\<lambda>s. \<forall>c \<in> set s. scalar c"
  by unfold_locales (simp only: utf8_decode_encode)

section \<open>Integers as text\<close>

text \<open>\<open>str.isspace\<close> and the first code points of the ranges of decimal digits (category Nd).\<close>

definition is_space :: "nat \<Rightarrow> bool" where
  "is_space c \<longleftrightarrow>
     (9 \<le> c \<and> c \<le> 13) \<or> (28 \<le> c \<and> c \<le> 32) \<or> c = 133 \<or> c = 160 \<or> c = 5760
     \<or> (8192 \<le> c \<and> c \<le> 8202) \<or> c = 8232 \<or> c = 8233 \<or> c = 8239 \<or> c = 8287 \<or> c = 12288"

definition digit_zeros :: "nat list" where
  "digit_zeros =
     [0x30, 0x660, 0x6F0, 0x7C0, 0x966, 0x9E6, 0xA66, 0xAE6, 0xB66, 0xBE6, 0xC66, 0xCE6, 0xD66,
      0xDE6, 0xE50, 0xED0, 0xF20, 0x1040, 0x1090, 0x17E0, 0x1810, 0x1946, 0x19D0, 0x1A80, 0x1A90,
      0x1B50, 0x1BB0, 0x1C40, 0x1C50, 0xA620, 0xA8D0, 0xA900, 0xA9D0, 0xA9F0, 0xAA50, 0xABF0,
      0xFF10, 0x104A0, 0x10D30, 0x11066, 0x110F0, 0x11136, 0x111D0, 0x112F0, 0x11450, 0x114D0,
      0x11650, 0x116C0, 0x11730, 0x118E0, 0x11950, 0x11C50, 0x11D50, 0x11DA0, 0x11F50, 0x16A60,
      0x16AC0, 0x16B50, 0x1D7CE, 0x1D7D8, 0x1D7E2, 0x1D7EC, 0x1D7F6, 0x1E140, 0x1E2F0, 0x1E4D0,
      0x1E950, 0x1FBF0]"

definition dec_digit :: "nat \<Rightarrow> nat option" where
  "dec_digit c =
     (if 48 \<le> c \<and> c < 58 then Some (c - 48)
      else map_option (\<lambda>z. c - z) (find (\<lambda>z. z \<le> c \<and> c < z + 10) digit_zeros))"

definition hex_digit :: "nat \<Rightarrow> nat option" where
  "hex_digit c =
     (if 97 \<le> c \<and> c < 103 then Some (c - 87)
      else if 65 \<le> c \<and> c < 71 then Some (c - 55)
      else dec_digit c)"

text \<open>
  The digits of \<open>int(s, base)\<close>: single underscores may separate digits.  The flag says whether
  the last code point read was a digit.
\<close>

fun py_digits :: "(nat \<Rightarrow> nat option) \<Rightarrow> nat \<Rightarrow> nat \<Rightarrow> bool \<Rightarrow> str \<Rightarrow> nat option" where
  "py_digits d b acc ok [] = (if ok then Some acc else None)"
| "py_digits d b acc ok (c # cs) =
     (if c = 95 then (if ok then py_digits d b acc False cs else None)
      else case d c of None \<Rightarrow> None | Some v \<Rightarrow> py_digits d b (acc * b + v) True cs)"

definition py_strip :: "str \<Rightarrow> str" where
  "py_strip s = rev (dropWhile is_space (rev (dropWhile is_space s)))"

fun split_sign :: "str \<Rightarrow> bool \<times> str" where
  "split_sign [] = (False, [])"
| "split_sign (c # cs) = (if c = 45 then (True, cs) else if c = 43 then (False, cs) else (False, c # cs))"

definition signed :: "bool \<Rightarrow> nat \<Rightarrow> int" where
  "signed neg n = (if neg then - int n else int n)"

text \<open>
  \<open>int(s)\<close>; \<open>None\<close> stands for \<open>ValueError\<close>.  Since Python 3.11 more than 4300 decimal digits are
  refused too.
\<close>

definition py_int :: "str \<Rightarrow> int option" where
  "py_int s =
     (case split_sign (py_strip s) of (neg, body) \<Rightarrow>
       (if 4300 < length (filter (\<lambda>c. c \<noteq> 95) body) then None
        else map_option (signed neg) (py_digits dec_digit 10 0 False body)))"

text \<open>\<open>int(s, 16)\<close>: a prefix \<open>0x\<close>, with one underscore after it, is accepted.\<close>

fun drop_0x :: "str \<Rightarrow> str" where
  "drop_0x (z # x # cs) =
     (if z = 48 \<and> (x = 120 \<or> x = 88)
      then (case cs of u # cs' \<Rightarrow> if u = 95 then cs' else cs | [] \<Rightarrow> cs)
      else z # x # cs)"
| "drop_0x s = s"

definition py_int16 :: "str \<Rightarrow> int option" where
  "py_int16 s =
     (case split_sign (py_strip s) of (neg, body) \<Rightarrow>
        map_option (signed neg) (py_digits hex_digit 16 0 False (drop_0x body)))"

text \<open>\<open>str(n)\<close>.\<close>

fun nat_str :: "nat \<Rightarrow> str" where
  "nat_str n = (if n < 10 then [48 + n] else nat_str (n div 10) @ [48 + n mod 10])"

declare nat_str.simps [simp del]

definition str_int :: "int \<Rightarrow> str" where
  "str_int n = (if n < 0 then 45 # nat_str (nat (- n)) else nat_str (nat n))"

lemma py_digits_foldl:
  assumes "\<forall>c \<in> set cs. c \<noteq> 95 \<and> d c = Some (f c)" and "cs \<noteq> [] \<or> ok"
  shows "py_digits d b acc ok cs = Some (foldl (\<lambda>a c. a * b + f c) acc cs)"
  using assms by (induction cs arbitrary: acc ok) auto

lemma nat_str_digits: "c \<in> set (nat_str n) \<Longrightarrow> 48 \<le> c \<and> c < 58"
proof (induction n rule: nat_str.induct)
  case (1 n)
  then show ?case by (cases "n < 10") (auto simp: nat_str.simps [of n])
qed

lemma nat_str_neq_Nil [simp]: "nat_str n \<noteq> []"
  by (subst nat_str.simps) simp

lemma foldl_nat_str: "foldl (\<lambda>a c. a * 10 + (c - 48)) 0 (nat_str n) = n"
proof (induction n rule: nat_str.induct)
  case (1 n)
  show ?case
    by (cases "n < 10") (use 1 in \<open>simp_all add: nat_str.simps [of n]\<close>)
qed

lemma py_strip_id:
  assumes "\<forall>c \<in> set s. \<not> is_space c"
  shows "py_strip s = s"
proof -
  have d: "dropWhile is_space xs = xs" if "\<forall>c \<in> set xs. \<not> is_space c" for xs
    using that by (cases xs) auto
  show ?thesis using assms d [of s] d [of "rev s"] by (simp add: py_strip_def)
qed

lemma split_sign_digit: "48 \<le> c \<Longrightarrow> split_sign (c # cs) = (False, c # cs)"
  by simp

lemma nat_str_Cons: obtains c cs where "nat_str n = c # cs" "48 \<le> c"
  using nat_str_digits [of _ n] by (cases "nat_str n") auto

lemma py_digits_nat_str: "py_digits dec_digit 10 0 False (nat_str n) = Some n"
proof -
  have "\<forall>c \<in> set (nat_str n). c \<noteq> 95 \<and> dec_digit c = Some (c - 48)"
    using nat_str_digits by (force simp: dec_digit_def)
  from py_digits_foldl [where ok = False, OF this] show ?thesis
    by (simp add: foldl_nat_str)
qed

lemma filter_nat_str: "filter (\<lambda>c. c \<noteq> 95) (nat_str n) = nat_str n"
  using nat_str_digits [of _ n] by (intro filter_True) force

lemma str_int_not_space: "c \<in> set (str_int n) \<Longrightarrow> \<not> is_space c"
  using nat_str_digits by (force simp: str_int_def is_space_def split: if_splits)

lemma split_sign_str_int: "split_sign (str_int n) = (n < 0, nat_str (nat \<bar>n\<bar>))"
proof (cases "n < 0")
  case True
  then show ?thesis by (simp add: str_int_def)
next
  case False
  obtain c cs where "nat_str (nat n) = c # cs" "48 \<le> c" by (rule nat_str_Cons)
  with False show ?thesis by (simp add: str_int_def)
qed

text \<open>
  \<open>digits_ok n\<close>: \<open>n\<close> is within the limit of 4300 decimal digits.  Every integer that \<open>int(s)\<close>
  returns is, and every such integer survives \<open>int(str(n))\<close>.
\<close>

definition digits_ok :: "int \<Rightarrow> bool" where
  "digits_ok n \<longleftrightarrow> length (nat_str (nat \<bar>n\<bar>)) \<le> 4300"

lemma py_int_str_int:
  assumes "digits_ok n"
  shows "py_int (str_int n) = Some n"
proof -
  have "py_strip (str_int n) = str_int n"
    by (rule py_strip_id) (blast dest: str_int_not_space)
  then show ?thesis
    using assms
    by (simp add: digits_ok_def py_int_def split_sign_str_int filter_nat_str py_digits_nat_str signed_def)
qed

interpretation int_text: codec str_int py_int digits_ok
  by unfold_locales (rule py_int_str_int)

lemma nat_str_length: "n < 10 ^ k \<Longrightarrow> length (nat_str n) \<le> max 1 k"
proof (induction k arbitrary: n)
  case 0
  then show ?case by (simp add: nat_str.simps)
next
  case (Suc k)
  show ?case
  proof (cases "n < 10")
    case True
    then show ?thesis by (simp add: nat_str.simps [of n])
  next
    case False
    have "n div 10 < 10 ^ k" using Suc.prems by (simp add: less_mult_imp_div_less mult.commute)
    moreover have "0 < k" using False Suc.prems by (cases k) auto
    ultimately show ?thesis using Suc.IH [of "n div 10"] False by (simp add: nat_str.simps [of n])
  qed
qed

lemma nat_str_length_mono: "m \<le> n \<Longrightarrow> length (nat_str m) \<le> length (nat_str n)"
proof (induction n arbitrary: m rule: nat_str.induct)
  case (1 n)
  show ?case
  proof (cases "m < 10")
    case True
    then show ?thesis by (simp add: nat_str.simps [of m] Suc_le_eq)
  next
    case False
    then have "length (nat_str (m div 10)) \<le> length (nat_str (n div 10))"
      using 1 by (simp add: div_le_mono)
    then show ?thesis using False 1(2) by (simp add: nat_str.simps [of m] nat_str.simps [of n])
  qed
qed

lemma digits_ok_mono: "0 \<le> m \<Longrightarrow> m \<le> n \<Longrightarrow> digits_ok n \<Longrightarrow> digits_ok m"
  unfolding digits_ok_def using nat_str_length_mono [of "nat m" "nat n"] by (simp add: nat_mono)

lemma dec_digit_less: "dec_digit c = Some v \<Longrightarrow> v < 10"
  by (auto simp: dec_digit_def find_Some_iff split: if_splits)

lemma py_digits_bound:
  "py_digits dec_digit 10 acc ok cs = Some n \<Longrightarrow>
     n < (acc + 1) * 10 ^ length (filter (\<lambda>c. c \<noteq> 95) cs)"
proof (induction cs arbitrary: acc ok)
  case Nil
  then show ?case by (simp split: if_splits)
next
  case (Cons c cs)
  show ?case
  proof (cases "c = 95")
    case True
    then show ?thesis using Cons by (auto split: if_splits)
  next
    case False
    with Cons.prems obtain v where v: "dec_digit c = Some v"
      and rest: "py_digits dec_digit 10 (acc * 10 + v) True cs = Some n"
      by (auto split: option.splits)
    have "n < (acc * 10 + v + 1) * 10 ^ length (filter (\<lambda>c. c \<noteq> 95) cs)" using Cons.IH [OF rest] .
    also have "\<dots> \<le> ((acc + 1) * 10) * 10 ^ length (filter (\<lambda>c. c \<noteq> 95) cs)"
      using dec_digit_less [OF v] by (intro mult_right_mono) auto
    finally show ?thesis using False by (simp add: algebra_simps)
  qed
qed

lemma py_int_digits_ok:
  assumes "py_int s = Some n"
  shows "digits_ok n"
proof -
  obtain neg body where b: "split_sign (py_strip s) = (neg, body)" by (cases "split_sign (py_strip s)")
  with assms obtain m where m: "py_digits dec_digit 10 0 False body = Some m" "n = signed neg m"
    and len: "length (filter (\<lambda>c. c \<noteq> 95) body) \<le> 4300"
    by (auto simp: py_int_def split: if_splits)
  from py_digits_bound [OF m(1)] have "m < 10 ^ length (filter (\<lambda>c. c \<noteq> 95) body)" by simp
  from nat_str_length [OF this] len have "length (nat_str m) \<le> 4300" by simp
  then show ?thesis using m(2) by (simp add: digits_ok_def signed_def split: if_splits)
qed

section \<open>UUIDs\<close>

text \<open>A \<open>uuid.UUID\<close> is a 128-bit integer; \<open>str(u)\<close> is its 8-4-4-4-12 hexadecimal form.\<close>

type_synonym uuid = "128 word"

definition hex_char :: "nat \<Rightarrow> nat" where
  "hex_char v = (if v < 10 then 48 + v else 87 + v)"

fun hex_fixed :: "nat \<Rightarrow> nat \<Rightarrow> str" where
  "hex_fixed 0 v = []"
| "hex_fixed (Suc n) v = hex_fixed n (v div 16) @ [hex_char (v mod 16)]"

definition uuid_hex :: "uuid \<Rightarrow> str" where
  "uuid_hex u = hex_fixed 32 (unat u)"

definition uuid_str :: "uuid \<Rightarrow> str" where
  "uuid_str u =
     (let h = uuid_hex u in
      take 8 h @ [45] @ take 4 (drop 8 h) @ [45] @ take 4 (drop 12 h) @ [45] @ take 4 (drop 16 h)
        @ [45] @ drop 20 h)"

text \<open>\<open>s.replace(pat, "")\<close>.\<close>

function remove_sub :: "str \<Rightarrow> str \<Rightarrow> str" where
  "remove_sub pat [] = []"
| "remove_sub pat (c # cs) =
     (if pat \<noteq> [] \<and> take (length pat) (c # cs) = pat
      then remove_sub pat (drop (length pat) (c # cs))
      else c # remove_sub pat cs)"
  by pat_completeness auto
termination
  by (relation "measure (\<lambda>(pat, s). length s)") auto

definition strip_chars :: "nat list \<Rightarrow> str \<Rightarrow> str" where
  "strip_chars xs s = rev (dropWhile (\<lambda>c. c \<in> set xs) (rev (dropWhile (\<lambda>c. c \<in> set xs) s)))"

text \<open>\<open>uuid.UUID(s)\<close>; \<open>None\<close> stands for \<open>ValueError\<close>.\<close>

definition uuid_parse :: "str \<Rightarrow> uuid option" where
  "uuid_parse s =
     (let hex = remove_sub (lit ''uuid:'') (remove_sub (lit ''urn:'') s);
          hex = remove_sub (lit ''-'') (strip_chars [123, 125] hex)
      in if length hex \<noteq> 32 then None
         else case py_int16 hex of
             None \<Rightarrow> None
           | Some n \<Rightarrow> if 0 \<le> n \<and> n < 2 ^ 128 then Some (word_of_int n) else None)"

definition is_hex_char :: "nat \<Rightarrow> bool" where
  "is_hex_char c \<longleftrightarrow> (48 \<le> c \<and> c < 58) \<or> (97 \<le> c \<and> c < 103)"

lemma hex_char_is_hex: "v < 16 \<Longrightarrow> is_hex_char (hex_char v)"
  by (auto simp: is_hex_char_def hex_char_def)

lemma hex_digit_hex_char: "v < 16 \<Longrightarrow> hex_digit (hex_char v) = Some v"
  by (auto simp: hex_digit_def hex_char_def dec_digit_def)

lemma length_hex_fixed [simp]: "length (hex_fixed n v) = n"
  by (induction n arbitrary: v) auto

lemma set_hex_fixed: "c \<in> set (hex_fixed n v) \<Longrightarrow> is_hex_char c"
  by (induction n arbitrary: v) (auto simp: hex_char_is_hex)

lemma foldl_hex_fixed:
  "v < 16 ^ n \<Longrightarrow> foldl (\<lambda>a c. a * 16 + the (hex_digit c)) 0 (hex_fixed n v) = v"
proof (induction n arbitrary: v)
  case 0
  then show ?case by simp
next
  case (Suc n)
  then have "v div 16 < 16 ^ n" by (simp add: less_mult_imp_div_less mult.commute)
  with Suc.IH [of "v div 16"] show ?case by (simp add: hex_digit_hex_char)
qed

lemma is_hex_char_digit: "is_hex_char c \<Longrightarrow> c \<noteq> 95 \<and> hex_digit c = Some (the (hex_digit c))"
  by (auto simp: is_hex_char_def hex_digit_def dec_digit_def)

lemma remove_sub_absent: "p \<notin> set s \<Longrightarrow> remove_sub (p # ps) s = s"
  by (induction s) auto

lemma remove_sub_single: "remove_sub [p] s = filter (\<lambda>c. c \<noteq> p) s"
  by (induction s) auto

lemma strip_chars_absent:
  assumes "\<forall>c \<in> set s. c \<notin> set xs"
  shows "strip_chars xs s = s"
proof -
  have d: "dropWhile (\<lambda>c. c \<in> set xs) ys = ys" if "\<forall>c \<in> set ys. c \<notin> set xs" for ys
    using that by (cases ys) auto
  show ?thesis using assms d [of s] d [of "rev s"] by (simp add: strip_chars_def)
qed

lemma drop_0x_hex:
  assumes "\<forall>c \<in> set s. is_hex_char c"
  shows "drop_0x s = s"
  using assms by (cases s rule: drop_0x.cases) (auto simp: is_hex_char_def)

lemma split_sign_hex: "\<forall>c \<in> set s. is_hex_char c \<Longrightarrow> split_sign s = (False, s)"
  by (cases s) (auto simp: is_hex_char_def)

lemma py_int16_hex_fixed:
  assumes "v < 16 ^ n" and "0 < n"
  shows "py_int16 (hex_fixed n v) = Some (int v)"
proof -
  have h: "\<forall>c \<in> set (hex_fixed n v). is_hex_char c" by (simp add: set_hex_fixed)
  then have "py_strip (hex_fixed n v) = hex_fixed n v"
    by (intro py_strip_id) (auto simp: is_hex_char_def is_space_def)
  moreover have "py_digits hex_digit 16 0 False (hex_fixed n v) = Some v"
    using py_digits_foldl [of "hex_fixed n v" hex_digit "\<lambda>c. the (hex_digit c)" False 16 0] h assms
      is_hex_char_digit length_hex_fixed [of n v]
    by (force simp: foldl_hex_fixed simp del: length_hex_fixed)
  ultimately show ?thesis
    using h by (simp add: py_int16_def split_sign_hex drop_0x_hex signed_def)
qed

lemma filter_uuid_str: "filter (\<lambda>c. c \<noteq> 45) (uuid_str u) = uuid_hex u"
proof -
  let ?h = "uuid_hex u"
  have h: "\<forall>c \<in> set ?h. c \<noteq> 45"
    using set_hex_fixed by (force simp: uuid_hex_def is_hex_char_def)
  then have f: "filter (\<lambda>c. c \<noteq> 45) (take n (drop m ?h)) = take n (drop m ?h)"
    "filter (\<lambda>c. c \<noteq> 45) (drop m ?h) = drop m ?h" for n m
    by (auto simp: filter_id_conv dest!: in_set_takeD in_set_dropD)
  have "take 20 ?h = take 8 ?h @ take 4 (drop 8 ?h) @ take 4 (drop 12 ?h) @ take 4 (drop 16 ?h)"
    using take_add [of 8 4 ?h] take_add [of 12 4 ?h] take_add [of 16 4 ?h] by simp
  with append_take_drop_id [of 20 ?h]
  have "?h = take 8 ?h @ take 4 (drop 8 ?h) @ take 4 (drop 12 ?h) @ take 4 (drop 16 ?h) @ drop 20 ?h"
    by (metis append.assoc)
  then show ?thesis
    using f(1) [of _ 0] f by (simp add: uuid_str_def Let_def)
qed

lemma set_uuid_str: "c \<in> set (uuid_str u) \<Longrightarrow> is_hex_char c \<or> c = 45"
  by (auto simp: uuid_str_def Let_def uuid_hex_def
      dest!: in_set_takeD in_set_dropD intro: set_hex_fixed)

lemma uuid_parse_str: "uuid_parse (uuid_str u) = Some u"
proof -
  have a: "117 \<notin> set (uuid_str u)" "\<forall>c \<in> set (uuid_str u). c \<notin> set [123, 125]"
    using set_uuid_str by (force simp: is_hex_char_def)+
  have v: "unat u < 16 ^ 32"
    using unsigned_less [of u] by simp
  have "remove_sub (lit ''uuid:'') (remove_sub (lit ''urn:'') (uuid_str u)) = uuid_str u"
    using a(1) by (simp add: remove_sub_absent)
  moreover have "remove_sub (lit ''-'') (strip_chars [123, 125] (uuid_str u)) = uuid_hex u"
    using a(2) by (simp add: strip_chars_absent remove_sub_single filter_uuid_str)
  ultimately show ?thesis
    using py_int16_hex_fixed [OF v] unsigned_less [of u]
    by (simp add: uuid_parse_def uuid_hex_def flip: of_nat_less_iff)
qed

interpretation uuid_text: codec uuid_str uuid_parse "\<lambda>_. True"
  by unfold_locales (rule uuid_parse_str)

section \<open>Splitting a list of values\<close>

text \<open>\<open>s.split(sep)\<close> for a one-character separator.\<close>

fun py_split :: "nat \<Rightarrow> str \<Rightarrow> str list" where
  "py_split sep [] = [[]]"
| "py_split sep (c # cs) =
     (if c = sep then [] # py_split sep cs
      else case py_split sep cs of [] \<Rightarrow> [[c]] | x # xs \<Rightarrow> (c # x) # xs)"

lemma py_split_no_sep: "x \<in> set (py_split sep s) \<Longrightarrow> sep \<notin> set x"
  by (induction s arbitrary: x) (auto split: if_splits list.splits)

lemma set_py_strip: "set (py_strip s) \<subseteq> set s"
  by (auto simp: py_strip_def dest!: set_dropWhileD)

end
