(* ===== verification/Effects.thy ===== *)
theory Effects
  imports Domain
begin

text \<open>
  The boundary of the program: every request it sends to another system, every kind of answer it
  can get, the exceptions, and the third-party functions it calls.

  Redis, Postgres (through a SQLAlchemy session), the Kafka client, the clock and the random
  generator answer requests.  They are not defined: an answer is whatever the other side says,
  an exception included.  Functions of packages that compute a value from their arguments
  (pydantic's validation, text of a float) are the fields of the record \<open>libs\<close>, a parameter.
\<close>

section \<open>Exceptions\<close>

text \<open>
  The two processing errors of \<open>app/errors.py\<close>, the exceptions some \<open>except\<close> clause or \<open>raise\<close> of
  the code names, and \<open>ServiceError\<close> for every other \<open>Exception\<close> a client library raises.
  \<open>CancelledError\<close> is a \<open>BaseException\<close>: \<open>except Exception\<close> does not catch it.
\<close>

datatype exn =
    TransientError str
  | PermanentError str
  | RuntimeError str
  | AttributeError str
  | ValueError str
  | OverflowError str
  | NotImplementedError
  | KafkaConnectionError str
  | OSError str
  | TopicAlreadyExistsError
  | HTTPException int str
  | ServiceError str
  | CancelledError

definition is_Exception :: "exn \<Rightarrow> bool" where
  "is_Exception e \<longleftrightarrow> e \<noteq> CancelledError"

section \<open>Requests and answers\<close>

type_synonym kheaders = "(str \<times> bytes option) list"

record consumer_record =
  r_topic :: str
  r_partition :: int
  r_offset :: int
  r_key :: "str option"
  r_value :: json
  r_headers :: kheaders

type_synonym topic_partition = "str \<times> int"

record new_topic =
  nt_name :: str
  nt_num_partitions :: int
  nt_replication_factor :: int
  nt_retention_ms :: str

text \<open>What a session writes when it is flushed.\<close>

datatype change = SaveOrder order | SaveDeadLetter dead_letter

datatype lua_script = RELEASE_LUA | COMPLETE_LUA

datatype req =
    RedisSet str str bool "int option"
  | RedisGet str
  | RedisDelete str
  | RedisHincrby str str int
  | RedisHgetall str
  | RedisPing
  | RedisEval lua_script str str "int option"
  | RedisClose
  | DbOpen
  | DbGet nat uuid
  | DbFlush nat change
  | DbCommit nat
  | DbRollback nat
  | DbClose nat
  | DbSelectOrders nat "order_status option" int int
  | DbSelectDeadLetters nat int int
  | DbCountByStatus nat
  | DbSelectOne nat
  | DbCreateAll
  | DbDispose
  | ProducerStart "str list"
  | ProducerStop
  | KafkaSend str "str option" json kheaders
  | FetchMetadata
  | ConsumerStart consumer_options
  | ConsumerStop
  | GetMany
  | Seek topic_partition int
  | CommitOffset topic_partition int
  | IsStopping
  | AdminStart "str list"
  | ListTopics
  | CreateTopics "new_topic list"
  | AdminClose
  | Uuid4
  | UtcNow
  | TimeTime
  | Sleep rat
  | Uniform rat rat

datatype resp =
    RUnit
  | RBool bool
  | RInt int
  | RStr "str option"
  | RHash "(str \<times> str) list"
  | RSid nat
  | ROrder "order option"
  | ROrders "order list"
  | RDeadLetters "(int \<times> dead_letter) list"
  | RCounts "(order_status \<times> int) list"
  | RNames "str list"
  | RBatch "(topic_partition \<times> consumer_record list) list"
  | RTime datetime
  | RFloat rat
  | RUuid uuid
  | RErr exn

type_synonym 'a io = "(req, resp, exn, 'a) prog"
type_synonym trace = "(req \<times> resp) list"
type_synonym 'w services = "'w \<Rightarrow> req \<Rightarrow> resp \<times> 'w"

text \<open>
  \<open>await\<close> of one request.  An exception in the answer is raised at the \<open>await\<close>; an answer of the
  wrong kind is a client-library error.
\<close>

definition bad_reply :: exn where
  "bad_reply = ServiceError (lit ''unexpected reply'')"

definition ask :: "(resp \<Rightarrow> 'a option) \<Rightarrow> req \<Rightarrow> 'a io" where
  "ask get q = Call q (\<lambda>r. case r of
      RErr e \<Rightarrow> Raise e
    | _ \<Rightarrow> (case get r of Some x \<Rightarrow> Return x | None \<Rightarrow> Raise bad_reply))"

fun get_unit :: "resp \<Rightarrow> unit option" where
  "get_unit (RErr e) = None"
| "get_unit r = Some ()"

fun get_bool :: "resp \<Rightarrow> bool option" where
  "get_bool (RBool b) = Some b"
| "get_bool r = None"

fun get_int :: "resp \<Rightarrow> int option" where
  "get_int (RInt n) = Some n"
| "get_int r = None"

fun get_str :: "resp \<Rightarrow> str option option" where
  "get_str (RStr s) = Some s"
| "get_str r = None"

fun get_hash :: "resp \<Rightarrow> (str \<times> str) list option" where
  "get_hash (RHash h) = Some h"
| "get_hash r = None"

fun get_sid :: "resp \<Rightarrow> nat option" where
  "get_sid (RSid s) = Some s"
| "get_sid r = None"

fun get_row :: "resp \<Rightarrow> order option option" where
  "get_row (ROrder r) = Some r"
| "get_row r = None"

fun get_rows :: "resp \<Rightarrow> order list option" where
  "get_rows (ROrders rs) = Some rs"
| "get_rows r = None"

fun get_dead :: "resp \<Rightarrow> (int \<times> dead_letter) list option" where
  "get_dead (RDeadLetters rs) = Some rs"
| "get_dead r = None"

fun get_counts :: "resp \<Rightarrow> (order_status \<times> int) list option" where
  "get_counts (RCounts rs) = Some rs"
| "get_counts r = None"

fun get_names :: "resp \<Rightarrow> str list option" where
  "get_names (RNames ns) = Some ns"
| "get_names r = None"

fun get_batch :: "resp \<Rightarrow> (topic_partition \<times> consumer_record list) list option" where
  "get_batch (RBatch b) = Some b"
| "get_batch r = None"

fun get_time :: "resp \<Rightarrow> datetime option" where
  "get_time (RTime t) = Some t"
| "get_time r = None"

fun get_float :: "resp \<Rightarrow> rat option" where
  "get_float (RFloat x) = Some x"
| "get_float r = None"

fun get_uuid :: "resp \<Rightarrow> uuid option" where
  "get_uuid (RUuid u) = Some u"
| "get_uuid r = None"

text \<open>How one request can end.\<close>

definition answer :: "(resp \<Rightarrow> 'a option) \<Rightarrow> resp \<Rightarrow> exn + 'a" where
  "answer get r = (case r of
      RErr e \<Rightarrow> Inl e
    | _ \<Rightarrow> (case get r of Some x \<Rightarrow> Inr x | None \<Rightarrow> Inl bad_reply))"

lemma always_ask [prog_simps]: "always (ask get q) Q \<longleftrightarrow> (\<forall>r. Q [(q, r)] (answer get r))"
proof -
  have "always (ask get q) Q \<longleftrightarrow>
      (\<forall>r. always (case r of RErr e \<Rightarrow> Raise e
          | _ \<Rightarrow> (case get r of Some x \<Rightarrow> Return x | None \<Rightarrow> Raise bad_reply))
        (\<lambda>t v. Q ((q, r) # t) v))"
    by (simp add: ask_def)
  also have "\<dots> \<longleftrightarrow> (\<forall>r. Q [(q, r)] (answer get r))"
    by (intro iff_allI) (simp add: answer_def split: resp.split option.split)
  finally show ?thesis .
qed

lemma conv_ask: "conv (ask get q) t v \<longleftrightarrow> (\<exists>r. t = [(q, r)] \<and> v = answer get r)"
  unfolding conv_not_always always_ask by auto

lemma exec_ask [exec_simps]:
  "exec h (ask get q) w = (answer get (fst (h w q)), snd (h w q))"
  by (simp add: ask_def answer_def split: resp.split option.split)

lemma trail_ask [trail_simps]: "trail h (ask get q) w = [(q, fst (h w q))]"
  by (simp add: ask_def split: resp.split option.split)

lemma bindP_ask:
  "bindP (ask get q) f = Call q (\<lambda>r. case answer get r of Inl e \<Rightarrow> Raise e | Inr x \<Rightarrow> f x)"
  by (auto simp: ask_def answer_def fun_eq_iff split: resp.split option.split)

lemma conv_askI: "answer get r = v \<Longrightarrow> conv (ask get q) [(q, r)] v"
  by (simp add: conv_ask)

lemma conv_bindP_ask:
  "conv (bindP (ask get q) f) t v \<longleftrightarrow>
     (\<exists>r t'. t = (q, r) # t' \<and>
        (case answer get r of Inl e \<Rightarrow> t' = [] \<and> v = Inl e | Inr x \<Rightarrow> conv (f x) t' v))"
proof -
  have "conv (case answer get r of Inl e \<Rightarrow> Raise e | Inr x \<Rightarrow> f x) t' v \<longleftrightarrow>
      (case answer get r of Inl e \<Rightarrow> t' = [] \<and> v = Inl e | Inr x \<Rightarrow> conv (f x) t' v)" for r t'
    by (simp split: sum.split)
  then show ?thesis by (simp add: bindP_ask)
qed

lemma conv_bindP_ask_Inr:
  "conv (bindP (ask get q) f) t (Inr a) \<longleftrightarrow>
     (\<exists>r x t'. t = (q, r) # t' \<and> answer get r = Inr x \<and> conv (f x) t' (Inr a))"
proof -
  have "(case answer get r of Inl e \<Rightarrow> t' = [] \<and> Inr a = Inl e | Inr x \<Rightarrow> conv (f x) t' (Inr a)) \<longleftrightarrow>
      (\<exists>x. answer get r = Inr x \<and> conv (f x) t' (Inr a))" for r t'
    by (simp split: sum.split)
  then show ?thesis unfolding conv_bindP_ask by blast
qed

lemma answer_RErr [simp]: "answer get (RErr e) = Inl e"
  by (simp add: answer_def)

lemma answer_simps [simp]:
  "answer get_unit RUnit = Inr ()"
  "answer get_bool (RBool b) = Inr b"
  "answer get_int (RInt n) = Inr n"
  "answer get_str (RStr s) = Inr s"
  "answer get_hash (RHash hs) = Inr hs"
  "answer get_sid (RSid sid) = Inr sid"
  "answer get_row (ROrder row) = Inr row"
  "answer get_rows (ROrders rows) = Inr rows"
  "answer get_dead (RDeadLetters ds) = Inr ds"
  "answer get_counts (RCounts cs) = Inr cs"
  "answer get_names (RNames ns) = Inr ns"
  "answer get_batch (RBatch b') = Inr b'"
  "answer get_time (RTime t) = Inr t"
  "answer get_float (RFloat x) = Inr x"
  "answer get_uuid (RUuid u) = Inr u"
  by (simp_all add: answer_def)

text \<open>An answer that gives a value is of the kind that was asked for.\<close>

lemma answer_Inl: "answer get r = Inl e \<Longrightarrow> r = RErr e \<or> e = bad_reply"
  by (cases r) (auto simp: answer_def split: option.splits)

lemma answer_Inr:
  "answer get_unit r = Inr u \<longleftrightarrow> (\<forall>e. r \<noteq> RErr e)"
  "answer get_bool r = Inr b \<longleftrightarrow> r = RBool b"
  "answer get_int r = Inr n \<longleftrightarrow> r = RInt n"
  "answer get_str r = Inr s \<longleftrightarrow> r = RStr s"
  "answer get_sid r = Inr sid \<longleftrightarrow> r = RSid sid"
  "answer get_row r = Inr row \<longleftrightarrow> r = ROrder row"
  "answer get_names r = Inr ns \<longleftrightarrow> r = RNames ns"
  "answer get_batch r = Inr bt \<longleftrightarrow> r = RBatch bt"
  "answer get_time r = Inr tm \<longleftrightarrow> r = RTime tm"
  "answer get_float r = Inr x \<longleftrightarrow> r = RFloat x"
  "answer get_uuid r = Inr uu \<longleftrightarrow> r = RUuid uu"
  by (cases r; simp add: answer_def)+

lemma answer_CancelledError: "answer get r = Inl CancelledError \<longleftrightarrow> r = RErr CancelledError"
  by (cases r) (auto simp: answer_def bad_reply_def split: option.split)

text \<open>
  A request whose failure is swallowed by \<open>except Exception\<close> ends normally unless the task itself
  is cancelled.
\<close>

definition best_effort :: "(resp \<Rightarrow> 'a option) \<Rightarrow> req \<Rightarrow> unit io" where
  "best_effort get q =
     try_except is_Exception (seqP (ask get q) (Return ())) (\<lambda>_. Return ())"

definition settled :: "resp \<Rightarrow> exn + unit" where
  "settled r = (if r = RErr CancelledError then Inl CancelledError else Inr ())"

lemma always_best_effort [prog_simps]:
  "always (best_effort get q) Q \<longleftrightarrow> (\<forall>r. Q [(q, r)] (settled r))"
proof -
  have "always (best_effort get q) Q \<longleftrightarrow>
      (\<forall>r. case answer get r of
           Inl e \<Rightarrow> if e \<noteq> CancelledError then Q [(q, r)] (Inr ()) else Q [(q, r)] (Inl e)
         | Inr x \<Rightarrow> Q [(q, r)] (Inr ()))"
    unfolding best_effort_def always_try_except always_seqP always_ask
    by (intro iff_allI) (simp add: is_Exception_def split: sum.split)
  also have "\<dots> \<longleftrightarrow> (\<forall>r. Q [(q, r)] (settled r))"
    by (intro iff_allI) (auto simp: settled_def answer_CancelledError split: sum.split)
  finally show ?thesis .
qed

lemma exec_best_effort [exec_simps]:
  "exec h (best_effort get q) w = (settled (fst (h w q)), snd (h w q))"
  by (auto simp: best_effort_def exec_simps settled_def is_Exception_def answer_CancelledError
      split: sum.split)

lemma trail_best_effort [trail_simps]: "trail h (best_effort get q) w = [(q, fst (h w q))]"
  by (simp add: best_effort_def trail_simps exec_simps split: sum.split)

text \<open>One request in the two program logics.\<close>

lemma only_ask [simp]: "only \<phi> (ask get q) \<longleftrightarrow> \<phi> q"
  by (auto simp: ask_def split: resp.split option.split)

lemma only_best_effort [simp]: "only \<phi> (best_effort get q) \<longleftrightarrow> \<phi> q"
  by (auto simp: best_effort_def try_except_def seqP_def bindP_ask split: sum.split)

lemma returns_ask: "returns (ask get q) (\<lambda>t x. \<exists>r. t = [(q, r)] \<and> answer get r = Inr x)"
  by (simp add: returns_def always_ask)

lemma returns_best_effort: "returns (best_effort get q) (\<lambda>t x. \<exists>r. t = [(q, r)])"
  by (simp add: returns_def always_best_effort)

section \<open>Libraries and process context\<close>

text \<open>
  \<^item> \<open>validate_event\<close>: \<open>OrderEvent.model_validate(value)\<close>; \<open>Inl\<close> is the text of the
    \<open>ValidationError\<close>.
  \<^item> \<open>dump_event\<close>: \<open>event.model_dump(mode="json")\<close>.
  \<^item> \<open>dump_order_out\<close>: \<open>OrderOut.model_dump_json()\<close>; \<open>load_order_out\<close>:
    \<open>OrderOut.model_validate(json.loads(raw))\<close>, \<open>None\<close> when it raises.
  \<^item> \<open>upper\<close>, \<open>repr_str\<close>: \<open>str.upper\<close> and \<open>repr\<close>, which depend on the Unicode tables.
  \<^item> \<open>repr_float\<close>, \<open>parse_float\<close>: \<open>repr(x)\<close> and \<open>float(s)\<close> (\<open>None\<close> is \<open>ValueError\<close>).
  \<^item> \<open>isoformat\<close>: \<open>datetime.isoformat()\<close>.
\<close>

record libs =
  validate_event :: "json \<Rightarrow> str + order_event"
  dump_event :: "order_event \<Rightarrow> json"
  dump_order_out :: "order_out \<Rightarrow> str"
  load_order_out :: "str \<Rightarrow> order_out option"
  upper :: "str \<Rightarrow> str"
  repr_str :: "str \<Rightarrow> str"
  repr_float :: "rat \<Rightarrow> str"
  parse_float :: "str \<Rightarrow> pyfloat option"
  isoformat :: "datetime \<Rightarrow> str"

text \<open>
  What a running process has at hand: its settings, its libraries, and whether the module-wide
  Kafka producer (\<open>app/kafka/producer.py\<close>, \<open>_producer\<close>) has been started.
\<close>

record ctx =
  cfg :: settings
  lib :: libs
  producer :: bool

end
