(* ===== verification/RedisClient.thy ===== *)
theory RedisClient
  imports Effects
begin

text \<open>
  The shared Redis client (\<open>app/redis_client.py\<close>): key names, pipeline counters, the lazily built
  client; and the contract of the Redis server, used as a hypothesis where a property depends on
  what the server stores.
\<close>

section \<open>Keys\<close>

definition Keys_order :: "str \<Rightarrow> str" where
  "Keys_order order_id = lit ''order:'' @ order_id"

definition Keys_event_guard :: "str \<Rightarrow> str" where
  "Keys_event_guard event_id = lit ''idem:event:'' @ event_id"

definition Keys_api_idempotency :: "str \<Rightarrow> str" where
  "Keys_api_idempotency key = lit ''idem:api:'' @ key"

definition Keys_STATS :: str where
  "Keys_STATS = lit ''stats''"

lemmas Keys_defs = Keys_order_def Keys_event_guard_def Keys_api_idempotency_def Keys_STATS_def

lemma Keys_inject [simp]:
  "Keys_order a = Keys_order b \<longleftrightarrow> a = b"
  "Keys_event_guard a = Keys_event_guard b \<longleftrightarrow> a = b"
  "Keys_api_idempotency a = Keys_api_idempotency b \<longleftrightarrow> a = b"
  by (simp_all add: Keys_defs)

lemma Keys_disjoint [simp]:
  "Keys_order a \<noteq> Keys_event_guard b" "Keys_event_guard b \<noteq> Keys_order a"
  "Keys_order a \<noteq> Keys_api_idempotency b" "Keys_api_idempotency b \<noteq> Keys_order a"
  "Keys_event_guard a \<noteq> Keys_api_idempotency b" "Keys_api_idempotency b \<noteq> Keys_event_guard a"
  "Keys_order a \<noteq> Keys_STATS" "Keys_event_guard a \<noteq> Keys_STATS" "Keys_api_idempotency a \<noteq> Keys_STATS"
  by (simp_all add: Keys_defs)

section \<open>Counters\<close>

definition STAT_PUBLISHED :: str where "STAT_PUBLISHED = lit ''published''"
definition STAT_CONSUMED :: str where "STAT_CONSUMED = lit ''consumed''"
definition STAT_COMPLETED :: str where "STAT_COMPLETED = lit ''completed''"
definition STAT_FAILED :: str where "STAT_FAILED = lit ''failed''"
definition STAT_DUPLICATES :: str where "STAT_DUPLICATES = lit ''duplicates_skipped''"
definition STAT_RETRIES :: str where "STAT_RETRIES = lit ''retries_scheduled''"
definition STAT_DLQ :: str where "STAT_DLQ = lit ''dead_lettered''"
definition STAT_CACHE_HITS :: str where "STAT_CACHE_HITS = lit ''cache_hits''"
definition STAT_CACHE_MISSES :: str where "STAT_CACHE_MISSES = lit ''cache_misses''"

lemmas STAT_defs = STAT_PUBLISHED_def STAT_CONSUMED_def STAT_COMPLETED_def STAT_FAILED_def
  STAT_DUPLICATES_def STAT_RETRIES_def STAT_DLQ_def STAT_CACHE_HITS_def STAT_CACHE_MISSES_def

text \<open>Best effort: an exception is swallowed.\<close>

definition incr_stat :: "str \<Rightarrow> int \<Rightarrow> unit io" where
  "incr_stat field amount = best_effort get_int (RedisHincrby Keys_STATS field amount)"

fun int_values :: "(str \<times> str) list \<Rightarrow> (str \<times> int) list option" where
  "int_values [] = Some []"
| "int_values ((k, v) # kvs) =
     (case py_int v of None \<Rightarrow> None
      | Some n \<Rightarrow> map_option ((#) (k, n)) (int_values kvs))"

definition read_stats :: "(str \<times> int) list io" where
  "read_stats =
     bindP (ask get_hash (RedisHgetall Keys_STATS)) (\<lambda>raw.
       case int_values raw of
         Some counters \<Rightarrow> Return counters
       | None \<Rightarrow> Raise (ValueError (lit ''invalid literal for int() with base 10'')))"

definition reset_stats :: "unit io" where
  "reset_stats = seqP (ask get_int (RedisDelete Keys_STATS)) (Return ())"

section \<open>The client\<close>

text \<open>
  \<open>_client\<close> is either unset or built; building it talks to nobody.  \<open>get_redis\<close> and \<open>close_redis\<close>
  return the new state of that variable.
\<close>

definition get_redis :: "bool \<Rightarrow> bool" where
  "get_redis client = (if \<not> client then True else client)"

definition close_redis :: "bool \<Rightarrow> bool io" where
  "close_redis client =
     (if client then seqP (ask get_unit RedisClose) (Return False) else Return client)"

definition redis_ping :: "bool io" where
  "redis_ping = try_except is_Exception (ask get_bool RedisPing) (\<lambda>_. Return False)"

section \<open>The contract of the server\<close>

text \<open>
  The string keys of a Redis database: the value of a live key and its remaining time to live in
  seconds, if it has one.
\<close>

type_synonym keyspace = "str \<rightharpoonup> str \<times> int option"

text \<open>
  A Lua script is run by the server as one command.  Its body is a sequence of \<open>redis.call\<close>s.
\<close>

datatype script =
    SReturn int
  | SGet str "str option \<Rightarrow> script"
  | SDel str "int \<Rightarrow> script"
  | SSetEx str str int script

primrec run_script :: "script \<Rightarrow> keyspace \<Rightarrow> int \<times> keyspace" where
  "run_script (SReturn n) m = (n, m)"
| "run_script (SGet k f) m = run_script (f (map_option fst (m k))) m"
| "run_script (SDel k f) m = run_script (f (if m k = None then 0 else 1)) (m(k := None))"
| "run_script (SSetEx k v ttl s) m = run_script s (m(k \<mapsto> (v, Some ttl)))"

text \<open>
  Time passes: a key with a time to live keeps its value with less time left, or is gone; a key
  without one stays.
\<close>

inductive ages :: "(str \<times> int option) option \<Rightarrow> (str \<times> int option) option \<Rightarrow> bool" where
  same: "ages x x"
| gone: "ages (Some (v, Some t)) None"
| older: "t' \<le> t \<Longrightarrow> ages (Some (v, Some t)) (Some (v, Some t'))"

inductive_simps ages_Some: "ages x (Some (v, t))"
inductive_cases ages_NoneE: "ages None y"

definition elapse :: "keyspace \<Rightarrow> keyspace \<Rightarrow> bool" where
  "elapse m m' \<longleftrightarrow> (\<forall>k. ages (m k) (m' k))"

lemma elapse_refl [simp]: "elapse m m"
  by (simp add: elapse_def ages.same)

lemma elapse_value:
  assumes "elapse m m'" and "m' k = Some (v, t)"
  shows "\<exists>t'. m k = Some (v, t')"
proof -
  have "ages (m k) (Some (v, t))" using assms by (metis elapse_def)
  then show ?thesis by (cases rule: ages.cases) metis+
qed

lemma elapse_None:
  assumes "elapse m m'" and "m k = None"
  shows "m' k = None"
proof -
  have "ages None (m' k)" using assms by (metis elapse_def)
  then show ?thesis by (auto elim: ages_NoneE)
qed

lemma ages_trans: "ages a b \<Longrightarrow> ages b c \<Longrightarrow> ages a c"
  by (erule ages.cases; erule ages.cases) (auto intro: ages.intros)

lemma elapse_trans: "elapse a b \<Longrightarrow> elapse b c \<Longrightarrow> elapse a c"
  by (meson ages_trans elapse_def)

end
