(* ===== verification/Idempotency.thy ===== *)
theory Idempotency
  imports RedisClient
begin

text \<open>
  The idempotency guard of the consumer (\<open>app/idempotency.py\<close>): one Redis key per event, claimed
  with \<open>SET NX EX\<close>, released or tombstoned by compare-and-set Lua scripts.

  The definitions follow the class: the two scripts, \<open>claim\<close>, \<open>complete\<close>, \<open>release\<close>, \<open>forget\<close>.
  The lemmas give the key after each operation under the server's contract, with time passing
  between commands, and what happens when several workers claim the same event at once.
\<close>

section \<open>The guard\<close>

definition DONE :: str where
  "DONE = lit ''done''"

fun lua_body :: "lua_script \<Rightarrow> str \<Rightarrow> str \<Rightarrow> int option \<Rightarrow> script" where
  "lua_body RELEASE_LUA k token ttl =
     SGet k (\<lambda>v. if v = Some token then SDel k (\<lambda>n. SReturn n) else SReturn 0)"
| "lua_body COMPLETE_LUA k token ttl =
     SGet k (\<lambda>v. if v = Some token
                 then SSetEx k DONE (case ttl of Some t \<Rightarrow> t | None \<Rightarrow> 0) (SReturn 1)
                 else SReturn 0)"

datatype claim_status = ACQUIRED | ALREADY_DONE | IN_PROGRESS

record claim =
  c_status :: claim_status
  c_key :: str
  c_token :: str

definition acquired :: "claim \<Rightarrow> bool" where
  "acquired c \<longleftrightarrow> c_status c = ACQUIRED"

record guard =
  g_lock_ttl :: int
  g_done_ttl :: int

text \<open>\<open>lock_ttl or settings...\<close>: an argument that is absent or zero gives the default.\<close>

definition or_default :: "int option \<Rightarrow> int \<Rightarrow> int" where
  "or_default x d = (case x of Some n \<Rightarrow> if n \<noteq> 0 then n else d | None \<Rightarrow> d)"

definition IdempotencyGuard :: "settings \<Rightarrow> int option \<Rightarrow> int option \<Rightarrow> guard" where
  "IdempotencyGuard s lock_ttl done_ttl = \<lparr>
     g_lock_ttl = or_default lock_ttl (idempotency_lock_ttl_seconds s),
     g_done_ttl = or_default done_ttl (idempotency_done_ttl_seconds s)\<rparr>"

definition claim_verdict :: "str \<Rightarrow> str \<Rightarrow> str option \<Rightarrow> claim io" where
  "claim_verdict k token current =
     (if current = Some DONE
      then Return \<lparr>c_status = ALREADY_DONE, c_key = k, c_token = token\<rparr>
      else Return \<lparr>c_status = IN_PROGRESS, c_key = k, c_token = token\<rparr>)"

definition claim :: "guard \<Rightarrow> str \<Rightarrow> claim io" where
  "claim g event_id =
     (let k = Keys_event_guard event_id in
      bindP (ask get_uuid Uuid4) (\<lambda>u.
      let token = uuid_hex u in
      bindP (ask get_bool (RedisSet k token True (Some (g_lock_ttl g)))) (\<lambda>ok.
      if ok then Return \<lparr>c_status = ACQUIRED, c_key = k, c_token = token\<rparr>
      else
      bindP (ask get_str (RedisGet k)) (\<lambda>current.
      if current = None then
        bindP (ask get_bool (RedisSet k token True (Some (g_lock_ttl g)))) (\<lambda>ok.
        if ok then Return \<lparr>c_status = ACQUIRED, c_key = k, c_token = token\<rparr>
        else bindP (ask get_str (RedisGet k)) (claim_verdict k token))
      else claim_verdict k token current))))"

definition complete :: "guard \<Rightarrow> claim \<Rightarrow> bool io" where
  "complete g c =
     bindP (ask get_int (RedisEval COMPLETE_LUA (c_key c) (c_token c) (Some (g_done_ttl g))))
       (\<lambda>ok. Return (ok \<noteq> 0))"

definition release :: "guard \<Rightarrow> claim \<Rightarrow> bool io" where
  "release g c =
     bindP (ask get_int (RedisEval RELEASE_LUA (c_key c) (c_token c) None)) (\<lambda>n. Return (n \<noteq> 0))"

definition forget :: "guard \<Rightarrow> str \<Rightarrow> unit io" where
  "forget g event_id =
     seqP (ask get_int (RedisDelete (Keys_event_guard event_id))) (Return ())"

section \<open>The server's contract\<close>

text \<open>
  What the Redis documentation says of the commands the program sends: their reply and their
  effect on the string keys.  A script is one atomic command.
\<close>

fun redis_exec :: "keyspace \<Rightarrow> req \<Rightarrow> (resp \<times> keyspace) option" where
  "redis_exec m (RedisSet k v nx ex) =
     Some (if nx \<and> m k \<noteq> None then (RBool False, m) else (RBool True, m(k \<mapsto> (v, ex))))"
| "redis_exec m (RedisGet k) = Some (RStr (map_option fst (m k)), m)"
| "redis_exec m (RedisDelete k) = Some (RInt (if m k = None then 0 else 1), m(k := None))"
| "redis_exec m (RedisEval s k token ttl) =
     Some (case run_script (lua_body s k token ttl) m of (n, m') \<Rightarrow> (RInt n, m'))"
| "redis_exec m q = None"

text \<open>
  Services \<open>h\<close> include a Redis server whose string keys are \<open>ks w\<close>: before a command takes effect
  time may pass; the command replies and acts as documented, or the client sees an exception and
  the command was or was not carried out; requests to other systems leave the keys alone.
\<close>

definition redis_contract :: "'w services \<Rightarrow> ('w \<Rightarrow> keyspace) \<Rightarrow> bool" where
  "redis_contract h ks \<longleftrightarrow>
     (\<forall>w q. \<exists>m. elapse (ks w) m \<and>
        (case redis_exec m q of
           None \<Rightarrow> ks (snd (h w q)) = m
         | Some (r, m') \<Rightarrow>
             (fst (h w q) = r \<and> ks (snd (h w q)) = m')
             \<or> ((\<exists>e. fst (h w q) = RErr e) \<and> (ks (snd (h w q)) = m \<or> ks (snd (h w q)) = m'))))"

text \<open>What each command says and does, for a reply that is not an exception.\<close>

lemma redis_contractE:
  assumes "redis_contract h ks" and "\<And>m. redis_exec m q = Some (f m)"
    and "\<And>e. fst (h w q) \<noteq> RErr e"
  obtains m where "elapse (ks w) m" "fst (h w q) = fst (f m)" "ks (snd (h w q)) = snd (f m)"
proof -
  obtain m where m: "elapse (ks w) m" and
    c: "case f m of (r, m') \<Rightarrow>
          (fst (h w q) = r \<and> ks (snd (h w q)) = m')
          \<or> ((\<exists>e. fst (h w q) = RErr e) \<and> (ks (snd (h w q)) = m \<or> ks (snd (h w q)) = m'))"
    using assms(1) [unfolded redis_contract_def, rule_format, of w q] by (auto simp: assms(2))
  then have "fst (h w q) = fst (f m)" "ks (snd (h w q)) = snd (f m)"
    using assms(3) by (auto split: prod.splits)
  with m show thesis by (rule that)
qed

lemma contract_set:
  assumes "redis_contract h ks" and "answer get_bool (fst (h w (RedisSet k v nx ex))) = Inr b"
  shows "\<exists>m. elapse (ks w) m \<and> b = (\<not> (nx \<and> m k \<noteq> None))
     \<and> ks (snd (h w (RedisSet k v nx ex))) = (if b then m(k \<mapsto> (v, ex)) else m)"
proof -
  have "fst (h w (RedisSet k v nx ex)) = RBool b" using assms(2) by (simp add: answer_Inr)
  with assms(1) show ?thesis
    by (elim redis_contractE [where q = "RedisSet k v nx ex" and w = w]) (auto split: if_splits)
qed

lemma contract_get:
  assumes "redis_contract h ks" and "answer get_str (fst (h w (RedisGet k))) = Inr s"
  shows "elapse (ks w) (ks (snd (h w (RedisGet k))))
     \<and> s = map_option fst (ks (snd (h w (RedisGet k))) k)"
proof -
  have "fst (h w (RedisGet k)) = RStr s" using assms(2) by (simp add: answer_Inr)
  with assms(1) show ?thesis
    by (elim redis_contractE [where q = "RedisGet k" and w = w]) auto
qed

lemma contract_eval:
  assumes "redis_contract h ks" and "answer get_int (fst (h w (RedisEval s k tok ttl))) = Inr n"
  shows "\<exists>m. elapse (ks w) m
     \<and> run_script (lua_body s k tok ttl) m = (n, ks (snd (h w (RedisEval s k tok ttl))))"
proof -
  have "fst (h w (RedisEval s k tok ttl)) = RInt n" using assms(2) by (simp add: answer_Inr)
  with assms(1) show ?thesis
    by (elim redis_contractE [where q = "RedisEval s k tok ttl" and w = w])
      (auto split: prod.splits)
qed

lemma contract_other:
  assumes "redis_contract h ks" and "\<And>m. redis_exec m q = None"
  shows "elapse (ks w) (ks (snd (h w q)))"
  using assms(1) [unfolded redis_contract_def, rule_format, of w q] by (auto simp: assms(2))

section \<open>What the operations do to the key\<close>

text \<open>
  The state of the key that a finished claim reports, and that keys of other events are not
  touched.
\<close>

definition claim_post :: "guard \<Rightarrow> claim \<Rightarrow> keyspace \<Rightarrow> bool" where
  "claim_post g c m \<longleftrightarrow>
     (case c_status c of
        ACQUIRED \<Rightarrow> m (c_key c) = Some (c_token c, Some (g_lock_ttl g))
      | ALREADY_DONE \<Rightarrow> map_option fst (m (c_key c)) = Some DONE
      | IN_PROGRESS \<Rightarrow> map_option fst (m (c_key c)) \<noteq> Some DONE)"

lemma claim_key_status:
  assumes "redis_contract h ks" and "exec h (claim g ev) w = (Inr c, w')"
  shows "c_key c = Keys_event_guard ev \<and> claim_post g c (ks w')"
  using assms(2)
  by (auto simp: claim_def claim_verdict_def claim_post_def Let_def exec_simps
      split: sum.splits if_splits dest!: contract_set [OF assms(1)] contract_get [OF assms(1)])

lemma release_cas:
  assumes "redis_contract h ks" and "exec h (release g c) w = (Inr b, w')"
  shows "\<exists>m. elapse (ks w) m
     \<and> (b \<longleftrightarrow> map_option fst (m (c_key c)) = Some (c_token c))
     \<and> ks w' = (if b then m(c_key c := None) else m)"
  using assms(2)
  by (auto simp: release_def exec_simps split: sum.splits if_splits
      dest!: contract_eval [OF assms(1)])

lemma complete_cas:
  assumes "redis_contract h ks" and "exec h (complete g c) w = (Inr b, w')"
  shows "\<exists>m. elapse (ks w) m
     \<and> (b \<longleftrightarrow> map_option fst (m (c_key c)) = Some (c_token c))
     \<and> ks w' = (if b then m(c_key c \<mapsto> (DONE, Some (g_done_ttl g))) else m)"
  using assms(2)
  by (auto simp: complete_def exec_simps split: sum.splits if_splits
      dest!: contract_eval [OF assms(1)])

end
