(* ===== verification/Racing.thy ===== *)
theory Racing
  imports Idempotency
begin

text \<open>
  Workers that claim the same event at the same time.  Each worker runs \<open>IdempotencyGuard.claim\<close>;
  their requests reach one Redis server in any order, one command at a time.  The step relation
  also lets replies get lost, commands fail, and time pass for every key but the one in question.

  A worker's program is at one of the awaits of \<open>claim\<close>; \<open>stage\<close> names that point.  The invariant
  is that a worker which acquired the claim finds its own token under the key.
\<close>

section \<open>The points of a claim\<close>

datatype stage =
    Fresh
  | Set1 uuid
  | Get1 uuid
  | Set2 uuid
  | Get2 uuid
  | Claimed uuid claim_status
  | Failing exn

definition made :: "str \<Rightarrow> uuid \<Rightarrow> claim_status \<Rightarrow> claim" where
  "made k u s = \<lparr>c_status = s, c_key = k, c_token = uuid_hex u\<rparr>"

definition set_nx :: "guard \<Rightarrow> str \<Rightarrow> uuid \<Rightarrow> req" where
  "set_nx g k u = RedisSet k (uuid_hex u) True (Some (g_lock_ttl g))"

definition at_get2 :: "str \<Rightarrow> uuid \<Rightarrow> claim io" where
  "at_get2 k u = bindP (ask get_str (RedisGet k)) (claim_verdict k (uuid_hex u))"

definition at_set :: "guard \<Rightarrow> str \<Rightarrow> uuid \<Rightarrow> claim io \<Rightarrow> claim io" where
  "at_set g k u otherwise =
     bindP (ask get_bool (set_nx g k u)) (\<lambda>ok.
       if ok then Return (made k u ACQUIRED) else otherwise)"

definition at_get1 :: "guard \<Rightarrow> str \<Rightarrow> uuid \<Rightarrow> claim io" where
  "at_get1 g k u =
     bindP (ask get_str (RedisGet k)) (\<lambda>current.
       if current = None then at_set g k u (at_get2 k u)
       else claim_verdict k (uuid_hex u) current)"

lemmas at_defs = at_get1_def at_get2_def at_set_def

fun stage_prog :: "guard \<Rightarrow> str \<Rightarrow> stage \<Rightarrow> claim io" where
  "stage_prog g ev Fresh = claim g ev"
| "stage_prog g ev (Set1 u) =
     (let k = Keys_event_guard ev in at_set g k u (at_get1 g k u))"
| "stage_prog g ev (Get1 u) = at_get1 g (Keys_event_guard ev) u"
| "stage_prog g ev (Set2 u) =
     (let k = Keys_event_guard ev in at_set g k u (at_get2 k u))"
| "stage_prog g ev (Get2 u) = at_get2 (Keys_event_guard ev) u"
| "stage_prog g ev (Claimed u s) = Return (made (Keys_event_guard ev) u s)"
| "stage_prog g ev (Failing e) = Raise e"

fun stage_req :: "guard \<Rightarrow> str \<Rightarrow> stage \<Rightarrow> req option" where
  "stage_req g ev Fresh = Some Uuid4"
| "stage_req g ev (Set1 u) = Some (set_nx g (Keys_event_guard ev) u)"
| "stage_req g ev (Get1 u) = Some (RedisGet (Keys_event_guard ev))"
| "stage_req g ev (Set2 u) = Some (set_nx g (Keys_event_guard ev) u)"
| "stage_req g ev (Get2 u) = Some (RedisGet (Keys_event_guard ev))"
| "stage_req g ev _ = None"

definition verdict :: "str option \<Rightarrow> claim_status" where
  "verdict current = (if current = Some DONE then ALREADY_DONE else IN_PROGRESS)"

fun next_stage :: "stage \<Rightarrow> resp \<Rightarrow> stage" where
  "next_stage Fresh r = (case answer get_uuid r of Inl e \<Rightarrow> Failing e | Inr u \<Rightarrow> Set1 u)"
| "next_stage (Set1 u) r =
     (case answer get_bool r of Inl e \<Rightarrow> Failing e
      | Inr ok \<Rightarrow> if ok then Claimed u ACQUIRED else Get1 u)"
| "next_stage (Get1 u) r =
     (case answer get_str r of Inl e \<Rightarrow> Failing e
      | Inr cur \<Rightarrow> if cur = None then Set2 u else Claimed u (verdict cur))"
| "next_stage (Set2 u) r =
     (case answer get_bool r of Inl e \<Rightarrow> Failing e
      | Inr ok \<Rightarrow> if ok then Claimed u ACQUIRED else Get2 u)"
| "next_stage (Get2 u) r =
     (case answer get_str r of Inl e \<Rightarrow> Failing e | Inr cur \<Rightarrow> Claimed u (verdict cur))"
| "next_stage st r = st"

lemma claim_unfold: "claim g ev = bindP (ask get_uuid Uuid4) (\<lambda>u. stage_prog g ev (Set1 u))"
  by (simp add: claim_def Let_def made_def set_nx_def at_defs cong: if_cong)

lemma claim_verdict_made: "claim_verdict k (uuid_hex u) cur = Return (made k u (verdict cur))"
  by (simp add: claim_verdict_def made_def verdict_def)

text \<open>A worker that waits at a stage goes on at the next one.\<close>

lemma stage_Call:
  assumes "stage_prog g ev st = Call q k"
  shows "stage_req g ev st = Some q \<and> (\<forall>r. k r = stage_prog g ev (next_stage st r))"
  using assms
  by (cases st)
    (auto simp: claim_unfold at_defs bindP_ask Let_def claim_verdict_made split: sum.split)

fun stage_uuid :: "stage \<Rightarrow> uuid option" where
  "stage_uuid (Set1 u) = Some u"
| "stage_uuid (Get1 u) = Some u"
| "stage_uuid (Set2 u) = Some u"
| "stage_uuid (Get2 u) = Some u"
| "stage_uuid (Claimed u s) = Some u"
| "stage_uuid _ = None"

lemma stage_uuid_next:
  "st \<noteq> Fresh \<Longrightarrow> stage_uuid (next_stage st r) \<in> {None, stage_uuid st}"
  by (cases st) (auto split: sum.split)

section \<open>The pool of workers\<close>

record pool =
  keys :: keyspace
  procs :: "nat \<Rightarrow> claim io"
  used :: "uuid set"

inductive race_step :: "str \<Rightarrow> pool \<Rightarrow> pool \<Rightarrow> bool" for K :: str where
  command: "procs s i = Call q k \<Longrightarrow> redis_exec (keys s) q = Some (r, m) \<Longrightarrow>
     race_step K s (s\<lparr>keys := m, procs := (procs s)(i := k r)\<rparr>)"
| reply_lost: "procs s i = Call q k \<Longrightarrow> redis_exec (keys s) q = Some (r, m) \<Longrightarrow>
     race_step K s (s\<lparr>keys := m, procs := (procs s)(i := k (RErr e))\<rparr>)"
| refused: "procs s i = Call q k \<Longrightarrow>
     race_step K s (s\<lparr>procs := (procs s)(i := k (RErr e))\<rparr>)"
| token: "procs s i = Call Uuid4 k \<Longrightarrow> u \<notin> used s \<Longrightarrow>
     race_step K s (s\<lparr>procs := (procs s)(i := k (RUuid u)), used := insert u (used s)\<rparr>)"
| time: "elapse (keys s) m \<Longrightarrow> (keys s K \<noteq> None \<Longrightarrow> m K \<noteq> None) \<Longrightarrow>
     race_step K s (s\<lparr>keys := m\<rparr>)"

definition race_init :: "guard \<Rightarrow> str \<Rightarrow> pool \<Rightarrow> bool" where
  "race_init g ev s \<longleftrightarrow> (\<forall>i. procs s i = claim g ev)"

text \<open>Worker \<open>i\<close>'s claim has ended with the status \<open>ACQUIRED\<close>.\<close>

definition holds :: "pool \<Rightarrow> nat \<Rightarrow> bool" where
  "holds s i \<longleftrightarrow> (\<exists>c. procs s i = Return c \<and> acquired c)"

definition race_inv :: "guard \<Rightarrow> str \<Rightarrow> pool \<Rightarrow> bool" where
  "race_inv g ev s \<longleftrightarrow>
     (\<exists>st. (\<forall>i. procs s i = stage_prog g ev (st i))
        \<and> (\<forall>i u. stage_uuid (st i) = Some u \<longrightarrow> u \<in> used s)
        \<and> (\<forall>i j u. stage_uuid (st i) = Some u \<longrightarrow> stage_uuid (st j) = Some u \<longrightarrow> i = j)
        \<and> (\<forall>i u. st i = Claimed u ACQUIRED \<longrightarrow>
              map_option fst (keys s (Keys_event_guard ev)) = Some (uuid_hex u)))"

lemma uuid_hex_inject [simp]: "uuid_hex a = uuid_hex b \<longleftrightarrow> a = b"
  using uuid_text.enc_eq_iff [of a b] by (auto simp: uuid_str_def)

lemma race_inv_init: "race_init g ev s \<Longrightarrow> race_inv g ev s"
  unfolding race_init_def race_inv_def by (rule exI [of _ "\<lambda>_. Fresh"]) simp

text \<open>One command of a claim cannot take the key away from its holder.\<close>

lemma claim_command_keeps:
  assumes "stage_req g ev st = Some q" and "redis_exec m q = Some (r, m')"
    and "map_option fst (m (Keys_event_guard ev)) = Some tok"
  shows "map_option fst (m' (Keys_event_guard ev)) = Some tok"
  using assms by (cases st) (auto simp: set_nx_def split: if_splits)

text \<open>A claim that is acquired by a command leaves its token under the key.\<close>

lemma claim_command_acquires:
  assumes "stage_req g ev st = Some q" and "redis_exec m q = Some (r, m')"
    and "next_stage st r = Claimed u ACQUIRED"
  shows "map_option fst (m' (Keys_event_guard ev)) = Some (uuid_hex u)"
  using assms by (cases st) (auto simp: set_nx_def verdict_def split: if_splits)

lemma next_stage_RErr: "stage_req g ev st = Some q \<Longrightarrow> next_stage st (RErr e) = Failing e"
  by (cases st) auto

lemma redis_exec_Uuid4: "redis_exec m q = Some x \<Longrightarrow> stage_req g ev st = Some q \<Longrightarrow> st \<noteq> Fresh"
  by (cases st) auto

lemma race_inv_move:
  assumes st: "\<forall>i. procs s i = stage_prog g ev (st i)"
    "\<forall>i u. stage_uuid (st i) = Some u \<longrightarrow> u \<in> used s"
    "\<forall>i j u. stage_uuid (st i) = Some u \<longrightarrow> stage_uuid (st j) = Some u \<longrightarrow> i = j"
    "\<forall>i u. st i = Claimed u ACQUIRED \<longrightarrow>
       map_option fst (m (Keys_event_guard ev)) = Some (uuid_hex u)"
    and new: "p = stage_prog g ev st'"
    "\<And>u. stage_uuid st' = Some u \<Longrightarrow> stage_uuid (st i) = Some u \<or> (u \<in> U \<and> u \<notin> used s)"
    "\<And>u. st' = Claimed u ACQUIRED \<Longrightarrow> map_option fst (m (Keys_event_guard ev)) = Some (uuid_hex u)"
    and U: "used s \<subseteq> U"
  shows "race_inv g ev (s\<lparr>keys := m, procs := (procs s)(i := p), used := U\<rparr>)"
  unfolding race_inv_def
proof (intro exI [of _ "st(i := st')"] conjI allI impI)
  fix j u assume "stage_uuid ((st(i := st')) j) = Some u"
  then show "u \<in> used (s\<lparr>keys := m, procs := (procs s)(i := p), used := U\<rparr>)"
    using st(2) new(2) U by (auto split: if_splits)
next
  fix j l u
  assume "stage_uuid ((st(i := st')) j) = Some u" "stage_uuid ((st(i := st')) l) = Some u"
  then show "j = l" using st(2,3) new(2) by (auto split: if_splits)
qed (use st new in \<open>auto split: if_splits\<close>)

lemma race_inv_step:
  assumes "race_inv g ev s" and "race_step (Keys_event_guard ev) s s'"
  shows "race_inv g ev s'"
proof -
  let ?K = "Keys_event_guard ev"
  from assms(1) obtain st where
    st: "\<forall>i. procs s i = stage_prog g ev (st i)"
    "\<forall>i u. stage_uuid (st i) = Some u \<longrightarrow> u \<in> used s"
    "\<forall>i j u. stage_uuid (st i) = Some u \<longrightarrow> stage_uuid (st j) = Some u \<longrightarrow> i = j"
    and tok: "\<forall>i u. st i = Claimed u ACQUIRED \<longrightarrow> map_option fst (keys s ?K) = Some (uuid_hex u)"
    unfolding race_inv_def by blast
  have call: "stage_req g ev (st i) = Some q \<and> (\<forall>r. k r = stage_prog g ev (next_stage (st i) r))"
    if "procs s i = Call q k" for i q k
    using that st(1) by (intro stage_Call) simp
  have keeps: "\<forall>i u. st i = Claimed u ACQUIRED \<longrightarrow> map_option fst (m ?K) = Some (uuid_hex u)"
    if "procs s i = Call q k" "redis_exec (keys s) q = Some (r, m)" for i q k r m
    using claim_command_keeps [OF _ that(2)] call [OF that(1)] tok by blast
  have uuid: "stage_uuid (next_stage (st i) r) = Some u \<Longrightarrow> stage_uuid (st i) = Some u"
    if "st i \<noteq> Fresh" for i r u
    using stage_uuid_next [OF that, of r] by auto
  from assms(2) show ?thesis
  proof cases
    case (command i q k r m)
    note c = call [OF command(2)]
    have "race_inv g ev (s\<lparr>keys := m, procs := (procs s)(i := k r), used := used s\<rparr>)"
      by (rule race_inv_move [where st = st and m = m and st' = "next_stage (st i) r",
            OF st keeps [OF command(2,3)]])
        (use c redis_exec_Uuid4 [OF command(3)] uuid claim_command_acquires [OF _ command(3)] in auto)
    then show ?thesis using command(1) by simp
  next
    case (reply_lost i q k r m e)
    note c = call [OF reply_lost(2)]
    have "race_inv g ev (s\<lparr>keys := m, procs := (procs s)(i := k (RErr e)), used := used s\<rparr>)"
      by (rule race_inv_move [where st = st and m = m and st' = "Failing e",
            OF st keeps [OF reply_lost(2,3)]])
        (use c next_stage_RErr in auto)
    then show ?thesis using reply_lost(1) by simp
  next
    case (refused i q k e)
    note c = call [OF refused(2)]
    have "race_inv g ev (s\<lparr>keys := keys s, procs := (procs s)(i := k (RErr e)), used := used s\<rparr>)"
      by (rule race_inv_move [where st = st and m = "keys s" and st' = "Failing e", OF st tok]) (use c next_stage_RErr in auto)
    then show ?thesis using refused(1) by simp
  next
    case (token i k u)
    note c = call [OF token(2)]
    then have "st i = Fresh" by (cases "st i") (auto simp: set_nx_def)
    then have "race_inv g ev (s\<lparr>keys := keys s, procs := (procs s)(i := k (RUuid u)),
        used := insert u (used s)\<rparr>)"
      by (intro race_inv_move [where st = st and m = "keys s" and st' = "Set1 u", OF st tok]) (use c token(3) in auto)
    then show ?thesis using token(1) by simp
  next
    case (time m)
    have "map_option fst (m ?K) = Some (uuid_hex u)" if "st i = Claimed u ACQUIRED" for i u
      using tok that time(2,3) elapse_value [OF time(2), of ?K] by fastforce
    then show ?thesis
      unfolding race_inv_def time(1) using st by (intro exI [of _ st]) auto
  qed
qed

interpretation race: transition_system "race_init g ev" "race_step (Keys_event_guard ev)"
  "race_inv g ev" for g ev
  by unfold_locales (auto intro: race_inv_init race_inv_step)

lemma holds_stage:
  assumes "holds s i" and "procs s i = stage_prog g ev st"
  shows "\<exists>u. st = Claimed u ACQUIRED"
  using assms
  by (cases st)
    (auto simp: holds_def acquired_def made_def claim_unfold at_defs bindP_ask Let_def)

section \<open>Exactly one racer wins\<close>

text \<open>
  Whatever the order in which the commands of any number of racing workers reach Redis, and
  whichever commands fail or lose their reply, at most one worker's \<open>claim\<close> of an event ends with
  \<open>ACQUIRED\<close> as long as the lock does not expire in between.
\<close>

theorem racing_claims_exclusive:
  assumes "reachable (race_init g ev) (race_step (Keys_event_guard ev)) s"
    and "holds s i" and "holds s j"
  shows "i = j"
proof -
  from race.inv_reachable [OF assms(1)] obtain st where
    st: "\<forall>i. procs s i = stage_prog g ev (st i)"
    "\<forall>i j u. stage_uuid (st i) = Some u \<longrightarrow> stage_uuid (st j) = Some u \<longrightarrow> i = j"
    "\<forall>i u. st i = Claimed u ACQUIRED \<longrightarrow>
       map_option fst (keys s (Keys_event_guard ev)) = Some (uuid_hex u)"
    unfolding race_inv_def by blast
  obtain u v where "st i = Claimed u ACQUIRED" "st j = Claimed v ACQUIRED"
    using holds_stage assms(2,3) st(1) by metis
  moreover from this have "u = v" using st(3) by (metis option.inject uuid_hex_inject)
  ultimately show ?thesis using st(2) by force
qed

definition race_start :: pool where
  "race_start = \<lparr>keys = Map.empty,
     procs = (\<lambda>_. claim (IdempotencyGuard default_settings None None) (lit ''e1'')), used = {}\<rparr>"

lemma race_start_reaches_holder:
  "\<exists>s. reachable (race_init (IdempotencyGuard default_settings None None) (lit ''e1''))
         (race_step (Keys_event_guard (lit ''e1''))) s \<and> holds s 0"
proof -
  let ?g = "IdempotencyGuard default_settings None None" and ?ev = "lit ''e1''"
  let ?K = "Keys_event_guard ?ev"
  let ?s1 = "race_start\<lparr>procs := (procs race_start)(0 := stage_prog ?g ?ev (Set1 0)), used := {0}\<rparr>"
  let ?s2 = "?s1\<lparr>keys := [?K \<mapsto> (uuid_hex 0, Some (g_lock_ttl ?g))],
      procs := (procs ?s1)(0 := Return (made ?K 0 ACQUIRED))\<rparr>"
  have "reachable (race_init ?g ?ev) (race_step ?K) race_start"
    by (rule reachable.start) (simp add: race_init_def race_start_def)
  moreover have "race_step ?K race_start ?s1"
    using race_step.token [of race_start 0 _ 0 ?K]
    by (simp add: race_start_def claim_unfold bindP_ask)
  moreover have "race_step ?K ?s1 ?s2"
    using race_step.command [of ?s1 0 "set_nx ?g ?K 0" _ "RBool True"
        "[?K \<mapsto> (uuid_hex 0, Some (g_lock_ttl ?g))]" ?K]
    by (simp add: race_start_def at_set_def bindP_ask set_nx_def Let_def)
  ultimately have "reachable (race_init ?g ?ev) (race_step ?K) ?s2"
    by (blast intro: reachable.step)
  moreover have "holds ?s2 0" by (simp add: holds_def made_def acquired_def)
  ultimately show ?thesis by blast
qed

theorem racing_claims_exclusive_witness:
  "\<exists>s. reachable (race_init (IdempotencyGuard default_settings None None) (lit ''e1''))
         (race_step (Keys_event_guard (lit ''e1''))) s \<and> holds s 0 \<and> \<not> holds s 1"
  using race_start_reaches_holder racing_claims_exclusive [where i = 0 and j = 1] by force

end
