(* ===== verification/Cache.thy ===== *)
theory Cache
  imports RedisClient
begin

text \<open>
  Cache-aside for order reads (\<open>app/cache.py\<close>).  Redis failures are swallowed on every path but
  one, the removal of an unreadable entry.
\<close>

definition serialize :: "libs \<Rightarrow> order \<Rightarrow> str" where
  "serialize L order = dump_order_out L (order_out_of order)"

definition cache_get_order :: "libs \<Rightarrow> str \<Rightarrow> order_out option io" where
  "cache_get_order L order_id =
     bindP
       (try_except is_Exception
         (bindP (ask get_str (RedisGet (Keys_order order_id))) (\<lambda>raw. Return (Some raw)))
         (\<lambda>_. Return None))
       (\<lambda>got. case got of
          None \<Rightarrow> Return None
        | Some None \<Rightarrow> seqP (incr_stat STAT_CACHE_MISSES 1) (Return None)
        | Some (Some raw) \<Rightarrow>
            seqP (incr_stat STAT_CACHE_HITS 1)
              (case load_order_out L raw of
                 Some out \<Rightarrow> Return (Some out)
               | None \<Rightarrow> seqP (ask get_int (RedisDelete (Keys_order order_id))) (Return None)))"

definition put_order :: "ctx \<Rightarrow> order \<Rightarrow> unit io" where
  "put_order C order =
     best_effort get_bool
       (RedisSet (Keys_order (uuid_str (o_id order))) (serialize (lib C) order)
          False (Some (cache_ttl_seconds (cfg C))))"

definition invalidate_order :: "str \<Rightarrow> unit io" where
  "invalidate_order order_id = best_effort get_int (RedisDelete (Keys_order order_id))"

end
