(* ===== verification/Headers.thy ===== *)
theory Headers
  imports Effects
begin

text \<open>
  Retry and routing metadata in Kafka record headers (\<open>app/kafka/headers.py\<close>): building the list
  of headers, and reading it back from whatever list a record carries.  The lemmas are the round
  trip and the defaults for missing or malformed headers.
\<close>

definition ATTEMPT :: str where "ATTEMPT = lit ''x-attempt''"
definition NOT_BEFORE :: str where "NOT_BEFORE = lit ''x-not-before''"
definition ERROR :: str where "ERROR = lit ''x-error''"
definition ORIGIN_TOPIC :: str where "ORIGIN_TOPIC = lit ''x-origin-topic''"
definition FAILED_AT :: str where "FAILED_AT = lit ''x-failed-at''"

lemmas header_names = ATTEMPT_def NOT_BEFORE_def ERROR_def ORIGIN_TOPIC_def FAILED_AT_def

definition build :: "libs \<Rightarrow> int \<Rightarrow> rat option \<Rightarrow> str option \<Rightarrow> str option \<Rightarrow> kheaders io" where
  "build L attempt not_before error origin_topic =
     (let headers =
        [(ATTEMPT, Some (utf8_encode (str_int attempt)))]
        @ (case not_before of None \<Rightarrow> []
           | Some x \<Rightarrow> [(NOT_BEFORE, Some (utf8_encode (repr_float L x)))])
        @ (case error of None \<Rightarrow> []
           | Some e \<Rightarrow> [(ERROR, Some (utf8_encode (take 500 e)))])
      in case origin_topic of
          None \<Rightarrow> Return headers
        | Some topic \<Rightarrow>
            bindP (ask get_time UtcNow) (\<lambda>now.
              Return (headers @
                [(ORIGIN_TOPIC, Some (utf8_encode topic)),
                 (FAILED_AT, Some (utf8_encode (isoformat L now)))])))"

text \<open>The dict comprehension: of two headers with one name the later wins.\<close>

definition header_text :: "bytes option \<Rightarrow> str" where
  "header_text v = (case v of Some b \<Rightarrow> utf8_decode b | None \<Rightarrow> [])"

definition to_dict :: "kheaders \<Rightarrow> (str \<rightharpoonup> str)" where
  "to_dict hs = fold (\<lambda>(k, v) d. d(k \<mapsto> header_text v)) hs Map.empty"

definition get_attempt :: "kheaders \<Rightarrow> int" where
  "get_attempt hs =
     (case to_dict hs ATTEMPT of
        None \<Rightarrow> 1
      | Some raw \<Rightarrow>
          if raw = [] then 1
          else (case py_int raw of Some n \<Rightarrow> max 1 n | None \<Rightarrow> 1))"

definition get_not_before :: "libs \<Rightarrow> kheaders \<Rightarrow> pyfloat" where
  "get_not_before L hs =
     (case to_dict hs NOT_BEFORE of
        None \<Rightarrow> Finite 0
      | Some raw \<Rightarrow>
          if raw = [] then Finite 0
          else (case parse_float L raw of Some x \<Rightarrow> x | None \<Rightarrow> Finite 0))"

definition get_error :: "kheaders \<Rightarrow> str option" where
  "get_error hs = to_dict hs ERROR"

definition get_origin_topic :: "kheaders \<Rightarrow> str option" where
  "get_origin_topic hs = to_dict hs ORIGIN_TOPIC"

section \<open>Lemmas\<close>

lemma header_names_distinct [simp]:
  "ATTEMPT \<noteq> NOT_BEFORE" "ATTEMPT \<noteq> ERROR" "ATTEMPT \<noteq> ORIGIN_TOPIC" "ATTEMPT \<noteq> FAILED_AT"
  "NOT_BEFORE \<noteq> ATTEMPT" "NOT_BEFORE \<noteq> ERROR" "NOT_BEFORE \<noteq> ORIGIN_TOPIC" "NOT_BEFORE \<noteq> FAILED_AT"
  "ERROR \<noteq> ATTEMPT" "ERROR \<noteq> NOT_BEFORE" "ERROR \<noteq> ORIGIN_TOPIC" "ERROR \<noteq> FAILED_AT"
  "ORIGIN_TOPIC \<noteq> ATTEMPT" "ORIGIN_TOPIC \<noteq> NOT_BEFORE" "ORIGIN_TOPIC \<noteq> ERROR"
  "ORIGIN_TOPIC \<noteq> FAILED_AT"
  by (simp_all add: header_names)

lemma to_dict_append [simp]:
  "to_dict [] = Map.empty"
  "to_dict (hs @ [(k, v)]) = (to_dict hs)(k \<mapsto> header_text v)"
  by (simp_all add: to_dict_def)

lemma to_dict_Cons_simps:
  "to_dict [(a, x)] = [a \<mapsto> header_text x]"
  "to_dict [(a, x), (b, y)] = [a \<mapsto> header_text x, b \<mapsto> header_text y]"
  "to_dict [(a, x), (b, y), (c, z)] = [a \<mapsto> header_text x, b \<mapsto> header_text y, c \<mapsto> header_text z]"
  by (simp_all add: to_dict_def)

definition text_ok :: "str option \<Rightarrow> bool" where
  "text_ok s \<longleftrightarrow> (case s of None \<Rightarrow> True | Some x \<Rightarrow> \<forall>c \<in> set x. scalar c)"

lemma text_ok_decode: "text_ok (Some s) \<Longrightarrow> utf8_decode (utf8_encode s) = s"
  by (simp add: text_ok_def utf8_decode_encode)

lemma text_ok_take: "text_ok (Some s) \<Longrightarrow> text_ok (Some (take n s))"
  by (auto simp: text_ok_def dest: in_set_takeD)

lemma str_int_text_ok: "text_ok (Some (str_int n))"
proof -
  have "c < 128" if "c \<in> set (str_int n)" for c
    using that nat_str_digits by (force simp: str_int_def split: if_splits)
  then show ?thesis by (force simp: text_ok_def scalar_def surrogate_def)
qed

lemma str_int_neq_Nil [simp]: "str_int n \<noteq> []"
  by (simp add: str_int_def)

text \<open>The dictionary a reader gets from built headers, header by header.\<close>

lemma build_dict:
  "always (build L a nb err org) (\<lambda>t v. \<forall>hs. v = Inr hs \<longrightarrow>
     to_dict hs ATTEMPT = Some (utf8_decode (utf8_encode (str_int a)))
     \<and> to_dict hs NOT_BEFORE = map_option (\<lambda>x. utf8_decode (utf8_encode (repr_float L x))) nb
     \<and> to_dict hs ERROR = map_option (\<lambda>e. utf8_decode (utf8_encode (take 500 e))) err
     \<and> to_dict hs ORIGIN_TOPIC = map_option (\<lambda>x. utf8_decode (utf8_encode x)) org)"
  by (cases nb; cases err; cases org)
    (auto simp: build_def Let_def prog_simps to_dict_def header_text_def split: sum.splits)

lemma build_dictD:
  assumes "conv (build L a nb err org) t (Inr hs)"
  shows "to_dict hs ATTEMPT = Some (utf8_decode (utf8_encode (str_int a)))"
    and "to_dict hs NOT_BEFORE = map_option (\<lambda>x. utf8_decode (utf8_encode (repr_float L x))) nb"
    and "to_dict hs ERROR = map_option (\<lambda>e. utf8_decode (utf8_encode (take 500 e))) err"
    and "to_dict hs ORIGIN_TOPIC = map_option (\<lambda>x. utf8_decode (utf8_encode x)) org"
  using assms build_dict [of L a nb err org] by (auto simp: always_conv)

text \<open>
  A reader of built headers gets back the attempt number, the first 500 code points of the error,
  the origin topic and the time before which the record is held.
\<close>

lemma build_attempt:
  assumes "1 \<le> a" and "digits_ok a"
    and "conv (build L a nb err org) t (Inr hs)"
  shows "get_attempt hs = a"
  using assms build_dictD(1) [OF assms(3)] py_int_str_int [of a]
  by (simp add: get_attempt_def text_ok_decode [OF str_int_text_ok])

lemma build_error:
  assumes "text_ok err" and "conv (build L a nb err org) t (Inr hs)"
  shows "get_error hs = map_option (take 500) err"
  using assms build_dictD(3) [OF assms(2)]
  by (cases err) (auto simp: get_error_def text_ok_decode text_ok_take)

lemma build_origin_topic:
  assumes "text_ok org" and "conv (build L a nb err org) t (Inr hs)"
  shows "get_origin_topic hs = org"
  using assms build_dictD(4) [OF assms(2)]
  by (cases org) (auto simp: get_origin_topic_def text_ok_decode)

lemma build_not_before:
  assumes "text_ok (map_option (repr_float L) nb)"
    and "\<And>x. nb = Some x \<Longrightarrow> repr_float L x \<noteq> [] \<and> parse_float L (repr_float L x) = Some (Finite x)"
    and "conv (build L a nb err org) t (Inr hs)"
  shows "get_not_before L hs = Finite (case nb of None \<Rightarrow> 0 | Some x \<Rightarrow> x)"
  using assms build_dictD(2) [OF assms(3)]
  by (cases nb) (auto simp: get_not_before_def text_ok_decode)

lemma get_attempt_digits_ok: "digits_ok (get_attempt hs)"
proof -
  have 1: "digits_ok 1" by (simp add: digits_ok_def nat_str.simps)
  have "digits_ok (max 1 n)" if "digits_ok n" for n using 1 that by (simp add: max_def)
  then show ?thesis
    using 1 py_int_digits_ok by (auto simp: get_attempt_def split: option.split)
qed

lemma get_attempt_ge_1: "1 \<le> get_attempt hs"
  by (simp add: get_attempt_def split: option.split)

end
