(* ===== verification/Producer.thy ===== *)
theory Producer
  imports Headers
begin

text \<open>
  The process-wide Kafka producer (\<open>app/kafka/producer.py\<close>) and the creation of the topics
  (\<open>app/kafka/admin.py\<close>).
\<close>

section \<open>Producer\<close>

text \<open>\<open>start_producer\<close> and \<open>stop_producer\<close> return whether \<open>_producer\<close> is set afterwards.\<close>

definition start_producer :: "settings \<Rightarrow> bool \<Rightarrow> bool io" where
  "start_producer s running =
     (if \<not> running then seqP (ask get_unit (ProducerStart (bootstrap_list s))) (Return True)
      else Return running)"

definition get_producer :: "ctx \<Rightarrow> unit io" where
  "get_producer C =
     (if \<not> producer C then Raise (RuntimeError (lit ''producer not started'')) else Return ())"

definition stop_producer :: "bool \<Rightarrow> bool io" where
  "stop_producer running =
     (if running then seqP (ask get_unit ProducerStop) (Return False) else Return running)"

definition producer_ping :: "ctx \<Rightarrow> bool io" where
  "producer_ping C =
     try_except is_Exception
       (seqP (get_producer C) (seqP (ask get_unit FetchMetadata) (Return True)))
       (\<lambda>_. Return False)"

definition publish_event ::
  "ctx \<Rightarrow> order_event \<Rightarrow> str option \<Rightarrow> int \<Rightarrow> rat option \<Rightarrow> str option \<Rightarrow> str option \<Rightarrow> unit io" where
  "publish_event C event topic att not_before error origin_topic =
     seqP (get_producer C)
       (bindP (build (lib C) att not_before error origin_topic) (\<lambda>headers.
          ask get_unit
            (KafkaSend
               (case topic of Some t \<Rightarrow> if t = [] then topic_orders (cfg C) else t
                | None \<Rightarrow> topic_orders (cfg C))
               (Some (uuid_str (ev_order_id event)))
               (dump_event (lib C) event)
               headers)))"

definition publish_raw :: "ctx \<Rightarrow> str \<Rightarrow> str option \<Rightarrow> json \<Rightarrow> kheaders \<Rightarrow> unit io" where
  "publish_raw C topic key val headers =
     seqP (get_producer C) (ask get_unit (KafkaSend topic key val headers))"

section \<open>Topics\<close>

definition WEEK_MS :: str where
  "WEEK_MS = str_int (7 * 24 * 60 * 60 * 1000)"

definition desired_topics :: "settings \<Rightarrow> new_topic list" where
  "desired_topics s =
     [\<lparr>nt_name = topic_orders s, nt_num_partitions = topic_partitions s,
       nt_replication_factor = topic_replication_factor s, nt_retention_ms = WEEK_MS\<rparr>,
      \<lparr>nt_name = topic_retry s, nt_num_partitions = topic_partitions s,
       nt_replication_factor = topic_replication_factor s, nt_retention_ms = WEEK_MS\<rparr>,
      \<lparr>nt_name = topic_dlq s, nt_num_partitions = 1,
       nt_replication_factor = topic_replication_factor s,
       nt_retention_ms = str_int (30 * 24 * 60 * 60 * 1000)\<rparr>]"

text \<open>The exceptions that make \<open>ensure_topics\<close> try again.\<close>

fun broker_away :: "exn \<Rightarrow> bool" where
  "broker_away (KafkaConnectionError _) = True"
| "broker_away (OSError _) = True"
| "broker_away _ = False"

fun already_exists :: "exn \<Rightarrow> bool" where
  "already_exists TopicAlreadyExistsError = True"
| "already_exists _ = False"

definition create_missing :: "settings \<Rightarrow> unit io" where
  "create_missing s =
     seqP (ask get_unit (AdminStart (bootstrap_list s)))
       (bindP (ask get_names ListTopics) (\<lambda>existing.
          let missing = filter (\<lambda>t. nt_name t \<notin> set existing) (desired_topics s) in
          if missing \<noteq> [] then
            try_except already_exists (ask get_unit (CreateTopics missing)) (\<lambda>_. Return ())
          else Return ()))"

text \<open>
  One pass of the loop: \<open>None\<close> when the topics are there, the exception when the broker was away.  The
  client is closed in any case, and an \<open>Exception\<close> while closing it is ignored.
\<close>

definition ensure_attempt :: "settings \<Rightarrow> rat \<Rightarrow> exn option io" where
  "ensure_attempt s delay =
     try_finally
       (try_except broker_away
         (seqP (create_missing s) (Return None))
         (\<lambda>e. seqP (ask get_unit (Sleep delay)) (Return (Some e))))
       (try_except is_Exception (ask get_unit AdminClose) (\<lambda>_. Return ()))"

text \<open>The text of \<open>last_error\<close> in the final message.\<close>

fun last_error_text :: "exn option \<Rightarrow> str" where
  "last_error_text (Some (KafkaConnectionError msg)) = msg"
| "last_error_text (Some (OSError msg)) = msg"
| "last_error_text _ = lit ''None''"

fun ensure_loop :: "settings \<Rightarrow> rat \<Rightarrow> exn option \<Rightarrow> nat \<Rightarrow> unit io" where
  "ensure_loop s delay last_error 0 =
     Raise (RuntimeError (lit ''could not reach Kafka to create topics: '' @ last_error_text last_error))"
| "ensure_loop s delay last_error (Suc n) =
     bindP (ensure_attempt s delay) (\<lambda>away.
       case away of None \<Rightarrow> Return () | Some e \<Rightarrow> ensure_loop s delay (Some e) n)"

definition ensure_topics :: "settings \<Rightarrow> nat \<Rightarrow> rat \<Rightarrow> unit io" where
  "ensure_topics s retries delay = ensure_loop s delay None retries"

end
