(* ===== verification/Database.thy ===== *)
theory Database
  imports Effects
begin

text \<open>
  The database side: the transaction boundary (\<open>app/db.py\<close>) and the data access functions
  (\<open>app/repository.py\<close>).

  A session is named by the number its opening returns.  A flush sends the row the session holds,
  with the column defaults of \<open>app/models.py\<close> (\<open>utcnow\<close> for the timestamps, 0 attempts) filled in
  as SQLAlchemy does when it emits the statement.  The lemmas: a scope commits exactly on a normal
  exit, and the audit trail of an order stays a chain that ends in its status.
\<close>

section \<open>Sessions\<close>

definition session_scope :: "(nat \<Rightarrow> 'a io) \<Rightarrow> 'a io" where
  "session_scope body =
     bindP (ask get_sid DbOpen) (\<lambda>s.
       try_finally
         (try_except is_Exception
           (bindP (body s) (\<lambda>x. seqP (ask get_unit (DbCommit s)) (Return x)))
           (\<lambda>e. seqP (ask get_unit (DbRollback s)) (Raise e)))
         (ask get_unit (DbClose s)))"

text \<open>The FastAPI dependency: the handler runs inside the scope.\<close>

definition get_session :: "(nat \<Rightarrow> 'a io) \<Rightarrow> 'a io" where
  "get_session handler = session_scope handler"

definition create_schema :: "unit io" where
  "create_schema = ask get_unit DbCreateAll"

definition db_ping :: "bool io" where
  "db_ping =
     try_except is_Exception
       (seqP
         (bindP (ask get_sid DbOpen) (\<lambda>s.
            try_finally (ask get_unit (DbSelectOne s)) (ask get_unit (DbClose s))))
         (Return True))
       (\<lambda>_. Return False)"

definition dispose :: "unit io" where
  "dispose = ask get_unit DbDispose"

text \<open>
  A scope that ends normally committed after its body and before it returned; a scope that ends
  with an exception returned no commit, unless closing the session failed after it.
\<close>

definition ok_resp :: "resp \<Rightarrow> bool" where
  "ok_resp r \<longleftrightarrow> (\<forall>e. r \<noteq> RErr e)"

lemma answer_unit_ok: "answer get_unit r = Inr u \<longleftrightarrow> ok_resp r"
  by (simp add: answer_Inr ok_resp_def)

lemma always_session_scope:
  assumes "\<And>s. always (body s) (P s)"
    and "\<And>s t x rc rx. P s t (Inr x) \<Longrightarrow> ok_resp rc \<Longrightarrow> ok_resp rx \<Longrightarrow>
      Q ((DbOpen, RSid s) # t @ [(DbCommit s, rc), (DbClose s, rx)]) (Inr x)"
    and "\<And>t e. Q t (Inl e)"
  shows "always (session_scope body) Q"
  unfolding session_scope_def always_bindP always_ask
proof (rule allI)
  fix r
  show "case answer get_sid r of
      Inl e \<Rightarrow> Q [(DbOpen, r)] (Inl e)
    | Inr s \<Rightarrow> always (try_finally (try_except is_Exception
          (bindP (body s) (\<lambda>x. seqP (ask get_unit (DbCommit s)) (Return x)))
          (\<lambda>e. seqP (ask get_unit (DbRollback s)) (Raise e)))
        (ask get_unit (DbClose s))) (\<lambda>t v. Q ([(DbOpen, r)] @ t) v)"
  proof (cases "answer get_sid r")
    case (Inl e)
    then show ?thesis using assms(3) by simp
  next
    case (Inr s)
    then have r: "r = RSid s" by (simp add: answer_Inr)
    show ?thesis
      unfolding Inr sum.case always_try_finally always_try_except always_bindP
      by (rule always_mono [OF assms(1) [of s]])
        (auto simp: prog_simps r answer_unit_ok assms(3) intro: assms(2) split: sum.splits)
  qed
qed

lemma returns_session_scope:
  assumes "\<And>s. returns (body s) (P s)"
  shows "returns (session_scope body) (\<lambda>t x. \<exists>s t' rc rx.
     t = (DbOpen, RSid s) # t' @ [(DbCommit s, rc), (DbClose s, rx)] \<and> ok_resp rc \<and> ok_resp rx \<and> P s t' x)"
  unfolding returns_def
  by (rule always_session_scope [where P = "\<lambda>s t v. \<forall>x. v = Inr x \<longrightarrow> P s t x"])
    (use assms in \<open>auto simp: returns_def\<close>)

lemma only_session_scope:
  assumes "\<phi> DbOpen" and "\<And>s. \<phi> (DbCommit s) \<and> \<phi> (DbRollback s) \<and> \<phi> (DbClose s)"
    and "\<And>s. only \<phi> (body s)"
  shows "only \<phi> (session_scope body)"
  unfolding session_scope_def using assms
  by (intro only_bindP only_try_finally only_try_except only_seqP) auto

section \<open>Repository\<close>

definition utcnow :: "datetime io" where
  "utcnow = ask get_time UtcNow"

definition create_order :: "nat \<Rightarrow> order_create \<Rightarrow> order io" where
  "create_order session payload =
     bindP (ask get_uuid Uuid4) (\<lambda>oid.
     bindP utcnow (\<lambda>created.
     bindP utcnow (\<lambda>updated.
     bindP utcnow (\<lambda>accepted.
     let order = \<lparr>
       o_id = oid,
       o_customer_id = oc_customer_id payload,
       o_sku = oc_sku payload,
       o_quantity = oc_quantity payload,
       o_amount_cents = oc_amount_cents payload,
       o_status = PENDING,
       o_attempts = 0,
       o_failure_reason = None,
       o_fail_mode = oc_fail_mode payload,
       o_created_at = created,
       o_updated_at = updated,
       o_transitions =
         [\<lparr>st_from_status = None, st_to_status = PENDING,
           st_note = Some (lit ''order accepted''), st_created_at = accepted\<rparr>]\<rparr>
     in seqP (ask get_unit (DbFlush session (SaveOrder order))) (Return order)))))"

definition get_order :: "nat \<Rightarrow> uuid \<Rightarrow> order option io" where
  "get_order session order_id = ask get_row (DbGet session order_id)"

definition list_orders :: "nat \<Rightarrow> order_status option \<Rightarrow> int \<Rightarrow> int \<Rightarrow> order list io" where
  "list_orders session status limit offset =
     ask get_rows (DbSelectOrders session status limit offset)"

text \<open>
  \<open>transition\<close> takes what \<open>get_order\<close> returned: for \<open>None\<close> the first statement raises.  The
  \<open>updated_at\<close> column is set only when the row is updated, that is when some column changed.
\<close>

definition transition ::
  "nat \<Rightarrow> order option \<Rightarrow> order_status \<Rightarrow> str option \<Rightarrow> int option \<Rightarrow> str option \<Rightarrow> order io" where
  "transition session row to_status note attempts failure_reason =
     (case row of
        None \<Rightarrow> Raise (AttributeError (lit ''status''))
      | Some order \<Rightarrow>
          let attempts1 = (case attempts of Some n \<Rightarrow> n | None \<Rightarrow> o_attempts order);
              order1 = order\<lparr>o_status := to_status, o_attempts := attempts1,
                o_failure_reason := failure_reason\<rparr>;
              unchanged = (o_status order = to_status \<and> o_attempts order = attempts1
                \<and> o_failure_reason order = failure_reason)
          in bindP (if unchanged then Return (o_updated_at order) else utcnow) (\<lambda>updated.
             bindP utcnow (\<lambda>created.
             let order2 = order1\<lparr>
                   o_updated_at := updated,
                   o_transitions := o_transitions order @
                     [\<lparr>st_from_status = Some (o_status order), st_to_status = to_status,
                       st_note = note, st_created_at = created\<rparr>]\<rparr>
             in seqP (ask get_unit (DbFlush session (SaveOrder order2))) (Return order2))))"

definition record_dead_letter ::
  "nat \<Rightarrow> uuid option \<Rightarrow> json \<Rightarrow> str \<Rightarrow> int \<Rightarrow> int \<Rightarrow> int \<Rightarrow> str option \<Rightarrow> json \<Rightarrow> dead_letter io" where
  "record_dead_letter session order_id event_id source_topic part offset attempts error payload =
     bindP utcnow (\<lambda>created.
       let entry = \<lparr>
         dl_order_id = order_id,
         dl_event_id = event_id,
         dl_source_topic = source_topic,
         dl_partition = part,
         dl_offset = offset,
         dl_attempts = attempts,
         dl_error = error,
         dl_payload = payload,
         dl_created_at = created\<rparr>
       in seqP (ask get_unit (DbFlush session (SaveDeadLetter entry))) (Return entry))"

definition list_dead_letters :: "nat \<Rightarrow> int \<Rightarrow> int \<Rightarrow> (int \<times> dead_letter) list io" where
  "list_dead_letters session limit offset = ask get_dead (DbSelectDeadLetters session limit offset)"

definition count_by_status :: "nat \<Rightarrow> (order_status \<times> int) list io" where
  "count_by_status session = ask get_counts (DbCountByStatus session)"

section \<open>What is durable\<close>

text \<open>A request of the conversation was answered, and not with an exception.\<close>

definition acked :: "trace \<Rightarrow> req \<Rightarrow> bool" where
  "acked t q \<longleftrightarrow> (\<exists>r. (q, r) \<in> set t \<and> ok_resp r)"

lemma acked_simps [simp]:
  "\<not> acked [] q" "acked (a @ b) q \<longleftrightarrow> acked a q \<or> acked b q"
  "acked ((q', r) # t) q \<longleftrightarrow> (q' = q \<and> ok_resp r) \<or> acked t q"
  by (auto simp: acked_def)

text \<open>A row was flushed and its session committed afterwards, both with success.\<close>

definition durable :: "trace \<Rightarrow> change \<Rightarrow> bool" where
  "durable t row \<longleftrightarrow>
     (\<exists>s t1 t2. t = t1 @ t2 \<and> acked t1 (DbFlush s row) \<and> acked t2 (DbCommit s))"

lemma durable_append: "durable a row \<Longrightarrow> durable (a @ b) row" "durable b row \<Longrightarrow> durable (a @ b) row"
  unfolding durable_def
  by (metis acked_simps(2) append_assoc)+

text \<open>A flush that the commit of its session follows at once.\<close>

lemma durable_adjacent:
  assumes "Suc n < length t" and "t ! n = (DbFlush s row, RUnit)" and "t ! Suc n = (DbCommit s, RUnit)"
  shows "durable t row"
proof -
  have "take (Suc n) t = take n t @ [(DbFlush s row, RUnit)]" and "drop (Suc n) t = (DbCommit s, RUnit) # drop (Suc (Suc n)) t"
    using take_Suc_conv_app_nth [of n t] Cons_nth_drop_Suc [of "Suc n" t] assms by simp_all
  then have "acked (take (Suc n) t) (DbFlush s row)" "acked (drop (Suc n) t) (DbCommit s)"
    by (simp_all add: ok_resp_def)
  then show ?thesis unfolding durable_def by (metis append_take_drop_id)
qed

lemma durable_scope:
  assumes "acked t (DbFlush s row)" and "ok_resp rc"
  shows "durable ((DbOpen, RSid s) # t @ [(DbCommit s, rc), (DbClose s, rx)]) row"
  unfolding durable_def using assms
  by (intro exI [of _ s] exI [of _ "(DbOpen, RSid s) # t"] exI [of _ "[(DbCommit s, rc), (DbClose s, rx)]"])
    simp

text \<open>A transition that returns has flushed the row it returns, moved to the status asked for.\<close>

lemma returns_transition:
  "returns (transition s row to note att why) (\<lambda>t o'.
     acked t (DbFlush s (SaveOrder o')) \<and> o_status o' = to
     \<and> (\<exists>old. row = Some old \<and> o_id o' = o_id old))"
  by (auto simp: returns_def transition_def utcnow_def prog_simps Let_def answer_unit_ok
      split: sum.splits option.splits)

section \<open>The audit trail\<close>

primrec chain_from :: "order_status option \<Rightarrow> status_transition list \<Rightarrow> bool" where
  "chain_from p [] \<longleftrightarrow> True"
| "chain_from p (t # ts) \<longleftrightarrow> st_from_status t = p \<and> chain_from (Some (st_to_status t)) ts"

text \<open>
  The trail starts with the acceptance, each hop leaves from where the last one arrived, and the
  last one arrived at the order's status.
\<close>

definition audit_ok :: "order \<Rightarrow> bool" where
  "audit_ok o' \<longleftrightarrow>
     o_transitions o' \<noteq> [] \<and> chain_from None (o_transitions o')
     \<and> st_to_status (last (o_transitions o')) = o_status o'"

lemma chain_from_snoc:
  "chain_from p (ts @ [t]) \<longleftrightarrow>
     chain_from p ts \<and> st_from_status t = (if ts = [] then p else Some (st_to_status (last ts)))"
  by (induction ts arbitrary: p) auto

definition flushed :: "trace \<Rightarrow> order set" where
  "flushed t = {o'. \<exists>s r. (DbFlush s (SaveOrder o'), r) \<in> set t}"

lemma flushed_simps [simp]:
  "flushed [] = {}"
  "flushed (a @ b) = flushed a \<union> flushed b"
  "flushed ((q, r) # t) = (case q of DbFlush s (SaveOrder o') \<Rightarrow> insert o' (flushed t) | _ \<Rightarrow> flushed t)"
  by (auto simp: flushed_def split: req.splits change.splits)

lemma create_order_audit:
  "always (create_order s p) (\<lambda>t v. (\<forall>o' \<in> flushed t. audit_ok o') \<and> (\<forall>o'. v = Inr o' \<longrightarrow> audit_ok o'))"
  by (simp add: create_order_def utcnow_def prog_simps audit_ok_def Let_def split: sum.splits)

lemma transition_audit:
  assumes "\<And>o'. row = Some o' \<Longrightarrow> audit_ok o'"
  shows "always (transition s row to note att why)
     (\<lambda>t v. (\<forall>o' \<in> flushed t. audit_ok o') \<and> (\<forall>o'. v = Inr o' \<longrightarrow> audit_ok o' \<and> o_status o' = to))"
  using assms
  by (auto simp: transition_def utcnow_def prog_simps audit_ok_def Let_def chain_from_snoc
      split: sum.splits option.splits)

text \<open>
  \<open>keeps I p\<close>: when every row the database hands out satisfies \<open>I\<close>, so does every row that \<open>p\<close> writes.
  The rules follow the statements of a program.
\<close>

definition rows_ok :: "(order \<Rightarrow> bool) \<Rightarrow> trace \<Rightarrow> bool" where
  "rows_ok I t \<longleftrightarrow> (\<forall>s i o'. (DbGet s i, ROrder (Some o')) \<in> set t \<longrightarrow> I o')"

lemma rows_ok_append [simp]: "rows_ok I (a @ b) \<longleftrightarrow> rows_ok I a \<and> rows_ok I b"
  by (auto simp: rows_ok_def)

lemma rows_ok_Cons [simp]:
  "rows_ok I [] \<longleftrightarrow> True"
  "rows_ok I ((q, r) # t) \<longleftrightarrow>
     (case q of DbGet s i \<Rightarrow> (case r of ROrder (Some o') \<Rightarrow> I o' | _ \<Rightarrow> True) | _ \<Rightarrow> True) \<and> rows_ok I t"
  by (auto simp: rows_ok_def split: req.splits resp.splits option.splits)

definition keeps :: "(order \<Rightarrow> bool) \<Rightarrow> 'a io \<Rightarrow> bool" where
  "keeps I p \<longleftrightarrow> (\<forall>t v. conv p t v \<longrightarrow> rows_ok I t \<longrightarrow> (\<forall>o' \<in> flushed t. I o'))"

lemma keepsD:
  "keeps I p \<Longrightarrow> conv p t v \<Longrightarrow> rows_ok I t \<Longrightarrow> o' \<in> flushed t \<Longrightarrow> I o'"
  by (auto simp: keeps_def)

lemma keepsI:
  "(\<And>t v o'. conv p t v \<Longrightarrow> rows_ok I t \<Longrightarrow> o' \<in> flushed t \<Longrightarrow> I o') \<Longrightarrow> keeps I p"
  by (auto simp: keeps_def)

lemma keeps_Return [intro!]: "keeps I (Return x)" "keeps I (Raise e)"
  by (auto simp: keeps_def)

lemma keeps_only:
  assumes "only (\<lambda>q. \<forall>s o'. q \<noteq> DbFlush s (SaveOrder o')) p"
  shows "keeps I p"
  using only_conv [OF assms] by (fastforce simp: keeps_def flushed_def)

lemma keeps_bindP:
  assumes p: "keeps I p" and f: "\<And>x. keeps I (f x)"
  shows "keeps I (bindP p f)"
proof (rule keepsI)
  fix t v o'
  assume c: "conv (bindP p f) t v" and rows: "rows_ok I t" and o': "o' \<in> flushed t"
  from c [unfolded conv_bindP] show "I o'"
  proof (elim disjE exE conjE)
    fix t1 x t2
    assume "t = t1 @ t2" "conv p t1 (Inr x)" "conv (f x) t2 v"
    then show ?thesis
      using rows o' keepsD [OF p, of t1 "Inr x" o'] keepsD [OF f, of x t2 v o'] by auto
  next
    fix e
    assume "conv p t (Inl e)"
    then show ?thesis using keepsD [OF p] rows o' by blast
  qed
qed

lemma keeps_seqP:
  "keeps I p \<Longrightarrow> keeps I q \<Longrightarrow> keeps I (seqP p q)"
  unfolding seqP_def by (rule keeps_bindP)

lemma keeps_outcome: "keeps I p \<Longrightarrow> keeps I (outcome p)"
  unfolding keeps_def conv_outcome by blast

lemma keeps_try_except:
  "keeps I p \<Longrightarrow> (\<And>e. keeps I (f e)) \<Longrightarrow> keeps I (try_except C p f)"
  unfolding try_except_def
  by (auto intro!: keeps_bindP keeps_outcome split: sum.split)

lemma keeps_try_finally:
  "keeps I p \<Longrightarrow> keeps I f \<Longrightarrow> keeps I (try_finally p f)"
  unfolding try_finally_def
  by (auto intro!: keeps_bindP keeps_seqP keeps_outcome split: sum.split)

lemmas keeps_rules =
  keeps_bindP keeps_seqP keeps_try_except keeps_try_finally

lemma keeps_session_scope: "(\<And>s. keeps I (body s)) \<Longrightarrow> keeps I (session_scope body)"
  unfolding session_scope_def
  by (intro keeps_rules) (auto intro: keeps_only)

lemma keeps_get_order:
  assumes "\<And>row. (\<And>o'. row = Some o' \<Longrightarrow> I o') \<Longrightarrow> keeps I (f row)"
  shows "keeps I (bindP (get_order s i) f)"
proof (rule keepsI)
  fix t v o'
  assume "conv (bindP (get_order s i) f) t v" and rows: "rows_ok I t" and flushed: "o' \<in> flushed t"
  then obtain r t' where t: "t = (DbGet s i, r) # t'"
    and v: "case answer get_row r of Inl e \<Rightarrow> t' = [] \<and> v = Inl e | Inr x \<Rightarrow> conv (f x) t' v"
    by (auto simp: get_order_def conv_bindP_ask)
  have ok: "rows_ok I ((DbGet s i, r) # t')" and o': "o' \<in> flushed t'" using t rows flushed by auto
  show "I o'"
  proof (cases "answer get_row r")
    case (Inl e)
    then show ?thesis using v o' by simp
  next
    case (Inr row)
    then have "I old" if "row = Some old" for old
      using ok that by (auto simp: rows_ok_def answer_Inr)
    then show ?thesis
      using assms [of row] v Inr ok o' by (auto simp: rows_ok_def intro: keepsD)
  qed
qed

text \<open>
  An invariant of the rows that a transition preserves, whatever it sets, as long as the attempt number it
  sets satisfies \<open>A\<close>.
\<close>

locale row_invariant =
  fixes I :: "order \<Rightarrow> bool" and A :: "int \<Rightarrow> bool"
  assumes moved: "I old \<Longrightarrow> (\<And>n. att = Some n \<Longrightarrow> A n) \<Longrightarrow>
    always (transition s (Some old) to note att why) (\<lambda>t v. \<forall>o' \<in> flushed t. I o')"
begin

lemma keeps_transition:
  "(\<And>o'. row = Some o' \<Longrightarrow> I o') \<Longrightarrow> (\<And>n. att = Some n \<Longrightarrow> A n) \<Longrightarrow> keeps I (transition s row to note att why)"
proof (cases row)
  case None
  then show ?thesis by (simp add: transition_def keeps_Return)
next
  case (Some old)
  assume "\<And>o'. row = Some o' \<Longrightarrow> I o'" "\<And>n. att = Some n \<Longrightarrow> A n"
  then show ?thesis using moved [of old att s to "note" why] Some unfolding keeps_def always_conv by blast
qed

end

interpretation audit: row_invariant audit_ok "\<lambda>_. True"
proof
  fix old att s to msg why
  assume "audit_ok old"
  then show "always (transition s (Some old) to msg att why) (\<lambda>t v. \<forall>o' \<in> flushed t. audit_ok o')"
    using transition_audit [of "Some old" s to msg att why] by (auto elim: always_mono)
qed

lemma keeps_create: "keeps audit_ok (create_order s p)"
  using create_order_audit [of s p] by (auto simp: keeps_def always_conv)

end
