(* ===== verification/Processing.thy ===== *)
theory Processing
  imports Effects
begin

text \<open>
  The work of the consumer (\<open>app/processing.py\<close>): business validation, fulfilment, and the delay
  before a retry.
\<close>

definition UNKNOWN_SKU_PREFIX :: str where
  "UNKNOWN_SKU_PREFIX = lit ''BAD-''"

definition MAX_ORDER_VALUE_CENTS :: int where
  "MAX_ORDER_VALUE_CENTS = 100000000"

definition starts_with :: "str \<Rightarrow> str \<Rightarrow> bool" where
  "starts_with s p \<longleftrightarrow> take (length p) s = p"

text \<open>The exception \<open>validate\<close> raises, if any.\<close>

definition validate :: "libs \<Rightarrow> order_event \<Rightarrow> exn option" where
  "validate L event =
     (if ev_quantity event \<le> 0 then
        Some (PermanentError (lit ''quantity must be positive, got '' @ str_int (ev_quantity event)))
      else if ev_amount_cents event < 0 then
        Some (PermanentError (lit ''amount cannot be negative, got '' @ str_int (ev_amount_cents event)))
      else if MAX_ORDER_VALUE_CENTS < ev_amount_cents event then
        Some (PermanentError (lit ''order exceeds the maximum permitted value''))
      else if starts_with (upper L (ev_sku event)) UNKNOWN_SKU_PREFIX then
        Some (PermanentError (lit ''unknown SKU '' @ repr_str L (ev_sku event)))
      else if ev_fail_mode event = Some PERMANENT then
        Some (PermanentError (lit ''simulated permanent failure (fail_mode=permanent)''))
      else None)"

definition sleep :: "rat \<Rightarrow> unit io" where
  "sleep secs = ask get_unit (Sleep secs)"

definition fulfil :: "ctx \<Rightarrow> order_event \<Rightarrow> unit io" where
  "fulfil C event =
     (case validate (lib C) event of
        Some e \<Rightarrow> Raise e
      | None \<Rightarrow>
          seqP
            (if processing_delay_seconds (cfg C) \<noteq> 0
             then sleep (processing_delay_seconds (cfg C)) else Return ())
            (if ev_fail_mode event = Some TRANSIENT
             then Raise (TransientError (lit ''simulated downstream timeout (fail_mode=transient)''))
             else Return ()))"

text \<open>
  \<open>min(max_delay, base * 2 ** max(0, attempt - 1))\<close>.  A power beyond the range of a float makes the
  product raise.
\<close>

definition backoff_ceiling :: "settings \<Rightarrow> int \<Rightarrow> rat" where
  "backoff_ceiling s att =
     min (retry_max_delay_seconds s)
       (retry_base_delay_seconds s * 2 ^ nat (max 0 (att - 1)))"

definition backoff_delay :: "settings \<Rightarrow> int \<Rightarrow> rat io" where
  "backoff_delay s att =
     (if 1024 \<le> max 0 (att - 1)
      then Raise (OverflowError (lit ''int too large to convert to float''))
      else bindP (ask get_float (Uniform (retry_base_delay_seconds s / 2) (backoff_ceiling s att)))
             (\<lambda>x. Return (round3 x)))"

end
