(* ===== verification/ConsumeLoop.thy ===== *)
theory ConsumeLoop
  imports Database Processing
begin

text \<open>
  The consume loop that the three consumers share (\<open>BaseConsumer\<close> in \<open>app/kafka/consumers.py\<close>).

  \<open>BaseConsumer._build\<close> is \<open>build_consumer\<close>.  \<open>BaseConsumer.run\<close> is \<open>consumer_run\<close>; it takes the subclass's \<open>handle\<close> as an argument.  The
  \<open>while\<close> loop has no bound of its own, so it takes fuel: the number of polls.  The result is
  \<open>True\<close> when the loop was stopped and \<open>False\<close> when the polls ran out.

  The locale \<open>record_handler\<close> is the contract between the loop and a handler: a handler leaves the
  consumer to the loop, it neither polls nor moves offsets.  Under it, an offset is committed only directly after the handler of that
  record returned \<open>COMMIT\<close>, and the commits of a batch are those of an initial part of it.
\<close>

section \<open>The consume loop\<close>

datatype ack = COMMIT | REDELIVER

definition safe_handle :: "(consumer_record \<Rightarrow> ack io) \<Rightarrow> consumer_record \<Rightarrow> ack io" where
  "safe_handle handle r =
     try_except is_Exception (handle r) (\<lambda>_. seqP (sleep 1) (Return REDELIVER))"

text \<open>The records of one partition; \<open>True\<close> means the loop is asked to stop.\<close>

fun handle_records ::
  "(consumer_record \<Rightarrow> ack io) \<Rightarrow> topic_partition \<Rightarrow> consumer_record list \<Rightarrow> bool io" where
  "handle_records handle tp [] = Return False"
| "handle_records handle tp (r # rs) =
     bindP (ask get_bool IsStopping) (\<lambda>stopping.
       if stopping then Return True
       else bindP (safe_handle handle r) (\<lambda>a.
         if a = REDELIVER
         then seqP (ask get_unit (Seek tp (r_offset r))) (Return False)
         else seqP (ask get_unit (CommitOffset tp (r_offset r + 1))) (handle_records handle tp rs)))"

fun handle_batch ::
  "(consumer_record \<Rightarrow> ack io) \<Rightarrow> (topic_partition \<times> consumer_record list) list \<Rightarrow> bool io" where
  "handle_batch handle [] = Return False"
| "handle_batch handle ((tp, rs) # batch) =
     bindP (handle_records handle tp rs) (\<lambda>stopping.
       if stopping then Return True else handle_batch handle batch)"

fun poll_loop :: "(consumer_record \<Rightarrow> ack io) \<Rightarrow> nat \<Rightarrow> bool io" where
  "poll_loop handle 0 = Return False"
| "poll_loop handle (Suc polls) =
     bindP (ask get_bool IsStopping) (\<lambda>stopping.
       if stopping then Return True
       else bindP (ask get_batch GetMany) (\<lambda>batch.
            bindP (handle_batch handle batch) (\<lambda>stopping.
              if stopping then Return True else poll_loop handle polls)))"

text \<open>\<open>BaseConsumer._build\<close>.\<close>

definition build_consumer :: "settings \<Rightarrow> str \<Rightarrow> str \<Rightarrow> consumer_options" where
  "build_consumer s topic group_id = \<lparr>
     co_topic = topic,
     co_bootstrap_servers = bootstrap_list s,
     co_group_id = group_id,
     co_enable_auto_commit = False,
     co_auto_offset_reset = lit ''earliest'',
     co_max_poll_records = 20,
     co_session_timeout_ms = 30000,
     co_heartbeat_interval_ms = 3000\<rparr>"

definition consumer_run :: "consumer_options \<Rightarrow> (consumer_record \<Rightarrow> ack io) \<Rightarrow> nat \<Rightarrow> bool io" where
  "consumer_run opts handle polls =
     seqP (ask get_unit (ConsumerStart opts))
       (try_finally (poll_loop handle polls) (ask get_unit ConsumerStop))"

text \<open>One poll with one record that the handler settles.\<close>

lemma conv_run_one:
  assumes "conv (handle r) t (Inr COMMIT)"
  shows "conv (consumer_run opts handle 1)
     ([(ConsumerStart opts, RUnit), (IsStopping, RBool False), (GetMany, RBatch [(tp, [r])]),
       (IsStopping, RBool False)] @ t @ [(CommitOffset tp (r_offset r + 1), RUnit), (ConsumerStop, RUnit)])
     (Inr False)"
proof -
  have safe: "conv (safe_handle handle r) t (Inr COMMIT)"
    using assms by (auto simp: safe_handle_def conv_try_except)
  let ?commit = "(CommitOffset tp (r_offset r + 1), RUnit)"
  have "conv (bindP (ask get_bool IsStopping) (\<lambda>stopping. if stopping then Return True
      else bindP (safe_handle handle r) (\<lambda>a. if a = REDELIVER
         then seqP (ask get_unit (Seek tp (r_offset r))) (Return False)
         else seqP (ask get_unit (CommitOffset tp (r_offset r + 1))) (handle_records handle tp []))))
      ([(IsStopping, RBool False)] @ t @ [?commit] @ []) (Inr False)"
    by (rule conv_bindPI [where x = False], rule conv_askI)
      (auto simp: conv_seqP conv_ask intro!: conv_bindPI [OF safe])
  then have records: "conv (handle_records handle tp [r]) ((IsStopping, RBool False) # t @ [?commit]) (Inr False)"
    by simp
  have "conv (handle_batch handle [(tp, [r])]) (((IsStopping, RBool False) # t @ [?commit]) @ []) (Inr False)"
    unfolding handle_batch.simps by (rule conv_bindPI [OF records]) simp
  then have batch: "conv (handle_batch handle [(tp, [r])]) ((IsStopping, RBool False) # t @ [?commit]) (Inr False)"
    by (simp only: append_Nil2)
  have "conv (poll_loop handle (Suc 0))
     ([(IsStopping, RBool False)] @ [(GetMany, RBatch [(tp, [r])])]
       @ ((IsStopping, RBool False) # t @ [?commit]) @ []) (Inr False)"
    unfolding poll_loop.simps
    by (rule conv_bindPI [where x = False], rule conv_askI, simp,
        simp only: if_False, rule conv_bindPI [where x = "[(tp, [r])]"], rule conv_askI, simp)
      (rule conv_bindPI [OF batch], simp)
  then have "conv (consumer_run opts handle (Suc 0)) ([(ConsumerStart opts, RUnit)] @
     ([(IsStopping, RBool False)] @ [(GetMany, RBatch [(tp, [r])])]
       @ ((IsStopping, RBool False) # t @ [?commit]) @ []) @ [(ConsumerStop, RUnit)]) (Inr False)"
    unfolding consumer_run_def by (intro conv_seqPI conv_try_finallyI conv_askI) auto
  then show ?thesis by simp
qed

lemma conv_run_commit:
  assumes "conv (handle r) t (Inr COMMIT)"
  shows "\<exists>t1 t3. conv (consumer_run opts handle 1)
     (t1 @ (CommitOffset tp (r_offset r + 1), RUnit) # t3) (Inr False)"
  using conv_run_one [of handle r t opts tp] assms by (metis append_Cons append_assoc)

section \<open>Offsets\<close>

fun is_offset :: "req \<Rightarrow> bool" where
  "is_offset (CommitOffset _ _) = True"
| "is_offset (Seek _ _) = True"
| "is_offset _ = False"

text \<open>The requests that belong to the loop.\<close>

fun is_loop_req :: "req \<Rightarrow> bool" where
  "is_loop_req (CommitOffset _ _) = True"
| "is_loop_req (Seek _ _) = True"
| "is_loop_req IsStopping = True"
| "is_loop_req GetMany = True"
| "is_loop_req (ConsumerStart _) = True"
| "is_loop_req ConsumerStop = True"
| "is_loop_req _ = False"

lemma is_offset_loop_req: "is_offset q \<Longrightarrow> is_loop_req q"
  by (cases q) auto

definition offset_reqs :: "trace \<Rightarrow> req list" where
  "offset_reqs t = filter is_offset (map fst t)"

lemma offset_reqs_simps [simp]:
  "offset_reqs [] = []"
  "offset_reqs (a @ b) = offset_reqs a @ offset_reqs b"
  "offset_reqs ((q, r) # t) = (if is_offset q then q # offset_reqs t else offset_reqs t)"
  by (simp_all add: offset_reqs_def)

text \<open>
  The offset requests a batch of one partition can lead to: commits record by record from the
  front, and at most one rewind, to the first record that was not committed.
\<close>

fun progress :: "topic_partition \<Rightarrow> consumer_record list \<Rightarrow> req list \<Rightarrow> bool" where
  "progress tp [] qs \<longleftrightarrow> qs = []"
| "progress tp (r # rs) qs \<longleftrightarrow>
     qs = [] \<or> qs = [Seek tp (r_offset r)]
     \<or> (\<exists>qs'. qs = CommitOffset tp (r_offset r + 1) # qs' \<and> progress tp rs qs')"

lemma progress_Nil [simp]: "progress tp rs []"
  by (cases rs) auto

text \<open>
  Every commit in a conversation directly follows a complete run of the handler, for the record
  just before the committed offset, that returned \<open>COMMIT\<close>.  \<open>B\<close> says which records of which
  partition may be handled after a given conversation.
\<close>

definition commits_acked ::
  "(trace \<Rightarrow> topic_partition \<Rightarrow> consumer_record \<Rightarrow> bool) \<Rightarrow> (consumer_record \<Rightarrow> ack io) \<Rightarrow> trace \<Rightarrow> bool"
where
  "commits_acked B handle t \<longleftrightarrow>
     (\<forall>t1 tp off x t3. t = t1 @ (CommitOffset tp off, x) # t3 \<longrightarrow>
        (\<exists>ta t2 r. t1 = ta @ t2 \<and> off = r_offset r + 1 \<and> conv (handle r) t2 (Inr COMMIT) \<and> B ta tp r))"

lemma commits_acked_none: "offset_reqs t = [] \<Longrightarrow> commits_acked B handle t"
  by (auto simp: commits_acked_def)

lemma commits_acked_seek: "commits_acked B handle [(Seek tp off, x)]"
  by (auto simp: commits_acked_def Cons_eq_append_conv)

lemma commits_acked_mono:
  assumes "commits_acked B handle t" and "\<And>ta tp r. B ta tp r \<Longrightarrow> B' ta tp r"
  shows "commits_acked B' handle t"
  unfolding commits_acked_def
proof (intro allI impI)
  fix t1 tp off x t3
  assume "t = t1 @ (CommitOffset tp off, x) # t3"
  with assms(1) obtain ta t2 r where "t1 = ta @ t2" "off = r_offset r + 1"
    "conv (handle r) t2 (Inr COMMIT)" "B ta tp r"
    unfolding commits_acked_def by blast
  with assms(2) show "\<exists>ta t2 r. t1 = ta @ t2 \<and> off = r_offset r + 1
      \<and> conv (handle r) t2 (Inr COMMIT) \<and> B' ta tp r"
    by blast
qed

lemma commits_acked_append:
  assumes "commits_acked B handle a" and "commits_acked (\<lambda>ta. B (a @ ta)) handle b"
  shows "commits_acked B handle (a @ b)"
  unfolding commits_acked_def
proof (intro allI impI)
  fix t1 tp off x t3
  assume "a @ b = t1 @ (CommitOffset tp off, x) # t3"
  then obtain ws where "a = t1 @ ws \<and> ws @ b = (CommitOffset tp off, x) # t3
      \<or> a @ ws = t1 \<and> b = ws @ (CommitOffset tp off, x) # t3"
    unfolding append_eq_append_conv2 by blast
  then consider us where "a = t1 @ (CommitOffset tp off, x) # us"
    | us where "t1 = a @ us" "b = us @ (CommitOffset tp off, x) # t3"
    by (cases ws) auto
  then show "\<exists>ta t2 r. t1 = ta @ t2 \<and> off = r_offset r + 1 \<and> conv (handle r) t2 (Inr COMMIT) \<and> B ta tp r"
  proof cases
    case 1
    then show ?thesis using assms(1) unfolding commits_acked_def by blast
  next
    case 2
    then obtain ta t2 r where "us = ta @ t2" "off = r_offset r + 1"
      "conv (handle r) t2 (Inr COMMIT)" "B (a @ ta) tp r"
      using assms(2) unfolding commits_acked_def by blast
    then show ?thesis using 2(1) by (metis append_assoc)
  qed
qed

lemma commits_acked_commit:
  assumes none: "offset_reqs t2 = []" and acked: "conv (handle r) t2 (Inr COMMIT)" and "B [] tp r"
  shows "commits_acked B handle (t2 @ [(CommitOffset tp (r_offset r + 1), x)])"
  unfolding commits_acked_def
proof (intro allI impI)
  fix t1 tp' off y t3
  assume eq: "t2 @ [(CommitOffset tp (r_offset r + 1), x)] = t1 @ (CommitOffset tp' off, y) # t3"
  have "t3 = []"
  proof (rule ccontr)
    assume "t3 \<noteq> []"
    then obtain us z where "t3 = us @ [z]" by (metis rev_exhaust)
    then have "t2 = t1 @ (CommitOffset tp' off, y) # us" using eq by simp
    then show False using none by simp
  qed
  then have "t1 = t2" "tp' = tp" "off = r_offset r + 1" using eq by auto
  then show "\<exists>ta t2 r. t1 = ta @ t2 \<and> off = r_offset r + 1 \<and> conv (handle r) t2 (Inr COMMIT) \<and> B ta tp' r"
    using acked assms(3) by (metis append_Nil)
qed

text \<open>A record was in a batch that some poll returned.\<close>

definition polled :: "trace \<Rightarrow> topic_partition \<Rightarrow> consumer_record \<Rightarrow> bool" where
  "polled t tp r \<longleftrightarrow> (\<exists>b rs. (GetMany, RBatch b) \<in> set t \<and> (tp, rs) \<in> set b \<and> r \<in> set rs)"

lemma polled_append: "polled b tp r \<Longrightarrow> polled (a @ b) tp r" "polled a tp r \<Longrightarrow> polled (a @ b) tp r"
  by (auto simp: polled_def)

section \<open>Handlers\<close>

text \<open>The loop's verdict is the handler's: \<open>COMMIT\<close> comes only from a handler that returned it.\<close>

lemma safe_handle_commit:
  assumes "conv (safe_handle handle r) t (Inr COMMIT)"
  shows "conv (handle r) t (Inr COMMIT)"
  using assms by (auto simp: safe_handle_def conv_simps)

lemma safe_handle_only:
  "only \<phi> (handle r) \<Longrightarrow> \<phi> (Sleep 1) \<Longrightarrow> only \<phi> (safe_handle handle r)"
  unfolding safe_handle_def sleep_def by auto

text \<open>
  The loop was asked to stop during a conversation; a part of the loop that was asked to stop does
  nothing afterwards and reports it.
\<close>

definition stop_seen :: "trace \<Rightarrow> bool" where
  "stop_seen t \<longleftrightarrow> (IsStopping, RBool True) \<in> set t"

lemma stop_seen_simps [simp]:
  "\<not> stop_seen []" "stop_seen (a @ b) \<longleftrightarrow> stop_seen a \<or> stop_seen b"
  "stop_seen (x # t) \<longleftrightarrow> x = (IsStopping, RBool True) \<or> stop_seen t"
  by (auto simp: stop_seen_def)

definition stop_ok :: "trace \<Rightarrow> exn + bool \<Rightarrow> bool" where
  "stop_ok t v \<longleftrightarrow>
     (if v = Inr True then \<exists>t1. t = t1 @ [(IsStopping, RBool True)] \<and> \<not> stop_seen t1
      else \<not> stop_seen t)"

lemma stop_ok_append: "\<not> stop_seen a \<Longrightarrow> stop_ok b v \<Longrightarrow> stop_ok (a @ b) v"
  unfolding stop_ok_def by (metis append_assoc stop_seen_simps(2))

lemma stop_ok_False: "stop_ok t (Inr False) \<longleftrightarrow> \<not> stop_seen t"
  by (simp add: stop_ok_def)

lemma stop_ok_continue: "stop_ok a (Inr False) \<Longrightarrow> stop_ok b v \<Longrightarrow> stop_ok (a @ b) v"
  by (simp add: stop_ok_False stop_ok_append)

lemma stop_ok_Inl: "stop_ok t (Inl e) \<longleftrightarrow> \<not> stop_seen t"
  by (simp add: stop_ok_def)

lemma answer_bool_eq:
  "Inr b = answer get_bool r \<longleftrightarrow> r = RBool b" "Inl e = answer get_bool r \<longleftrightarrow> answer get_bool r = Inl e"
  by (auto simp: answer_Inr dest: sym)

text \<open>The fuel counts polls: a run that is not stopped and does not fail has polled that often.\<close>

definition polls_of :: "trace \<Rightarrow> nat" where
  "polls_of t = length (filter (\<lambda>x. fst x = GetMany) t)"

lemma polls_of_simps [simp]:
  "polls_of [] = 0" "polls_of (a @ b) = polls_of a + polls_of b"
  "polls_of ((q, r) # t) = (if q = GetMany then Suc (polls_of t) else polls_of t)"
  by (auto simp: polls_of_def)

locale record_handler =
  fixes handle :: "consumer_record \<Rightarrow> ack io"
  assumes leaves_consumer: "only (\<lambda>q. \<not> is_loop_req q) (handle r)"
begin

lemma safe_leaves_consumer: "only (\<lambda>q. \<not> is_loop_req q) (safe_handle handle r)"
  by (rule safe_handle_only) (simp_all add: leaves_consumer)

lemma safe_no_offsets: "conv (safe_handle handle r) t v \<Longrightarrow> offset_reqs t = []"
  using only_conv [OF safe_leaves_consumer]
  by (fastforce simp: offset_reqs_def filter_empty_conv dest: is_offset_loop_req)

lemma safe_no_stop: "conv (safe_handle handle r) t v \<Longrightarrow> \<not> stop_seen t"
  using only_conv [OF safe_leaves_consumer] by (fastforce simp: stop_seen_def)

lemma records_progress:
  "conv (handle_records handle tp rs) t v \<Longrightarrow> progress tp rs (offset_reqs t)"
proof (induction rs arbitrary: t)
  case Nil
  then show ?case by simp
next
  case (Cons r rs)
  then show ?case
    by (auto simp: conv_simps conv_ask conv_if dest!: safe_no_offsets)
qed

text \<open>The ways a run of \<open>handle_records\<close> on a non-empty list can go.\<close>

lemma records_cases:
  assumes "conv (handle_records handle tp (r # rs)) t v"
  obtains (asked) x where "t = [(IsStopping, x)]" and "answer get_bool x = Inr True" and "v = Inr True"
    | (unanswered) x e where "t = [(IsStopping, x)]" and "answer get_bool x = Inl e" and "v = Inl e"
    | (failed) t2 e where "t = (IsStopping, RBool False) # t2"
        and "conv (safe_handle handle r) t2 (Inl e)" and "v = Inl e"
    | (rewound) t2 x where "t = (IsStopping, RBool False) # t2 @ [(Seek tp (r_offset r), x)]"
        and "conv (safe_handle handle r) t2 (Inr REDELIVER)" and "v \<noteq> Inr True"
    | (commit_failed) t2 x where
        "t = (IsStopping, RBool False) # t2 @ [(CommitOffset tp (r_offset r + 1), x)]"
        and "conv (safe_handle handle r) t2 (Inr COMMIT)" and "v \<noteq> Inr True"
    | (committed) t2 x t3 where
        "t = (IsStopping, RBool False) # t2 @ (CommitOffset tp (r_offset r + 1), x) # t3"
        and "conv (safe_handle handle r) t2 (Inr COMMIT)" and "conv (handle_records handle tp rs) t3 v"
proof -
  have bools: "(Inr b = answer get_bool x) = (x = RBool b)" for x b
    using answer_Inr(2) [of x b] by auto
  from assms consider x where "t = [(IsStopping, x)]" "v = answer get_bool x" "x = RBool True \<or> isl v"
    | t1 where "t = (IsStopping, RBool False) # t1"
        "conv (bindP (safe_handle handle r) (\<lambda>a. if a = REDELIVER
           then seqP (ask get_unit (Seek tp (r_offset r))) (Return False)
           else seqP (ask get_unit (CommitOffset tp (r_offset r + 1))) (handle_records handle tp rs))) t1 v"
    unfolding handle_records.simps conv_bindP [of "ask get_bool IsStopping"] conv_ask
    by (elim disjE exE conjE) (auto simp: bools conv_if, metis sum.disc(1))
  then show thesis
  proof cases
    case (1 x)
    then show thesis by (cases "answer get_bool x") (auto simp: answer_Inr(2) intro: asked unanswered)
  next
    case (2 t1)
    from 2(2) show thesis
      unfolding conv_bindP [of "safe_handle handle r"]
    proof (elim disjE exE conjE)
      fix e assume "v = Inl e" "conv (safe_handle handle r) t1 (Inl e)"
      then show thesis using 2(1) failed by blast
    next
      fix t2 a t3
      assume t1: "t1 = t2 @ t3" and h: "conv (safe_handle handle r) t2 (Inr a)"
        and rest: "conv (if a = REDELIVER
           then seqP (ask get_unit (Seek tp (r_offset r))) (Return False)
           else seqP (ask get_unit (CommitOffset tp (r_offset r + 1))) (handle_records handle tp rs)) t3 v"
      show thesis
      proof (cases a)
        case REDELIVER
        with rest obtain x where "t3 = [(Seek tp (r_offset r), x)]" "v \<noteq> Inr True"
          by (auto simp: conv_seqP conv_ask)
        then show thesis using rewound [of t2 x] 2(1) t1 h REDELIVER by simp
      next
        case COMMIT
        with rest consider x where "t3 = [(CommitOffset tp (r_offset r + 1), x)]" "v \<noteq> Inr True"
          | x t4 where "t3 = (CommitOffset tp (r_offset r + 1), x) # t4"
              "conv (handle_records handle tp rs) t4 v"
          by (auto simp: conv_seqP conv_ask)
        then show thesis
          by cases (use commit_failed [of t2] committed [of t2] 2(1) t1 h COMMIT in auto)
      qed
    qed
  qed
qed

lemma records_commits:
  "conv (handle_records handle tp rs) t v \<Longrightarrow> commits_acked (\<lambda>_ tp' r. tp' = tp \<and> r \<in> set rs) handle t"
proof (induction rs arbitrary: t)
  case Nil
  then show ?case by (simp add: commits_acked_none)
next
  case (Cons r rs)
  let ?B = "\<lambda>_ :: trace. \<lambda>tp' r'. tp' = tp \<and> r' \<in> set (r # rs)"
  have commit: "commits_acked ?B handle ([(IsStopping, RBool False)] @ (t2 @ [(CommitOffset tp (r_offset r + 1), x)]) @ t3)"
    if "conv (safe_handle handle r) t2 (Inr COMMIT)" and "commits_acked ?B handle t3" for t2 x t3
    using safe_handle_commit [OF that(1)] safe_no_offsets [OF that(1)] that(2)
    by (intro commits_acked_append commits_acked_commit) (auto intro: commits_acked_none)
  from Cons.prems show ?case
  proof (cases rule: records_cases)
    case (rewound t2 x)
    then have "commits_acked ?B handle (((IsStopping, RBool False) # t2) @ [(Seek tp (r_offset r), x)])"
      by (intro commits_acked_append commits_acked_seek) (auto intro!: commits_acked_none dest: safe_no_offsets)
    then show ?thesis using rewound by simp
  next
    case (commit_failed t2 x)
    then show ?thesis using commit [of t2 "[]" x] by (simp add: commits_acked_none)
  next
    case (committed t2 x t3)
    have "commits_acked ?B handle t3"
      by (rule commits_acked_mono [OF Cons.IH [OF committed(3)]]) simp
    then show ?thesis using committed commit [of t2 t3 x] by simp
  qed (auto intro!: commits_acked_none dest: safe_no_offsets)
qed

lemma records_stop: "conv (handle_records handle tp rs) t v \<Longrightarrow> stop_ok t v"
proof (induction rs arbitrary: t)
  case Nil
  then show ?case by (simp add: stop_ok_False)
next
  case (Cons r rs)
  from Cons.prems show ?case
  proof (cases rule: records_cases)
    case (asked x)
    then show ?thesis by (simp add: stop_ok_def answer_Inr)
  next
    case (unanswered x e)
    then show ?thesis by (auto simp: stop_ok_Inl)
  next
    case (committed t2 x t3)
    then have "stop_ok (((IsStopping, RBool False) # t2 @ [(CommitOffset tp (r_offset r + 1), x)]) @ t3) v"
      using Cons.IH by (intro stop_ok_append) (auto dest: safe_no_stop)
    then show ?thesis using committed(1) by simp
  qed (auto simp: stop_ok_def dest: safe_no_stop)
qed

lemma batch_ok:
  "conv (handle_batch handle batch) t v \<Longrightarrow>
     commits_acked (\<lambda>_ tp r. \<exists>rs. (tp, rs) \<in> set batch \<and> r \<in> set rs) handle t \<and> stop_ok t v"
proof (induction batch arbitrary: t)
  case Nil
  then show ?case by (simp add: commits_acked_none stop_ok_False)
next
  case (Cons p batch)
  let ?B = "\<lambda>_ :: trace. \<lambda>tp r. \<exists>rs. (tp, rs) \<in> set (p # batch) \<and> r \<in> set rs"
  obtain tp rs where p: "p = (tp, rs)" by (cases p)
  have first: "commits_acked ?B handle t" "stop_ok t v" if "conv (handle_records handle tp rs) t v" for t v
    using commits_acked_mono [OF records_commits [OF that], of ?B] records_stop [OF that] p by auto
  have later: "commits_acked ?B handle t" "stop_ok t v" if "conv (handle_batch handle batch) t v" for t
  proof -
    show "commits_acked ?B handle t"
      using Cons.IH [OF that] by (elim conjE commits_acked_mono) auto
  qed (use Cons.IH [OF that] in simp)
  from Cons.prems [unfolded p handle_batch.simps conv_bindP]
  consider t1 x t2 where "t = t1 @ t2" "conv (handle_records handle tp rs) t1 (Inr x)"
      "conv (if x then Return True else handle_batch handle batch) t2 v"
    | e where "v = Inl e" "conv (handle_records handle tp rs) t (Inl e)"
    by blast
  then show ?case
  proof cases
    case 1
    show ?thesis
    proof (cases x)
      case True
      then show ?thesis using 1 first [OF 1(2)] by simp
    next
      case False
      then have "commits_acked ?B handle t2" "stop_ok t2 v" using 1(3) later by auto
      then show ?thesis
        using 1(1,2) first [OF 1(2)] False
        by (auto intro: commits_acked_append stop_ok_continue)
    qed
  next
    case 2
    then show ?thesis using first by blast
  qed
qed

lemma poll_cases:
  assumes "conv (poll_loop handle (Suc polls)) t v"
  obtains (stopped) "t = [(IsStopping, RBool True)]" and "v = Inr True"
    | (failed) e x where "v = Inl e" and "offset_reqs t = []" and "\<not> stop_seen t" and "polls_of t \<le> 1"
        and "t = [(IsStopping, x)] \<or> t = [(IsStopping, RBool False), (GetMany, x)] \<and> answer get_batch x = Inl e"
    | (batch) t1 u t2 where "t = [(IsStopping, RBool False), (GetMany, RBatch u)] @ t1 @ t2"
        and "conv (handle_batch handle u) t1 (Inr True) \<and> t2 = [] \<and> v = Inr True
         \<or> conv (handle_batch handle u) t1 (Inr False) \<and> conv (poll_loop handle polls) t2 v
         \<or> (\<exists>e. conv (handle_batch handle u) t1 (Inl e) \<and> t2 = [] \<and> v = Inl e)"
proof -
  from assms obtain r t' where t: "t = (IsStopping, r) # t'"
    and rest: "case answer get_bool r of Inl e \<Rightarrow> t' = [] \<and> v = Inl e
       | Inr x \<Rightarrow> conv (if x then Return True else bindP (ask get_batch GetMany) (\<lambda>batch.
           bindP (handle_batch handle batch) (\<lambda>stopping.
             if stopping then Return True else poll_loop handle polls))) t' v"
    unfolding poll_loop.simps conv_bindP_ask [of get_bool] by blast
  consider e where "answer get_bool r = Inl e" | "r = RBool True" | "r = RBool False"
    by (cases "answer get_bool r") (auto simp: answer_Inr)
  then show thesis
  proof cases
    case 1
    then have "r \<noteq> RBool True" by auto
    then show thesis using 1 t rest failed by simp
  next
    case 2
    then show thesis using t rest stopped by simp
  next
    case 3
    with rest obtain b t1 where t': "t' = (GetMany, b) # t1"
      and rest': "case answer get_batch b of Inl e \<Rightarrow> t1 = [] \<and> v = Inl e
        | Inr u \<Rightarrow> conv (bindP (handle_batch handle u) (\<lambda>stopping.
             if stopping then Return True else poll_loop handle polls)) t1 v"
      by (auto simp: conv_bindP_ask)
    show thesis
    proof (cases "answer get_batch b")
      case (Inl e)
      then show thesis using t t' rest' 3 failed by simp
    next
      case (Inr u)
      then have b: "b = RBatch u" by (simp add: answer_Inr)
      from Inr rest' consider ta x tb where "t1 = ta @ tb" "conv (handle_batch handle u) ta (Inr x)"
          "conv (if x then Return True else poll_loop handle polls) tb v"
        | e where "v = Inl e" "conv (handle_batch handle u) t1 (Inl e)"
        by (auto simp: conv_bindP)
      then show thesis
        by cases (use t t' 3 b batch [of u] batch [of u t1 "[]"] in \<open>auto simp: conv_if\<close>)
    qed
  qed
qed

lemma poll_ok: "conv (poll_loop handle polls) t v \<Longrightarrow> commits_acked polled handle t \<and> stop_ok t v"
proof (induction polls arbitrary: t)
  case 0
  then show ?case by (simp add: commits_acked_none stop_ok_False)
next
  case (Suc polls)
  from Suc.prems show ?case
  proof (cases rule: poll_cases)
    case (batch t1 u t2)
    let ?pre = "[(IsStopping, RBool False), (GetMany, RBatch u)]"
    have pre: "commits_acked polled handle ?pre" "\<not> stop_seen ?pre"
      by (simp_all add: commits_acked_none)
    have head: "commits_acked (\<lambda>ta. polled (?pre @ ta)) handle t1"
      if "conv (handle_batch handle u) t1 x" for x
      using batch_ok [OF that] by (elim conjE commits_acked_mono) (auto simp: polled_def)
    have tail: "commits_acked (\<lambda>ta. polled (?pre @ t1 @ ta)) handle t2"
      if "conv (poll_loop handle polls) t2 x" "x = v" for x
      using Suc.IH that by (blast intro: commits_acked_mono polled_append)
    have "commits_acked (\<lambda>ta. polled (?pre @ ta)) handle (t1 @ t2) \<and> stop_ok (t1 @ t2) v"
      using batch(2) batch_ok [of u t1] head tail Suc.IH [of t2]
      by (auto intro: commits_acked_append stop_ok_continue)
    then show ?thesis
      unfolding batch(1) by (metis pre commits_acked_append stop_ok_append)
  qed (auto simp: stop_ok_def intro: commits_acked_none)
qed

lemma run_cases:
  assumes "conv (consumer_run opts handle polls) t v"
  obtains (unstarted) x e where "t = [(ConsumerStart opts, x)]" and "v = Inl e"
    | (ran) x t1 u y where "t = (ConsumerStart opts, x) # t1 @ [(ConsumerStop, y)]"
        and "conv (poll_loop handle polls) t1 u" and "v = u \<or> isl v \<and> y \<noteq> RUnit"
proof -
  from assms consider x e where "t = [(ConsumerStart opts, x)]" "v = Inl e"
    | x t2 where "t = (ConsumerStart opts, x) # t2"
        "conv (try_finally (poll_loop handle polls) (ask get_unit ConsumerStop)) t2 v"
    by (auto simp: consumer_run_def conv_seqP conv_ask)
  then show thesis
  proof cases
    case (2 x t2)
    then obtain t1 u y where "t2 = t1 @ [(ConsumerStop, y)]" "conv (poll_loop handle polls) t1 u"
      "v = u \<or> (\<exists>e. v = Inl e \<and> Inl e = answer get_unit y)"
      unfolding conv_try_finally conv_ask by blast
    moreover from this(3) have "v = u \<or> isl v \<and> y \<noteq> RUnit" by auto
    ultimately show thesis using ran [of x t1 y u] 2(1) by simp
  qed (rule unstarted)
qed

lemma run_commits:
  assumes "conv (consumer_run opts handle polls) t v"
  shows "commits_acked polled handle t"
  using assms
proof (cases rule: run_cases)
  case (ran x t1 u y)
  have "commits_acked (\<lambda>ta. polled ([(ConsumerStart opts, x)] @ ta)) handle t1"
    using poll_ok [OF ran(2)] by (blast intro: commits_acked_mono polled_append)
  then have "commits_acked polled handle ([(ConsumerStart opts, x)] @ t1 @ [(ConsumerStop, y)])"
    by (intro commits_acked_append) (auto intro: commits_acked_none)
  then show ?thesis using ran(1) by simp
qed (auto intro: commits_acked_none)

lemma run_commit:
  assumes "conv (consumer_run opts handle polls) (t1 @ (CommitOffset tp off, x) # t3) v"
  shows "\<exists>ta t2 r. t1 = ta @ t2 \<and> off = r_offset r + 1 \<and> conv (handle r) t2 (Inr COMMIT) \<and> polled ta tp r"
  using run_commits [OF assms] unfolding commits_acked_def by (elim allE impE) (rule refl)

text \<open>
  Once the stop flag is seen set, the only request left is the consumer's own \<open>stop\<close>, and the loop
  reports that it was stopped unless that last request fails.
\<close>

lemma run_stop:
  assumes "conv (consumer_run opts handle polls) t v"
  shows "stop_seen t \<longleftrightarrow> (\<exists>t1 y. t = t1 @ [(IsStopping, RBool True), (ConsumerStop, y)])"
  using assms
proof (cases rule: run_cases)
  case (ran x t1 u y)
  show ?thesis
  proof (cases "u = Inr True")
    case True
    then obtain t2 where "t1 = t2 @ [(IsStopping, RBool True)]"
      using poll_ok [OF ran(2)] by (auto simp: stop_ok_def)
    then have "t = ((ConsumerStart opts, x) # t2) @ [(IsStopping, RBool True), (ConsumerStop, y)]"
      using ran(1) by simp
    then show ?thesis by (auto simp: stop_seen_def)
  next
    case False
    then have "\<not> stop_seen t" using ran(1) poll_ok [OF ran(2)] by (auto simp: stop_ok_def)
    then show ?thesis by (auto simp: stop_seen_def)
  qed
qed (auto simp: stop_seen_def Cons_eq_append_conv)

lemma run_result:
  assumes "conv (consumer_run opts handle polls) t v"
  shows "v = Inr True \<Longrightarrow> stop_seen t" and "stop_seen t \<Longrightarrow> v = Inr True \<or> isl v"
  using assms by (cases rule: run_cases; fastforce simp: stop_ok_def dest!: poll_ok split: if_splits)+

lemma safe_no_polls: "conv (safe_handle handle r) t v \<Longrightarrow> polls_of t = 0"
  using only_conv [OF safe_leaves_consumer]
  by (fastforce simp: polls_of_def filter_empty_conv)

lemma records_no_polls: "conv (handle_records handle tp rs) t v \<Longrightarrow> polls_of t = 0"
proof (induction rs arbitrary: t)
  case (Cons r rs)
  from Cons.prems show ?case
    by (cases rule: records_cases) (auto dest: safe_no_polls Cons.IH)
qed simp

lemma batch_no_polls: "conv (handle_batch handle batch) t v \<Longrightarrow> polls_of t = 0"
proof (induction batch arbitrary: t)
  case (Cons p batch)
  then show ?case
    by (cases p) (auto simp: conv_bindP conv_if split: if_splits dest!: records_no_polls)
qed simp

lemma poll_count:
  "conv (poll_loop handle polls) t v \<Longrightarrow> polls_of t \<le> polls \<and> (v = Inr False \<longrightarrow> polls_of t = polls)"
proof (induction polls arbitrary: t)
  case (Suc polls)
  from Suc.prems show ?case
  proof (cases rule: poll_cases)
    case (batch t1 u t2)
    then show ?thesis using batch_no_polls [of u t1] Suc.IH [of t2] by auto
  qed auto
qed simp

lemma run_polls:
  assumes "conv (consumer_run opts handle polls) t v"
  shows "polls_of t \<le> polls" and "v = Inr False \<Longrightarrow> polls_of t = polls"
  using assms by (cases rule: run_cases; fastforce dest: poll_count)+

text \<open>A poll that raises ends the loop: nothing but the consumer's own \<open>stop\<close> follows.\<close>

lemma no_polls_in: "polls_of t = 0 \<Longrightarrow> (GetMany, x) \<notin> set t"
  by (auto simp: polls_of_def filter_empty_conv)

lemma poll_failure:
  "conv (poll_loop handle polls) t v \<Longrightarrow> (GetMany, RErr e) \<in> set t \<Longrightarrow> v = Inl e \<and> last t = (GetMany, RErr e)
     \<and> (GetMany, RErr e) \<notin> set (butlast t)"
proof (induction polls arbitrary: t)
  case (Suc polls)
  from Suc.prems(1) show ?case
  proof (cases rule: poll_cases)
    case (batch t1 u t2)
    have none: "(GetMany, RErr e) \<notin> set t1"
      using batch(2) batch_no_polls [of u t1] no_polls_in by blast
    then have "t2 \<noteq> []" "conv (poll_loop handle polls) t2 v" "(GetMany, RErr e) \<in> set t2"
      using batch Suc.prems(2) by auto
    then show ?thesis using Suc.IH batch(1) none by (auto simp: butlast_append)
  qed (use Suc.prems(2) in auto)
qed simp

lemma run_poll_failure:
  assumes "conv (consumer_run opts handle polls) (t1 @ (GetMany, RErr e) # t2) v"
  shows "\<exists>y. t2 = [(ConsumerStop, y)] \<and> isl v \<and> (y = RUnit \<longrightarrow> v = Inl e)"
  using assms
proof (cases rule: run_cases)
  case (ran x ts u y)
  then obtain t1' t2' where t: "ts = t1' @ (GetMany, RErr e) # t2'" "t2 = t2' @ [(ConsumerStop, y)]"
    by (cases t1; cases t2 rule: rev_cases) auto
  then have "u = Inl e" "t2' = []" using poll_failure [OF ran(2), of e] by (auto simp: butlast_append split: if_splits)
  then show ?thesis using ran(3) t by auto
qed (simp add: append_eq_Cons_conv)

end

end
