(* ===== verification/Demo.thy ===== *)
theory Demo
  imports Effects
begin

text \<open>
  Concrete parameters for the examples: a process with the default settings and a running
  producer, libraries that answer constants, and services that read their answers from a list.
\<close>

text \<open>The other side of a conversation as a list of answers.\<close>

definition scripted :: "resp list services" where
  "scripted w q = (case w of [] \<Rightarrow> (RUnit, []) | r # rs \<Rightarrow> (r, rs))"

lemma scripted_simps [simp]:
  "scripted [] q = (RUnit, [])" "scripted (r # rs) q = (r, rs)"
  by (simp_all add: scripted_def)

definition demo_event :: order_event where
  "demo_event = \<lparr>ev_event_id = lit ''e1'', ev_event_type = lit ''order.created'', ev_occurred_at = 0,
     ev_order_id = 7, ev_customer_id = lit ''c'', ev_sku = lit ''sku'', ev_quantity = 1,
     ev_amount_cents = 100, ev_fail_mode = Some TRANSIENT\<rparr>"

definition demo_order :: order where
  "demo_order = \<lparr>o_id = 7, o_customer_id = lit ''c'', o_sku = lit ''sku'', o_quantity = 1,
     o_amount_cents = 100, o_status = PENDING, o_attempts = 0, o_failure_reason = None,
     o_fail_mode = Some TRANSIENT, o_created_at = 0, o_updated_at = 0,
     o_transitions = [\<lparr>st_from_status = None, st_to_status = PENDING,
       st_note = Some (lit ''order accepted''), st_created_at = 0\<rparr>]\<rparr>"

definition demo_out :: order_out where
  "demo_out = order_out_of demo_order"

definition demo_libs :: libs where
  "demo_libs = \<lparr>
     validate_event = (\<lambda>v. if v = JNull then Inl (lit ''not an object'') else Inr demo_event),
     dump_event = (\<lambda>_. JObj []),
     dump_order_out = (\<lambda>_. lit ''{}''),
     load_order_out = (\<lambda>s. if s = lit ''{}'' then Some demo_out else None),
     upper = (\<lambda>s. s),
     repr_str = (\<lambda>s. s),
     repr_float = (\<lambda>x. lit ''1.5''),
     parse_float = (\<lambda>s. Some (Finite (3 / 2))),
     isoformat = (\<lambda>d. lit ''1970-01-01T00:00:00'')\<rparr>"

definition demo_ctx :: ctx where
  "demo_ctx = \<lparr>cfg = default_settings, lib = demo_libs, producer = True\<rparr>"

lemmas demo_defs = demo_event_def demo_order_def demo_out_def demo_libs_def demo_ctx_def

text \<open>A program's conversation with a list of answers.\<close>

lemma conv_scripted: "conv p (trail scripted p rs) (fst (exec scripted p rs))"
  by (rule conv_exec)

lemma conv_scripted_at:
  assumes "n < length (trail scripted p rs)" and "trail scripted p rs ! n = x"
  shows "\<exists>t1 t2 v. conv p (t1 @ x # t2) v"
  using conv_scripted [of p rs] id_take_nth_drop [OF assms(1)] assms(2) by metis

text \<open>
  The answers to the main processor's handler for an event whose fulfilment fails once: the claim
  is acquired, the order is open, the retry is published.
\<close>

definition demo_retry_answers :: "resp list" where
  "demo_retry_answers = [RInt 1, RUuid 5, RBool True, RSid 0, ROrder (Some demo_order), RTime 1, RTime 1,
     RUnit, RUnit, RUnit, RBool True, RUnit, RFloat (3 / 2), RSid 1, ROrder (Some demo_order), RTime 2,
     RTime 2, RUnit, RUnit, RUnit, RBool True, RFloat 10, RTime 3, RUnit, RInt 1, RInt 1]"

text \<open>The same event when the order is missing, and when the database is away.\<close>

definition demo_missing_answers :: "resp list" where
  "demo_missing_answers = [RInt 1, RUuid 5, RBool True, RSid 0, ROrder None, RInt 1, RTime 3, RUnit,
     RUnit, RUnit]"

definition demo_outage_answers :: "resp list" where
  "demo_outage_answers = [RInt 1, RUuid 5, RBool True, RErr (OSError (lit ''connection refused'')), RInt 1]"

end
