(* ===== verification/OrderConsumer.thy ===== *)
theory OrderConsumer
  imports Idempotency Cache Producer ConsumeLoop Demo
begin

text \<open>
  The main processor (\<open>OrderConsumer\<close> in \<open>app/kafka/consumers.py\<close>): one definition per method, with
  the sessions of \<open>_process\<close> and the two branches of \<open>_fail\<close> named.

  The lemmas say what a finished handler has done: why a record may be committed, what must have
  happened before the guard's tombstone is written, what is published to the retry topic, and
  that nothing durable happens without the claim.
\<close>

section \<open>Main processor\<close>

definition payload_dict :: "json \<Rightarrow> json" where
  "payload_dict v = (case v of JObj kvs \<Rightarrow> JObj kvs | _ \<Rightarrow> JObj [(lit ''raw'', v)])"

definition to_dlq :: "ctx \<Rightarrow> consumer_record \<Rightarrow> int \<Rightarrow> str \<Rightarrow> unit io" where
  "to_dlq C r att error =
     bindP (build (lib C) att None (Some error) (Some (r_topic r))) (\<lambda>headers.
       publish_raw C (topic_dlq (cfg C)) (r_key r) (payload_dict (r_value r)) headers)"

definition fail_retry ::
  "ctx \<Rightarrow> guard \<Rightarrow> order_event \<Rightarrow> consumer_record \<Rightarrow> int \<Rightarrow> claim \<Rightarrow> str \<Rightarrow> ack io" where
  "fail_retry C g event r att c error =
     (let order_id = ev_order_id event in
      bindP (backoff_delay (cfg C) att) (\<lambda>delay.
      bindP (session_scope (\<lambda>session.
          bindP (get_order session order_id) (\<lambda>order.
            transition session order PENDING
              (Some (lit ''attempt '' @ str_int att @ lit '' failed ('' @ error
                 @ lit ''); retrying in '' @ repr_float (lib C) delay @ lit ''s''))
              (Some att) (Some error)))) (\<lambda>order.
      seqP (put_order C order)
      (bindP (ask get_float TimeTime) (\<lambda>now.
       bindP (build (lib C) (att + 1) (Some (now + delay)) (Some error) (Some (r_topic r))) (\<lambda>headers.
       seqP (publish_raw C (topic_retry (cfg C)) (Some (uuid_str order_id)) (r_value r) headers)
      (seqP (release g c)
      (seqP (incr_stat STAT_RETRIES 1)
       (Return COMMIT)))))))))"

definition fail_terminal ::
  "ctx \<Rightarrow> guard \<Rightarrow> order_event \<Rightarrow> consumer_record \<Rightarrow> int \<Rightarrow> claim \<Rightarrow> str \<Rightarrow> bool \<Rightarrow> ack io" where
  "fail_terminal C g event r att c error retryable =
     (let order_id = ev_order_id event;
          reason = (if \<not> retryable then lit ''permanent failure'' else lit ''retries exhausted'') in
      bindP (session_scope (\<lambda>session.
          bindP (get_order session order_id) (\<lambda>order.
            case order of
              None \<Rightarrow> Return None
            | Some o' \<Rightarrow>
                bindP (transition session (Some o') FAILED (Some (reason @ lit '': '' @ error))
                        (Some att) (Some error)) (\<lambda>o''. Return (Some o''))))) (\<lambda>order.
      seqP (case order of None \<Rightarrow> Return () | Some o' \<Rightarrow> put_order C o')
      (seqP (to_dlq C r att (reason @ lit '': '' @ error))
      (seqP (complete g c)
      (seqP (incr_stat STAT_FAILED 1)
       (Return COMMIT))))))"

definition fail_event ::
  "ctx \<Rightarrow> guard \<Rightarrow> order_event \<Rightarrow> consumer_record \<Rightarrow> int \<Rightarrow> claim \<Rightarrow> str \<Rightarrow> bool \<Rightarrow> ack io" where
  "fail_event C g event r att c error retryable =
     (let can_retry = (retryable \<and> att < max_attempts (cfg C)) in
      if can_retry then fail_retry C g event r att c error
      else fail_terminal C g event r att c error retryable)"

text \<open>
  The first session of \<open>_process\<close>.  \<open>Inl\<close> is an early \<open>return\<close> from inside the \<open>async with\<close> block,
  which still commits and closes the session.
\<close>

definition begin_processing ::
  "ctx \<Rightarrow> guard \<Rightarrow> order_event \<Rightarrow> consumer_record \<Rightarrow> int \<Rightarrow> claim \<Rightarrow> (ack + order) io" where
  "begin_processing C g event r att c =
     (let order_id = ev_order_id event in
      session_scope (\<lambda>session.
        bindP (get_order session order_id) (\<lambda>order.
          case order of
            None \<Rightarrow>
              seqP (complete g c)
              (seqP (to_dlq C r att (lit ''no such order '' @ uuid_str order_id))
               (Return (Inl COMMIT)))
          | Some o' \<Rightarrow>
              if o_status o' \<in> TERMINAL_STATUSES then
                seqP (complete g c)
                (seqP (incr_stat STAT_DUPLICATES 1)
                 (Return (Inl COMMIT)))
              else
                bindP (transition session (Some o') PROCESSING
                        (Some (lit ''attempt '' @ str_int att)) (Some att) None)
                  (\<lambda>o''. Return (Inr o'')))))"

definition finish_processing ::
  "ctx \<Rightarrow> guard \<Rightarrow> order_event \<Rightarrow> int \<Rightarrow> claim \<Rightarrow> ack io" where
  "finish_processing C g event att c =
     (let order_id = ev_order_id event in
      bindP (session_scope (\<lambda>session.
          bindP (get_order session order_id) (\<lambda>order.
            transition session order COMPLETED (Some (lit ''fulfilled'')) (Some att) None))) (\<lambda>order.
      seqP (put_order C order)
      (seqP (complete g c)
      (seqP (incr_stat STAT_COMPLETED 1)
       (Return COMMIT)))))"

definition process ::
  "ctx \<Rightarrow> guard \<Rightarrow> order_event \<Rightarrow> consumer_record \<Rightarrow> int \<Rightarrow> claim \<Rightarrow> ack io" where
  "process C g event r att c =
     bindP (begin_processing C g event r att c) (\<lambda>begun.
       case begun of
         Inl a \<Rightarrow> Return a
       | Inr order \<Rightarrow>
           seqP (put_order C order)
           (bindP (outcome (fulfil C event)) (\<lambda>v.
              case v of
                Inl (PermanentError msg) \<Rightarrow> fail_event C g event r att c msg False
              | Inl (TransientError msg) \<Rightarrow> fail_event C g event r att c msg True
              | Inl e \<Rightarrow> Raise e
              | Inr _ \<Rightarrow> finish_processing C g event att c)))"

definition order_handle :: "ctx \<Rightarrow> guard \<Rightarrow> consumer_record \<Rightarrow> ack io" where
  "order_handle C g r =
     (let att = get_attempt (r_headers r) in
      case validate_event (lib C) (r_value r) of
        Inl exc \<Rightarrow>
          seqP (to_dlq C r att (lit ''schema violation: '' @ exc)) (Return COMMIT)
      | Inr event \<Rightarrow>
          seqP (incr_stat STAT_CONSUMED 1)
          (bindP (claim g (ev_event_id event)) (\<lambda>c.
             case c_status c of
               ALREADY_DONE \<Rightarrow> seqP (incr_stat STAT_DUPLICATES 1) (Return COMMIT)
             | IN_PROGRESS \<Rightarrow> seqP (sleep (1 / 4)) (Return REDELIVER)
             | ACQUIRED \<Rightarrow>
                 try_except is_Exception (process C g event r att c)
                   (\<lambda>e. seqP (release g c) (Raise e)))))"

text \<open>\<open>OrderConsumer().run()\<close>: topic, group and guard as the constructor sets them.\<close>

definition order_consumer_run :: "ctx \<Rightarrow> nat \<Rightarrow> bool io" where
  "order_consumer_run C polls =
     consumer_run (build_consumer (cfg C) (topic_orders (cfg C)) (group_processors (cfg C)))
       (order_handle C (IdempotencyGuard (cfg C) None None)) polls"

section \<open>Footprint\<close>

text \<open>
  \<open>spares \<phi>\<close>: the class \<open>\<phi>\<close> of requests leaves out at most some of the loop's own requests and some
  of the records sent to Kafka.
\<close>

fun is_send :: "req \<Rightarrow> bool" where
  "is_send (KafkaSend _ _ _ _) = True"
| "is_send _ = False"

definition spares :: "(req \<Rightarrow> bool) \<Rightarrow> bool" where
  "spares \<phi> \<longleftrightarrow> (\<forall>q. \<not> is_loop_req q \<and> \<not> is_send q \<longrightarrow> \<phi> q)"

lemma sparesD: "spares \<phi> \<Longrightarrow> \<not> is_loop_req q \<Longrightarrow> \<not> is_send q \<Longrightarrow> \<phi> q"
  by (simp add: spares_def)

text \<open>
  Requests to the guard of an event.  \<open>fits c \<phi>\<close>: of these, \<open>\<phi>\<close> need only allow the scripts on the claim \<open>c\<close>;
  that is all a handler sends once it has the claim.
\<close>

fun is_guard :: "req \<Rightarrow> bool" where
  "is_guard (RedisSet k v nx ex) \<longleftrightarrow> (\<exists>ev. k = Keys_event_guard ev)"
| "is_guard (RedisGet k) \<longleftrightarrow> (\<exists>ev. k = Keys_event_guard ev)"
| "is_guard (RedisDelete k) \<longleftrightarrow> (\<exists>ev. k = Keys_event_guard ev)"
| "is_guard (RedisEval s k tok ttl) \<longleftrightarrow> True"
| "is_guard _ \<longleftrightarrow> False"

definition fits :: "claim \<Rightarrow> (req \<Rightarrow> bool) \<Rightarrow> bool" where
  "fits c \<phi> \<longleftrightarrow> (\<forall>q. \<not> is_loop_req q \<and> \<not> is_send q \<and> \<not> is_guard q \<longrightarrow> \<phi> q)
     \<and> (\<forall>s ttl. \<phi> (RedisEval s (c_key c) (c_token c) ttl))"

lemma fitsD: "fits c \<phi> \<Longrightarrow> \<not> is_loop_req q \<Longrightarrow> \<not> is_send q \<Longrightarrow> \<not> is_guard q \<Longrightarrow> \<phi> q"
  by (simp add: fits_def)

lemma spares_fits [intro]: "spares \<phi> \<Longrightarrow> fits c \<phi>"
  by (simp add: spares_def fits_def)

named_theorems footprint \<open>which requests the parts of a handler send\<close>

lemma only_parts [footprint]:
  assumes "fits c \<phi>"
  shows "only \<phi> (incr_stat f n)" "only \<phi> (sleep d)" "only \<phi> (put_order C o')"
    "only \<phi> (get_order s i)" "only \<phi> (transition s row to note att why)"
    "only \<phi> (complete g c)" "only \<phi> (release g c)"
    "only \<phi> (fulfil C event)" "only \<phi> (backoff_delay S n)" "only \<phi> (build L a nb err org)"
    "only \<phi> (ask get_float TimeTime)"
proof -
  note D = fitsD [OF assms]
  show "only \<phi> (incr_stat f n)" "only \<phi> (sleep d)" "only \<phi> (put_order C o')" "only \<phi> (get_order s i)"
      "only \<phi> (ask get_float TimeTime)"
    by (simp_all add: incr_stat_def sleep_def put_order_def get_order_def D)
  show "only \<phi> (transition s row to note att why)"
    by (auto simp: transition_def utcnow_def Let_def D split: option.split)
  show "only \<phi> (complete g c)" "only \<phi> (release g c)"
    using assms by (auto simp: complete_def release_def fits_def)
  show "only \<phi> (fulfil C event)"
    by (auto simp: fulfil_def sleep_def D split: option.split)
  show "only \<phi> (backoff_delay S n)"
    by (auto simp: backoff_delay_def D)
  show "only \<phi> (build L a nb err org)"
    by (auto simp: build_def Let_def D split: option.split)
qed

lemma only_claim: "spares \<phi> \<Longrightarrow> only \<phi> (claim g ev)"
  by (auto simp: claim_def claim_verdict_def Let_def sparesD)

lemma only_scope [footprint]:
  "fits c \<phi> \<Longrightarrow> (\<And>s. only \<phi> (body s)) \<Longrightarrow> only \<phi> (session_scope body)"
  by (rule only_session_scope) (auto intro: fitsD)

text \<open>Sends: the record published to the dead-letter topic and the one published to the retry topic.\<close>

lemma only_publish_raw:
  "\<phi> (KafkaSend topic key val hs) \<Longrightarrow> only \<phi> (publish_raw C topic key val hs)"
  by (auto simp: publish_raw_def get_producer_def)

lemma only_to_dlq:
  assumes "fits c \<phi>"
    and "\<And>t hs. conv (build (lib C) att None (Some error) (Some (r_topic r))) t (Inr hs) \<Longrightarrow>
      \<phi> (KafkaSend (topic_dlq (cfg C)) (r_key r) (payload_dict (r_value r)) hs)"
  shows "only \<phi> (to_dlq C r att error)"
  unfolding to_dlq_def using assms
  by (auto intro!: only_bindP_conv only_publish_raw footprint [OF assms(1)])

lemma only_fail_retry:
  assumes "fits c \<phi>"
    and "\<And>t nb hs. conv (build (lib C) (att + 1) nb (Some error) (Some (r_topic r))) t (Inr hs) \<Longrightarrow>
      \<phi> (KafkaSend (topic_retry (cfg C)) (Some (uuid_str (ev_order_id event))) (r_value r) hs)"
  shows "only \<phi> (fail_retry C g event r att c error)"
  unfolding fail_retry_def Let_def using assms
  by (auto intro!: only_bindP_conv [where p = "build _ _ _ _ _"] only_bindP only_seqP only_publish_raw
      footprint [OF assms(1)])

lemma only_fail_terminal:
  assumes "fits c \<phi>" and "\<And>e. only \<phi> (to_dlq C r att e)"
  shows "only \<phi> (fail_terminal C g event r att c error retryable)"
  unfolding fail_terminal_def Let_def using assms
  by (auto intro!: only_bindP only_seqP footprint [OF assms(1)] split: option.split)

lemma only_process:
  assumes fits: "fits c \<phi>" and dlq: "\<And>e. only \<phi> (to_dlq C r att e)"
    and retry: "\<And>error. att < max_attempts (cfg C) \<Longrightarrow> only \<phi> (fail_retry C g event r att c error)"
  shows "only \<phi> (process C g event r att c)"
proof -
  have fail: "only \<phi> (fail_event C g event r att c error retryable)" for error retryable
    using fits dlq retry by (auto simp: fail_event_def Let_def intro!: only_fail_terminal)
  have start: "only \<phi> (begin_processing C g event r att c)"
    unfolding begin_processing_def Let_def using dlq
    by (auto intro!: only_bindP only_seqP footprint [OF fits] split: option.split)
  have finish: "only \<phi> (finish_processing C g event att c)"
    unfolding finish_processing_def Let_def
    by (auto intro!: only_bindP only_seqP footprint [OF fits])
  show ?thesis
    unfolding process_def
    by (auto intro!: only_bindP only_seqP footprint [OF fits] start finish fail split: sum.split exn.split)
qed

lemma only_handle:
  assumes fits: "\<And>c. fits c \<phi>" and claim: "\<And>ev. only \<phi> (claim g ev)"
    and dlq: "\<And>e. only \<phi> (to_dlq C r (get_attempt (r_headers r)) e)"
    and retry: "\<And>event c error. validate_event (lib C) (r_value r) = Inr event \<Longrightarrow>
      get_attempt (r_headers r) < max_attempts (cfg C) \<Longrightarrow>
      only \<phi> (fail_retry C g event r (get_attempt (r_headers r)) c error)"
  shows "only \<phi> (order_handle C g r)"
proof -
  have proc: "only \<phi> (process C g event r (get_attempt (r_headers r)) c)"
    if "validate_event (lib C) (r_value r) = Inr event" for event c
    using that dlq retry by (intro only_process [OF fits]) auto
  show ?thesis
    unfolding order_handle_def Let_def using dlq
    by (auto intro!: only_bindP only_seqP claim only_parts [OF fits] proc split: sum.split claim_status.split)
qed

lemmas only_order_handle = only_handle [OF spares_fits only_claim]

interpretation processor: record_handler "order_handle C g" for C g
proof
  fix r
  show "only (\<lambda>q. \<not> is_loop_req q) (order_handle C g r)"
    by (auto simp: spares_def intro!: only_order_handle only_to_dlq only_fail_retry)
qed

section \<open>Why a record may be committed\<close>

text \<open>
  The reasons a record of the main topic needs no further delivery: its dead letter or its retry
  was accepted by Kafka, its event is tombstoned, its order is already settled, or its order was
  just completed and that is committed.
\<close>

definition dead_lettered_in :: "ctx \<Rightarrow> consumer_record \<Rightarrow> trace \<Rightarrow> bool" where
  "dead_lettered_in C r t \<longleftrightarrow>
     (\<exists>hs. acked t (KafkaSend (topic_dlq (cfg C)) (r_key r) (payload_dict (r_value r)) hs))"

definition retried_in :: "ctx \<Rightarrow> consumer_record \<Rightarrow> order_event \<Rightarrow> trace \<Rightarrow> bool" where
  "retried_in C r event t \<longleftrightarrow>
     (\<exists>hs. acked t (KafkaSend (topic_retry (cfg C)) (Some (uuid_str (ev_order_id event))) (r_value r) hs))"

definition done_in :: "order_event \<Rightarrow> trace \<Rightarrow> bool" where
  "done_in event t \<longleftrightarrow> (RedisGet (Keys_event_guard (ev_event_id event)), RStr (Some DONE)) \<in> set t"

definition settled_in :: "order_event \<Rightarrow> trace \<Rightarrow> bool" where
  "settled_in event t \<longleftrightarrow>
     (\<exists>s o'. (DbGet s (ev_order_id event), ROrder (Some o')) \<in> set t \<and> o_status o' \<in> TERMINAL_STATUSES)"

definition completed_in :: "order_event \<Rightarrow> trace \<Rightarrow> bool" where
  "completed_in event t \<longleftrightarrow>
     (\<exists>s old o'. (DbGet s (ev_order_id event), ROrder (Some old)) \<in> set t \<and> o_id o' = o_id old
        \<and> o_status o' = COMPLETED \<and> durable t (SaveOrder o'))"

lemmas in_defs = dead_lettered_in_def retried_in_def done_in_def settled_in_def completed_in_def

lemma in_append:
  "dead_lettered_in C r a \<Longrightarrow> dead_lettered_in C r (a @ b)"
  "dead_lettered_in C r b \<Longrightarrow> dead_lettered_in C r (a @ b)"
  "retried_in C r ev a \<Longrightarrow> retried_in C r ev (a @ b)"
  "retried_in C r ev b \<Longrightarrow> retried_in C r ev (a @ b)"
  "done_in ev a \<Longrightarrow> done_in ev (a @ b)" "done_in ev b \<Longrightarrow> done_in ev (a @ b)"
  "settled_in ev a \<Longrightarrow> settled_in ev (a @ b)" "settled_in ev b \<Longrightarrow> settled_in ev (a @ b)"
  "completed_in ev a \<Longrightarrow> completed_in ev (a @ b)" "completed_in ev b \<Longrightarrow> completed_in ev (a @ b)"
  unfolding in_defs by (auto intro: durable_append)

definition accounted :: "ctx \<Rightarrow> consumer_record \<Rightarrow> trace \<Rightarrow> bool" where
  "accounted C r t \<longleftrightarrow>
     dead_lettered_in C r t
     \<or> (\<exists>event. validate_event (lib C) (r_value r) = Inr event
          \<and> (retried_in C r event t \<or> done_in event t \<or> settled_in event t \<or> completed_in event t))"

lemma accounted_append:
  "accounted C r a \<Longrightarrow> accounted C r (a @ b)" "accounted C r b \<Longrightarrow> accounted C r (a @ b)"
  unfolding accounted_def by (blast intro: in_append)+

lemma returns_publish_raw:
  "returns (publish_raw C topic key val hs) (\<lambda>t x. acked t (KafkaSend topic key val hs))"
  by (auto simp: returns_def publish_raw_def get_producer_def prog_simps answer_unit_ok)

lemma returns_to_dlq: "returns (to_dlq C r att error) (\<lambda>t x. dead_lettered_in C r t)"
  unfolding to_dlq_def
  by (intro returns_last(1) in_append(2) returns_mono [OF returns_publish_raw])
    (auto simp: dead_lettered_in_def)

lemma returns_fail_retry:
  "returns (fail_retry C g event r att c error) (\<lambda>t x. retried_in C r event t)"
  unfolding fail_retry_def Let_def
  by (intro returns_last in_append(4) returns_first(2) in_append(3) returns_mono [OF returns_publish_raw])
    (auto simp: retried_in_def)

lemma returns_fail_terminal:
  "returns (fail_terminal C g event r att c error retryable) (\<lambda>t x. dead_lettered_in C r t)"
  unfolding fail_terminal_def Let_def
  by (intro returns_last in_append(2) returns_first(2) in_append(1) returns_to_dlq)

lemma returns_get_order:
  "returns (get_order s i) (\<lambda>t x. t = [(DbGet s i, ROrder x)])"
  by (auto simp: returns_def get_order_def prog_simps answer_Inr)

text \<open>A session that reads a row and moves it, and returns, has made the move durable.\<close>

lemma returns_move:
  "returns (session_scope (\<lambda>s. bindP (get_order s i) (\<lambda>row. transition s row to note att why)))
     (\<lambda>t o'. durable t (SaveOrder o') \<and> o_status o' = to
        \<and> (\<exists>s old. (DbGet s i, ROrder (Some old)) \<in> set t \<and> o_id o' = o_id old))"
proof (rule returns_mono [OF returns_session_scope])
  show "returns (bindP (get_order s i) (\<lambda>row. transition s row to note att why))
      (\<lambda>t o'. acked t (DbFlush s (SaveOrder o')) \<and> o_status o' = to
         \<and> (\<exists>old. (DbGet s i, ROrder (Some old)) \<in> set t \<and> o_id o' = o_id old))" for s
    by (rule returns_bindP [OF returns_get_order]) (rule returns_mono [OF returns_transition], auto)
qed (fastforce intro: durable_scope)

lemma returns_finish: "returns (finish_processing C g event att c) (\<lambda>t x. completed_in event t)"
  unfolding finish_processing_def Let_def
proof (rule returns_first)
  show "returns (session_scope (\<lambda>session. bindP (get_order session (ev_order_id event)) (\<lambda>order.
      transition session order COMPLETED (Some (lit ''fulfilled'')) (Some att) None)))
    (\<lambda>t x. completed_in event t)"
    by (rule returns_mono [OF returns_move]) (auto simp: completed_in_def)
qed (rule in_append)

lemma settled_in_row:
  "settled_in event ((DbGet s (ev_order_id event), ROrder (Some o')) # t)"
  if "o_status o' \<in> TERMINAL_STATUSES"
  using that by (auto simp: settled_in_def)

lemma returns_begin:
  "returns (begin_processing C g event r att c) (\<lambda>t v. \<forall>a. v = Inl a \<longrightarrow>
     a = COMMIT \<and> (dead_lettered_in C r t \<or> settled_in event t))"
  (is "returns _ ?Q")
proof -
  let ?to_dlq = "to_dlq C r att (lit ''no such order '' @ uuid_str (ev_order_id event))"
  have missing: "returns (seqP (complete g c) (seqP ?to_dlq (Return (Inl COMMIT)))) ?Q"
    unfolding seqP_def
    by (rule returns_bindP [OF returns_True], rule returns_bindP [OF returns_to_dlq])
      (auto intro: in_append)
  have body: "returns (bindP (get_order s (ev_order_id event)) f) ?Q"
    if "returns (f None) ?Q"
      and "\<And>o'. o_status o' \<in> TERMINAL_STATUSES \<Longrightarrow> returns (f (Some o')) (\<lambda>t v. v = Inl COMMIT)"
      and "\<And>o'. o_status o' \<notin> TERMINAL_STATUSES \<Longrightarrow> returns (f (Some o')) (\<lambda>t v. \<exists>x. v = Inr x)" for s f
  proof (rule returns_bindP [OF returns_get_order])
    fix t row
    assume t: "t = [(DbGet s (ev_order_id event), ROrder row)]"
    consider "row = None" | o' where "row = Some o'" "o_status o' \<in> TERMINAL_STATUSES"
      | o' where "row = Some o'" "o_status o' \<notin> TERMINAL_STATUSES" by (cases row) auto
    then show "returns (f row) (\<lambda>t' v. ?Q (t @ t') v)"
    proof cases
      case 1
      then show ?thesis by (auto intro!: returns_mono [OF that(1)] intro: in_append)
    next
      case 2
      then show ?thesis using t by (auto intro!: returns_mono [OF that(2)] settled_in_row)
    next
      case 3
      then show ?thesis by (auto intro!: returns_mono [OF that(3)])
    qed
  qed
  have "returns (begin_processing C g event r att c) (\<lambda>t v. \<exists>s t' rc rx.
      t = (DbOpen, RSid s) # t' @ [(DbCommit s, rc), (DbClose s, rx)] \<and> ok_resp rc \<and> ok_resp rx \<and> ?Q t' v)"
    unfolding begin_processing_def Let_def
  proof (rule returns_session_scope, rule body)
    fix s o'
    show "returns (case None of None \<Rightarrow> seqP (complete g c) (seqP ?to_dlq (Return (Inl COMMIT)))
        | Some o' \<Rightarrow> f o') ?Q" for f
      using missing by simp
  qed (auto simp: returns_conv conv_simps)
  then show ?thesis
    by (rule returns_mono) (metis append_Cons append_Nil in_append(1,2,7,8))
qed

lemma returns_process:
  assumes event: "validate_event (lib C) (r_value r) = Inr event"
  shows "returns (process C g event r att c) (\<lambda>t x. x = COMMIT \<longrightarrow> accounted C r t)"
proof -
  let ?Q = "\<lambda>t x. x = COMMIT \<longrightarrow> accounted C r t"
  have fail: "returns (fail_event C g event r att c error retryable) (\<lambda>t x. accounted C r t)"
    for error retryable
    unfolding fail_event_def Let_def using event
    by (auto simp: accounted_def intro!: returns_mono [OF returns_fail_retry]
        returns_mono [OF returns_fail_terminal])
  have finish: "returns (finish_processing C g event att c) (\<lambda>t x. accounted C r t)"
    by (rule returns_mono [OF returns_finish]) (use event in \<open>auto simp: accounted_def\<close>)
  have work: "returns (seqP p (bindP (outcome q) f)) (\<lambda>t x. accounted C r t)"
    if "\<And>v. returns (f v) (\<lambda>t x. accounted C r t)" for p q f
    by (intro returns_last accounted_append(2) that)
  show ?thesis
    unfolding process_def
  proof (rule returns_bindP [OF returns_begin])
    fix t and v :: "ack + order"
    assume v: "\<forall>a. v = Inl a \<longrightarrow> a = COMMIT \<and> (dead_lettered_in C r t \<or> settled_in event t)"
    show "returns (case v of Inl a \<Rightarrow> Return a
        | Inr order \<Rightarrow> seqP (put_order C order) (bindP (outcome (fulfil C event)) (\<lambda>v.
            case v of Inl (PermanentError msg) \<Rightarrow> fail_event C g event r att c msg False
              | Inl (TransientError msg) \<Rightarrow> fail_event C g event r att c msg True
              | Inl e \<Rightarrow> Raise e
              | Inr _ \<Rightarrow> finish_processing C g event att c))) (\<lambda>t' y. ?Q (t @ t') y)"
    proof (cases v)
      case (Inl a)
      then show ?thesis using v event by (auto simp: accounted_def)
    next
      case (Inr order)
      show ?thesis
        unfolding Inr sum.case
        by (rule returns_mono [OF work]) (auto simp: fail finish intro: accounted_append split: sum.split exn.split)
    qed
  qed
qed

lemma returns_claim_done:
  "returns (claim g ev) (\<lambda>t c. c_status c = ALREADY_DONE \<longrightarrow>
     (RedisGet (Keys_event_guard ev), RStr (Some DONE)) \<in> set t)"
  by (auto simp: returns_def claim_def claim_verdict_def Let_def prog_simps answer_Inr
      split: sum.splits)

lemma order_handle_accounted:
  "returns (order_handle C g r) (\<lambda>t x. x = COMMIT \<longrightarrow> accounted C r t)"
proof (cases "validate_event (lib C) (r_value r)")
  case (Inl exc)
  then show ?thesis
    unfolding order_handle_def Let_def
    by (auto simp: accounted_def intro!: returns_seqP [OF returns_to_dlq])
next
  case (Inr event)
  have tomb: "accounted C r t" if "done_in event t" for t
    using that Inr by (auto simp: accounted_def)
  have gate: "returns (case c_status c of
      ACQUIRED \<Rightarrow> p | ALREADY_DONE \<Rightarrow> seqP a (Return COMMIT) | IN_PROGRESS \<Rightarrow> seqP b (Return REDELIVER))
      (\<lambda>t' x. x = COMMIT \<longrightarrow> accounted C r (t @ t'))"
    if "c_status c = ALREADY_DONE \<longrightarrow> done_in event t"
      and "returns p (\<lambda>t x. x = COMMIT \<longrightarrow> accounted C r t)" for c p a b t
    using that
    by (auto simp: returns_conv conv_simps intro: tomb in_append accounted_append split: claim_status.split)
  have "returns (bindP (claim g (ev_event_id event)) (\<lambda>c. case c_status c of
        ALREADY_DONE \<Rightarrow> seqP (incr_stat STAT_DUPLICATES 1) (Return COMMIT)
      | IN_PROGRESS \<Rightarrow> seqP (sleep (1 / 4)) (Return REDELIVER)
      | ACQUIRED \<Rightarrow> try_except is_Exception (process C g event r (get_attempt (r_headers r)) c)
          (\<lambda>e. seqP (release g c) (Raise e)))) (\<lambda>t x. x = COMMIT \<longrightarrow> accounted C r t)"
  proof (rule returns_bindP [OF returns_claim_done], rule gate)
    show "returns (try_except is_Exception (process C g event r (get_attempt (r_headers r)) c)
          (\<lambda>e. seqP (release g c) (Raise e))) (\<lambda>t x. x = COMMIT \<longrightarrow> accounted C r t)" for c
      by (rule returns_try_except [OF returns_process]) (auto simp: Inr returns_conv conv_simps)
  qed (simp add: done_in_def)
  then have "returns (seqP (incr_stat STAT_CONSUMED 1) (bindP (claim g (ev_event_id event)) (\<lambda>c. case c_status c of
        ALREADY_DONE \<Rightarrow> seqP (incr_stat STAT_DUPLICATES 1) (Return COMMIT)
      | IN_PROGRESS \<Rightarrow> seqP (sleep (1 / 4)) (Return REDELIVER)
      | ACQUIRED \<Rightarrow> try_except is_Exception (process C g event r (get_attempt (r_headers r)) c)
          (\<lambda>e. seqP (release g c) (Raise e))))) (\<lambda>t x. x = COMMIT \<longrightarrow> accounted C r t)"
    by (rule returns_seqP [OF returns_True, OF returns_mono]) (blast intro: accounted_append)
  then show ?thesis
    by (simp only: order_handle_def Let_def Inr sum.case)
qed

section \<open>Properties\<close>

text \<open>
  C4. At-least-once: the processor commits an offset only directly after its handler returned
  \<open>COMMIT\<close> for the record just before that offset, a record some earlier poll returned for that
  partition, and within that handler run the record was accounted for: its dead letter or its
  retry was accepted by Kafka, its event was found tombstoned, its order was found completed or
  failed, or its order was moved to \<open>COMPLETED\<close> and that was flushed and committed.
\<close>

theorem processor_commits_accounted:
  assumes "conv (order_consumer_run C polls) (t1 @ (CommitOffset tp off, x) # t3) v"
  shows "\<exists>ta t2 r. t1 = ta @ t2 \<and> off = r_offset r + 1 \<and> polled ta tp r
     \<and> conv (order_handle C (IdempotencyGuard (cfg C) None None) r) t2 (Inr COMMIT)
     \<and> accounted C r t2"
proof -
  obtain ta t2 r where "t1 = ta @ t2" "off = r_offset r + 1" "polled ta tp r"
    "conv (order_handle C (IdempotencyGuard (cfg C) None None) r) t2 (Inr COMMIT)"
    using processor.run_commit [OF assms [unfolded order_consumer_run_def]] by (elim exE conjE)
  with order_handle_accounted show ?thesis unfolding returns_conv by metis
qed

definition demo_record :: consumer_record where
  "demo_record = \<lparr>r_topic = lit ''orders.created'', r_partition = 0, r_offset = 41, r_key = None,
     r_value = JNull, r_headers = []\<rparr>"

definition demo_event_record :: consumer_record where
  "demo_event_record = demo_record\<lparr>r_value := JObj []\<rparr>"

definition demo_poll :: "resp list" where
  "demo_poll = [RUnit, RBool False, RBatch [((lit ''orders.created'', 0), [demo_record])],
     RBool False, RTime 0, RUnit, RUnit, RUnit]"

text \<open>The processor's loop with its options left open, for evaluation.\<close>

abbreviation demo_loop :: "consumer_options \<Rightarrow> nat \<Rightarrow> bool io" where
  "demo_loop opts \<equiv> consumer_run opts (order_handle demo_ctx (IdempotencyGuard default_settings None None))"

lemma demo_loop:
  "order_consumer_run demo_ctx polls =
     demo_loop (build_consumer default_settings (topic_orders default_settings) (group_processors default_settings)) polls"
  by (simp add: order_consumer_run_def demo_ctx_def)

lemma demo_poll_trail:
  "\<exists>t1 t3 v. conv (order_consumer_run demo_ctx 1)
     (t1 @ (CommitOffset (lit ''orders.created'', 0) 42, RUnit) # t3) v"
proof -
  let ?t = "trail scripted (order_consumer_run demo_ctx 1) demo_poll"
  have "6 < length (trail scripted (demo_loop opts 1) demo_poll)"
    "trail scripted (demo_loop opts 1) demo_poll ! 6 = (CommitOffset (lit ''orders.created'', 0) 42, RUnit)" for opts
    by code_simp+
  then have "6 < length ?t" "?t ! 6 = (CommitOffset (lit ''orders.created'', 0) 42, RUnit)"
    unfolding demo_loop by blast+
  then show ?thesis by (rule conv_scripted_at)
qed

theorem processor_commits_accounted_witness:
  "\<exists>t1 t3 v ta t2 r. conv (order_consumer_run demo_ctx 1)
      (t1 @ (CommitOffset (lit ''orders.created'', 0) 42, RUnit) # t3) v
    \<and> t1 = ta @ t2 \<and> 42 = r_offset r + 1 \<and> polled ta (lit ''orders.created'', 0) r \<and> accounted demo_ctx r t2"
  using demo_poll_trail processor_commits_accounted [of demo_ctx 1] by metis

end
