(* ===== verification/OrderSafety.thy ===== *)
theory OrderSafety
  imports OrderConsumer
begin

text \<open>
  The order of effects inside the main processor's handler: what must have happened before the
  guard's tombstone is written, before a row is moved, and before anything durable is touched;
  what is sent to the retry topic; how a failing run ends.
\<close>

section \<open>Guarded requests\<close>

lemma guarded_prefix:
  assumes "\<And>a b. J b \<Longrightarrow> J (a @ b)" and "guarded \<phi> J t p"
  shows "guarded \<phi> J (a @ t) p"
  using assms(2) by (induction p arbitrary: t) (auto intro: assms(1))

text \<open>Once a part that sends none of the requests in question has established \<open>J\<close>, the rest is free.\<close>

lemma guarded_after:
  assumes "only (\<lambda>q. \<not> \<phi> q) p" and "returns p (\<lambda>t x. J t)"
    and J: "\<And>a b. J a \<Longrightarrow> J (a @ b)" "\<And>a b. J b \<Longrightarrow> J (a @ b)"
  shows "guarded \<phi> J t (bindP p f)"
proof (rule guarded_bindP [OF guarded_only [OF assms(1)]])
  fix t' x
  assume "conv p t' (Inr x)"
  then have "J (t @ t')" using assms(2) J(2) by (auto simp: returns_conv)
  then show "guarded \<phi> J (t @ t') (f x)" by (rule guarded_met [rotated]) (rule J(1))
qed

lemmas guarded_after_seq = guarded_after [where f = "\<lambda>_. q" for q, folded seqP_def]

lemma guarded_session_scope:
  assumes "\<And>s. guarded \<phi> J (t @ [(DbOpen, RSid s)]) (body s)"
    and "\<not> \<phi> DbOpen" and "\<And>s. \<not> \<phi> (DbCommit s) \<and> \<not> \<phi> (DbRollback s) \<and> \<not> \<phi> (DbClose s)"
  shows "guarded \<phi> J t (session_scope body)"
  unfolding session_scope_def
proof (rule guarded_bindP)
  show "guarded \<phi> J t (ask get_sid DbOpen)" using assms(2) by (intro guarded_only) simp
next
  fix t' s
  assume "conv (ask get_sid DbOpen) t' (Inr s)"
  then have t': "t' = [(DbOpen, RSid s)]" by (auto simp: conv_ask answer_Inr dest: sym)
  show "guarded \<phi> J (t @ t') (try_finally
         (try_except is_Exception
           (bindP (body s) (\<lambda>x. seqP (ask get_unit (DbCommit s)) (Return x)))
           (\<lambda>e. seqP (ask get_unit (DbRollback s)) (Raise e)))
         (ask get_unit (DbClose s)))"
    using assms(1) [of s] assms(3) [of s] unfolding t'
    by (intro guarded_try_finally guarded_try_except guarded_bindP) (assumption | rule guarded_only, auto)+
qed

text \<open>Which requests touch the database, and which complete a guard.\<close>

fun is_db :: "req \<Rightarrow> bool" where
  "is_db DbOpen = True"
| "is_db (DbGet _ _) = True"
| "is_db (DbFlush _ _) = True"
| "is_db (DbCommit _) = True"
| "is_db (DbRollback _) = True"
| "is_db (DbClose _) = True"
| "is_db _ = False"

fun is_flush :: "req \<Rightarrow> bool" where
  "is_flush (DbFlush _ _) = True"
| "is_flush _ = False"

fun is_complete :: "req \<Rightarrow> bool" where
  "is_complete (RedisEval COMPLETE_LUA _ _ _) = True"
| "is_complete _ = False"

definition calm :: "req \<Rightarrow> bool" where
  "calm q \<longleftrightarrow> \<not> is_db q \<and> \<not> is_send q \<and> \<not> is_complete q"

lemma calm_parts:
  "only calm (incr_stat f n)" "only calm (sleep d)" "only calm (put_order C o')"
  "only calm (claim g ev)" "only calm (release g c)" "only calm (fulfil C event)"
  "only calm (backoff_delay S n)" "only calm (build L a nb err org)" "only calm (ask get_float TimeTime)"
proof -
  show "only calm (incr_stat f n)" "only calm (sleep d)" "only calm (put_order C o')"
      "only calm (ask get_float TimeTime)"
    by (simp_all add: incr_stat_def sleep_def put_order_def calm_def)
  show "only calm (claim g ev)"
    by (auto simp: claim_def claim_verdict_def Let_def calm_def)
  show "only calm (release g c)"
    by (auto simp: release_def calm_def)
  show "only calm (fulfil C event)"
    by (auto simp: fulfil_def sleep_def calm_def split: option.split)
  show "only calm (backoff_delay S n)"
    by (auto simp: backoff_delay_def calm_def)
  show "only calm (build L a nb err org)"
    by (auto simp: build_def Let_def calm_def split: option.split)
qed

text \<open>Conversations in which no script was sent: the guard's claim is neither completed nor released.\<close>

fun is_eval :: "req \<Rightarrow> bool" where
  "is_eval (RedisEval _ _ _ _) = True"
| "is_eval _ = False"

definition unscripted :: "trace \<Rightarrow> bool" where
  "unscripted t \<longleftrightarrow> (\<forall>x \<in> set t. \<not> is_eval (fst x))"

lemma unscripted_append [simp]: "unscripted (a @ b) \<longleftrightarrow> unscripted a \<and> unscripted b"
  by (auto simp: unscripted_def)

lemma unscripted_simps [simp]: "unscripted []" "unscripted ((q, r) # t) \<longleftrightarrow> \<not> is_eval q \<and> unscripted t"
  by (auto simp: unscripted_def)

lemma unscripted_conv: "only (\<lambda>q. \<not> is_eval q) p \<Longrightarrow> conv p t v \<Longrightarrow> unscripted t"
  using only_conv [of "\<lambda>q. \<not> is_eval q" p t v] by (fastforce simp: unscripted_def)

lemma no_eval_parts:
  "only (\<lambda>q. \<not> is_eval q) (incr_stat f n)" "only (\<lambda>q. \<not> is_eval q) (put_order C o')"
  "only (\<lambda>q. \<not> is_eval q) (claim g ev)" "only (\<lambda>q. \<not> is_eval q) (fulfil C event)"
  "only (\<lambda>q. \<not> is_eval q) (backoff_delay S n)" "only (\<lambda>q. \<not> is_eval q) (get_order s i)"
  "only (\<lambda>q. \<not> is_eval q) (transition s row to note att why)"
  by (auto simp: incr_stat_def put_order_def claim_def claim_verdict_def fulfil_def sleep_def backoff_delay_def
      get_order_def transition_def utcnow_def Let_def split: option.split)

lemmas unscripted_parts = no_eval_parts [THEN unscripted_conv]

lemma guarded_calm:
  assumes "only calm p" and "\<And>q. \<phi> q \<Longrightarrow> \<not> calm q"
  shows "guarded \<phi> J t p"
  by (rule guarded_only, rule only_mono [OF assms(1)]) (use assms(2) in blast)

text \<open>
  In the handler of an event, everything but calm requests happens inside \<open>_process\<close>, after a
  claim that was acquired.
\<close>

lemma guarded_order_handle:
  assumes event: "validate_event (lib C) (r_value r) = Inr event"
    and calm: "\<And>q. \<phi> q \<Longrightarrow> \<not> calm q"
    and proc: "\<And>t t' c. conv (claim g (ev_event_id event)) t (Inr c) \<Longrightarrow> c_status c = ACQUIRED \<Longrightarrow>
      unscripted t' \<Longrightarrow> guarded \<phi> J (t' @ t) (process C g event r (get_attempt (r_headers r)) c)"
  shows "guarded \<phi> J [] (order_handle C g r)"
proof -
  note gc = guarded_calm [OF _ calm]
  have "guarded \<phi> J (t' @ t) (case c_status c of
        ALREADY_DONE \<Rightarrow> seqP (incr_stat STAT_DUPLICATES 1) (Return COMMIT)
      | IN_PROGRESS \<Rightarrow> seqP (sleep (1 / 4)) (Return REDELIVER)
      | ACQUIRED \<Rightarrow> try_except is_Exception (process C g event r (get_attempt (r_headers r)) c)
          (\<lambda>e. seqP (release g c) (Raise e)))"
    if "conv (claim g (ev_event_id event)) t (Inr c)" "unscripted t'" for t' t c
  proof (cases "c_status c")
    case ACQUIRED
    have "guarded \<phi> J (t' @ t) (try_except is_Exception (process C g event r (get_attempt (r_headers r)) c)
          (\<lambda>e. seqP (release g c) (Raise e)))"
      by (rule guarded_try_except [OF proc [OF that(1) ACQUIRED that(2)]]) (auto intro!: gc calm_parts)
    then show ?thesis using ACQUIRED by simp
  qed (auto intro!: gc calm_parts)
  then have "guarded \<phi> J [] (seqP (incr_stat STAT_CONSUMED 1) (bindP (claim g (ev_event_id event)) (\<lambda>c.
      case c_status c of
        ALREADY_DONE \<Rightarrow> seqP (incr_stat STAT_DUPLICATES 1) (Return COMMIT)
      | IN_PROGRESS \<Rightarrow> seqP (sleep (1 / 4)) (Return REDELIVER)
      | ACQUIRED \<Rightarrow> try_except is_Exception (process C g event r (get_attempt (r_headers r)) c)
          (\<lambda>e. seqP (release g c) (Raise e)))))"
    by (intro guarded_seqP guarded_bindP) (auto intro: gc calm_parts dest: unscripted_parts)
  then show ?thesis by (simp add: order_handle_def event)
qed

section \<open>The claim comes first\<close>

definition won_claim :: "str \<Rightarrow> trace \<Rightarrow> bool" where
  "won_claim ev t \<longleftrightarrow>
     (\<exists>token ttl. (RedisSet (Keys_event_guard ev) token True (Some ttl), RBool True) \<in> set t)"

lemma won_claim_append: "won_claim ev a \<Longrightarrow> won_claim ev (a @ b)" "won_claim ev b \<Longrightarrow> won_claim ev (a @ b)"
  by (auto simp: won_claim_def)

lemma returns_claim_acquired:
  "returns (claim g ev) (\<lambda>t c. c_status c = ACQUIRED \<longrightarrow> won_claim ev t)"
  unfolding won_claim_def
  by (auto simp: returns_def claim_def claim_verdict_def Let_def prog_simps answer_Inr split: sum.splits)

lemma order_handle_claims_first:
  assumes "validate_event (lib C) (r_value r) = Inr event"
  shows "guarded (\<lambda>q. \<not> calm q) (won_claim (ev_event_id event)) [] (order_handle C g r)"
proof (rule guarded_order_handle [OF assms])
  fix t t' c
  assume "conv (claim g (ev_event_id event)) t (Inr c)" and "c_status c = ACQUIRED"
  then have "won_claim (ev_event_id event) t" using returns_claim_acquired by (auto simp: returns_conv)
  then show "guarded (\<lambda>q. \<not> calm q) (won_claim (ev_event_id event)) (t' @ t)
      (process C g event r (get_attempt (r_headers r)) c)"
    by (intro guarded_met) (auto intro: won_claim_append)
qed simp

section \<open>Settled orders are not moved\<close>

definition open_in :: "order_event \<Rightarrow> trace \<Rightarrow> bool" where
  "open_in event t \<longleftrightarrow>
     (\<exists>s o'. (DbGet s (ev_order_id event), ROrder (Some o')) \<in> set t \<and> o_status o' \<notin> TERMINAL_STATUSES)"

lemma open_in_append: "open_in ev a \<Longrightarrow> open_in ev (a @ b)" "open_in ev b \<Longrightarrow> open_in ev (a @ b)"
  unfolding open_in_def by auto

text \<open>The first session: a row is moved only when it was read and found open.\<close>

lemma conv_get_order: "conv (get_order s i) t (Inr row) \<Longrightarrow> t = [(DbGet s i, ROrder row)]"
  using returns_get_order by (auto simp: returns_conv)

lemma no_flush:
  "only (\<lambda>q. \<not> is_flush q) (complete g c)" "only (\<lambda>q. \<not> is_flush q) (to_dlq C r att error)"
  "only (\<lambda>q. \<not> is_flush q) (incr_stat f n)"
  by (auto simp: complete_def to_dlq_def publish_raw_def get_producer_def build_def Let_def incr_stat_def
      split: option.split)

lemma begin_open:
  "guarded is_flush (open_in event) t (begin_processing C g event r att c)"
  unfolding begin_processing_def Let_def
proof (intro guarded_session_scope guarded_bindP)
  fix s t' row
  assume "conv (get_order s (ev_order_id event)) t' (Inr row)"
  then have t': "t' = [(DbGet s (ev_order_id event), ROrder row)]" by (rule conv_get_order)
  show "guarded is_flush (open_in event) ((t @ [(DbOpen, RSid s)]) @ t')
     (case row of
        None \<Rightarrow> seqP (complete g c)
              (seqP (to_dlq C r att (lit ''no such order '' @ uuid_str (ev_order_id event)))
               (Return (Inl COMMIT)))
      | Some o' \<Rightarrow>
          if o_status o' \<in> TERMINAL_STATUSES
          then seqP (complete g c) (seqP (incr_stat STAT_DUPLICATES 1) (Return (Inl COMMIT)))
          else bindP (transition s (Some o') PROCESSING
                (Some (lit ''attempt '' @ str_int att)) (Some att) None) (\<lambda>o''. Return (Inr o'')))"
  proof (cases row)
    case None
    then show ?thesis by (auto intro!: guarded_only no_flush)
  next
    case (Some o')
    show ?thesis
    proof (cases "o_status o' \<in> TERMINAL_STATUSES")
      case True
      then show ?thesis using Some by (auto intro!: guarded_only no_flush)
    next
      case False
      then have "open_in event ((t @ [(DbOpen, RSid s)]) @ t')" using Some t' by (auto simp: open_in_def)
      then show ?thesis by (rule guarded_met [rotated]) (rule open_in_append(1))
    qed
  qed
qed (auto simp: get_order_def intro: guarded_only)

lemma returns_begin_open:
  "returns (begin_processing C g event r att c) (\<lambda>t v. \<forall>o'. v = Inr o' \<longrightarrow> open_in event t)"
proof -
  have body: "returns (bindP (get_order s (ev_order_id event)) f) (\<lambda>t v. \<forall>o'. v = Inr o' \<longrightarrow> open_in event t)"
    if "\<And>row. (\<exists>o'. row = Some o' \<and> o_status o' \<notin> TERMINAL_STATUSES)
        \<or> returns (f row) (\<lambda>t v. \<exists>a. v = Inl a)" for s f
  proof (rule returns_bindP [OF returns_get_order])
    fix t row
    assume t: "t = [(DbGet s (ev_order_id event), ROrder row)]"
    from that [of row] show "returns (f row) (\<lambda>t' v. \<forall>o'. v = Inr o' \<longrightarrow> open_in event (t @ t'))"
      by (auto simp: t open_in_def returns_conv)
  qed
  have "returns (begin_processing C g event r att c) (\<lambda>t v. \<exists>s t' rc rx.
      t = (DbOpen, RSid s) # t' @ [(DbCommit s, rc), (DbClose s, rx)] \<and> ok_resp rc \<and> ok_resp rx
      \<and> (\<forall>o'. v = Inr o' \<longrightarrow> open_in event t'))"
    unfolding begin_processing_def Let_def
    by (rule returns_session_scope, rule body) (auto simp: returns_conv conv_simps split: option.split)
  then show ?thesis
    by (rule returns_mono) (metis append_Cons append_Nil open_in_append)
qed

text \<open>
  \<open>_process\<close> as its first session and the rest: a rest that keeps a request guarded keeps it so in
  the whole.
\<close>

lemma guarded_process:
  assumes first: "guarded \<phi> J t (begin_processing C g event r att c)"
    and calm: "\<And>q. \<phi> q \<Longrightarrow> \<not> calm q"
    and fail: "\<And>t' o' error retryable. conv (begin_processing C g event r att c) t' (Inr (Inr o')) \<Longrightarrow>
      \<forall>u. unscripted u \<longrightarrow> guarded \<phi> J (t @ t' @ u) (fail_event C g event r att c error retryable)"
    and finish: "\<And>t' o'. conv (begin_processing C g event r att c) t' (Inr (Inr o')) \<Longrightarrow>
      \<forall>u. unscripted u \<longrightarrow> guarded \<phi> J (t @ t' @ u) (finish_processing C g event att c)"
  shows "guarded \<phi> J t (process C g event r att c)"
  unfolding process_def
proof (rule guarded_bindP [OF first])
  fix t' and v :: "ack + order"
  assume begun: "conv (begin_processing C g event r att c) t' (Inr v)"
  note gc = guarded_calm [OF _ calm]
  show "guarded \<phi> J (t @ t') (case v of Inl a \<Rightarrow> Return a
      | Inr order \<Rightarrow> seqP (put_order C order) (bindP (outcome (fulfil C event)) (\<lambda>v.
            case v of Inl (PermanentError msg) \<Rightarrow> fail_event C g event r att c msg False
              | Inl (TransientError msg) \<Rightarrow> fail_event C g event r att c msg True
              | Inl e \<Rightarrow> Raise e
              | Inr _ \<Rightarrow> finish_processing C g event att c)))"
  proof (cases v)
    case (Inr order)
    note rest = fail [OF begun [unfolded Inr], rule_format] finish [OF begun [unfolded Inr], rule_format]
    have "guarded \<phi> J (t @ t' @ u) (case w of Inl (PermanentError msg) \<Rightarrow> fail_event C g event r att c msg False
              | Inl (TransientError msg) \<Rightarrow> fail_event C g event r att c msg True
              | Inl e \<Rightarrow> Raise e
              | Inr _ \<Rightarrow> finish_processing C g event att c)" if "unscripted u" for u and w :: "exn + unit"
      using that by (auto simp: rest split: sum.split exn.split)
    then show ?thesis
      unfolding Inr sum.case
      by (intro guarded_seqP guarded_bindP) (auto intro: gc calm_parts simp: conv_outcome dest!: unscripted_parts)
  qed simp
qed

lemma is_flush_not_calm: "is_flush q \<Longrightarrow> \<not> calm q"
  by (cases q) (auto simp: calm_def)

lemma order_handle_moves_open:
  assumes "validate_event (lib C) (r_value r) = Inr event"
  shows "guarded is_flush (open_in event) [] (order_handle C g r)"
proof (rule guarded_order_handle [OF assms is_flush_not_calm])
  fix t t' c
  have met: "guarded is_flush (open_in event) (u @ u' @ w) p"
    if "conv (begin_processing C g event r (get_attempt (r_headers r)) c) u' (Inr (Inr o'))"
    for u u' w o' and p :: "ack io"
  proof -
    have "open_in event u'" using that returns_begin_open by (auto simp: returns_conv)
    then show ?thesis by (intro guarded_met) (auto intro: open_in_append)
  qed
  show "guarded is_flush (open_in event) (t' @ t) (process C g event r (get_attempt (r_headers r)) c)"
    by (rule guarded_process [OF begin_open is_flush_not_calm])
      (use met [of _ _ "t' @ t"] in \<open>auto simp: append_assoc\<close>)
qed

section \<open>What the tombstone rests on\<close>

definition missing_in :: "order_event \<Rightarrow> trace \<Rightarrow> bool" where
  "missing_in event t \<longleftrightarrow> (\<exists>s. (DbGet s (ev_order_id event), ROrder None) \<in> set t)"

text \<open>What is known when the guard of an event is completed.\<close>

definition concluded :: "ctx \<Rightarrow> consumer_record \<Rightarrow> order_event \<Rightarrow> trace \<Rightarrow> bool" where
  "concluded C r event t \<longleftrightarrow>
     completed_in event t \<or> settled_in event t \<or> dead_lettered_in C r t \<or> missing_in event t"

lemma concluded_append:
  "concluded C r ev a \<Longrightarrow> concluded C r ev (a @ b)" "concluded C r ev b \<Longrightarrow> concluded C r ev (a @ b)"
  unfolding concluded_def by (auto simp: missing_in_def intro: in_append)

lemma is_complete_not_calm: "is_complete q \<Longrightarrow> \<not> calm q"
  by (simp add: calm_def)

lemma no_complete:
  "only (\<lambda>q. \<not> is_complete q) (get_order s i)" "only (\<lambda>q. \<not> is_complete q) (to_dlq C r att error)"
  "only (\<lambda>q. \<not> is_complete q) (transition s row to note n why)"
  "only (\<lambda>q. \<not> is_complete q) (put_order C o')"
  by (auto simp: get_order_def to_dlq_def publish_raw_def get_producer_def build_def transition_def
      utcnow_def put_order_def Let_def split: option.split)

lemma no_complete_scope:
  "(\<And>s. only (\<lambda>q. \<not> is_complete q) (body s)) \<Longrightarrow> only (\<lambda>q. \<not> is_complete q) (session_scope body)"
  by (rule only_session_scope) auto

lemma begin_concluded:
  "guarded is_complete (concluded C r event) t (begin_processing C g event r att c)"
  unfolding begin_processing_def Let_def
proof (intro guarded_session_scope guarded_bindP)
  fix s t' row
  assume "conv (get_order s (ev_order_id event)) t' (Inr row)"
  then have t': "t' = [(DbGet s (ev_order_id event), ROrder row)]" by (rule conv_get_order)
  show "guarded is_complete (concluded C r event) ((t @ [(DbOpen, RSid s)]) @ t')
     (case row of
        None \<Rightarrow> seqP (complete g c)
              (seqP (to_dlq C r att (lit ''no such order '' @ uuid_str (ev_order_id event)))
               (Return (Inl COMMIT)))
      | Some o' \<Rightarrow>
          if o_status o' \<in> TERMINAL_STATUSES
          then seqP (complete g c) (seqP (incr_stat STAT_DUPLICATES 1) (Return (Inl COMMIT)))
          else bindP (transition s (Some o') PROCESSING
                (Some (lit ''attempt '' @ str_int att)) (Some att) None) (\<lambda>o''. Return (Inr o'')))"
  proof (cases "\<exists>o'. row = Some o' \<and> o_status o' \<notin> TERMINAL_STATUSES")
    case True
    then show ?thesis by (auto intro!: guarded_only no_complete)
  next
    case False
    then have "concluded C r event ((t @ [(DbOpen, RSid s)]) @ t')"
      using t' by (cases row) (auto simp: concluded_def missing_in_def settled_in_def)
    then show ?thesis by (rule guarded_met [rotated]) (rule concluded_append(1))
  qed
qed (auto simp: get_order_def intro: guarded_only)

lemma fail_concluded:
  "guarded is_complete (concluded C r event) t (fail_event C g event r att c error retryable)"
proof -
  have retry: "guarded is_complete (concluded C r event) t (fail_retry C g event r att c error)"
    unfolding fail_retry_def Let_def
    by (rule guarded_only) (auto simp: publish_raw_def get_producer_def release_def incr_stat_def
        backoff_delay_def build_def Let_def split: option.split intro!: no_complete no_complete_scope)
  have terminal: "guarded is_complete (concluded C r event) t (fail_terminal C g event r att c error retryable)"
    unfolding fail_terminal_def Let_def
    by (intro guarded_bindP guarded_seqP [where p = "case _ of None \<Rightarrow> _ | Some x \<Rightarrow> _ x"] guarded_after_seq
        concluded_append returns_mono [OF returns_to_dlq])
      (auto simp: concluded_def intro!: guarded_only no_complete no_complete_scope split: option.split)
  show ?thesis using retry terminal by (simp add: fail_event_def Let_def)
qed

lemma finish_concluded:
  "guarded is_complete (concluded C r event) t (finish_processing C g event att c)"
  unfolding finish_processing_def Let_def
  by (intro guarded_after concluded_append returns_mono [OF returns_move])
    (auto simp: concluded_def completed_in_def intro!: no_complete no_complete_scope)

lemma order_handle_concludes:
  assumes "validate_event (lib C) (r_value r) = Inr event"
  shows "guarded is_complete (concluded C r event) [] (order_handle C g r)"
proof (rule guarded_order_handle [OF assms is_complete_not_calm])
  show "guarded is_complete (concluded C r event) (t' @ t) (process C g event r (get_attempt (r_headers r)) c)"
    for t t' c
    by (rule guarded_process [OF begin_concluded is_complete_not_calm])
      (auto intro: fail_concluded finish_concluded)
qed simp

section \<open>The audit trail\<close>

lemma keeps_calm: "only calm p \<Longrightarrow> keeps I p"
  by (rule keeps_only, erule only_mono) (auto simp: calm_def)

lemma keeps_parts:
  "keeps I (to_dlq C r att error)" "keeps I (complete g c)"
  by (auto intro!: keeps_only simp: to_dlq_def publish_raw_def get_producer_def build_def
      complete_def Let_def split: option.split)

lemma keeps_publish_raw: "keeps I (publish_raw C topic key val hs)"
  by (auto intro!: keeps_only simp: publish_raw_def get_producer_def)

context row_invariant
begin

lemmas keeps_steps = keeps_Return keeps_session_scope keeps_get_order keeps_transition keeps_parts keeps_publish_raw
  calm_parts [THEN keeps_calm]

lemma process_keeps:
  assumes att: "A att"
  shows "keeps I (process C g event r att c)"
proof -
  have first: "keeps I (begin_processing C g event r att c)"
    unfolding begin_processing_def Let_def using att
    by (intro keeps_session_scope keeps_get_order)
      (auto intro!: keeps_steps keeps_bindP keeps_seqP split: option.split)
  have retry: "keeps I (fail_retry C g event r att c error)" for error
    unfolding fail_retry_def Let_def using att
    by (intro keeps_bindP [where p = "session_scope _"] keeps_session_scope
        keeps_get_order keeps_transition keeps_bindP [where p = "backoff_delay _ _"]
        keeps_bindP [where p = "ask _ _"] keeps_bindP [where p = "build _ _ _ _ _"]
        keeps_seqP keeps_steps) auto
  have terminal: "keeps I (fail_terminal C g event r att c error retryable)" for error retryable
    unfolding fail_terminal_def Let_def using att
    by (intro keeps_bindP [where p = "session_scope _"] keeps_session_scope
        keeps_get_order keeps_seqP)
      (auto intro!: keeps_steps keeps_bindP split: option.split)
  have finish: "keeps I (finish_processing C g event att c)"
    unfolding finish_processing_def Let_def using att
    by (intro keeps_bindP [where p = "session_scope _"] keeps_session_scope
        keeps_get_order keeps_transition keeps_seqP keeps_steps) auto
  show ?thesis
    unfolding process_def
    by (auto intro!: first retry terminal finish keeps_steps keeps_bindP keeps_seqP keeps_outcome
        simp: fail_event_def Let_def split: sum.split exn.split)
qed

lemma order_handle_keeps: "A (get_attempt (r_headers r)) \<Longrightarrow> keeps I (order_handle C g r)"
  unfolding order_handle_def Let_def
  by (auto intro!: process_keeps keeps_steps keeps_bindP keeps_seqP keeps_try_except
      split: sum.split claim_status.split)

end

lemma keeps_run:
  assumes "\<And>r. keeps I (handle r)"
  shows "keeps I (consumer_run opts handle polls)"
proof -
  have ask: "keeps I (ask get q)" if "\<And>s o'. q \<noteq> DbFlush s (SaveOrder o')" for get :: "resp \<Rightarrow> 'z option" and q
    using that by (intro keeps_only) simp
  have safe: "keeps I (safe_handle handle r)" for r
    unfolding safe_handle_def sleep_def
    by (auto intro!: assms keeps_try_except keeps_seqP ask)
  have records: "keeps I (handle_records handle tp rs)" for tp rs
    by (induction rs) (auto intro!: safe keeps_bindP keeps_seqP ask)
  have batch: "keeps I (handle_batch handle b)" for b
    by (induction b) (auto intro!: records keeps_bindP)
  have poll: "keeps I (poll_loop handle polls)"
    by (induction polls) (auto intro!: batch keeps_bindP ask)
  show ?thesis
    unfolding consumer_run_def by (intro keeps_seqP keeps_try_finally poll) (auto intro: ask)
qed

section \<open>How a failing run ends\<close>

lemma claim_won:
  "always (claim g ev) (\<lambda>t v. case v of
     Inl e \<Rightarrow> \<not> won_claim ev t
   | Inr c \<Rightarrow> c_key c = Keys_event_guard ev \<and>
       (if c_status c = ACQUIRED
        then (RedisSet (c_key c) (c_token c) True (Some (g_lock_ttl g)), RBool True) \<in> set t
        else \<not> won_claim ev t))"
  unfolding won_claim_def
  by (auto simp: claim_def claim_verdict_def Let_def prog_simps answer_Inr split: sum.splits)

lemmas claim_wonD = claim_won [unfolded always_conv, rule_format]

lemma conv_incr_stat: "conv (incr_stat f n) t v \<Longrightarrow> \<not> won_claim ev t \<and> (v = Inr () \<or> v = Inl CancelledError)"
proof -
  have "always (incr_stat f n) (\<lambda>t v. \<not> won_claim ev t \<and> (v = Inr () \<or> v = Inl CancelledError))"
    by (simp add: incr_stat_def prog_simps won_claim_def settled_def)
  then show "conv (incr_stat f n) t v \<Longrightarrow> \<not> won_claim ev t \<and> (v = Inr () \<or> v = Inl CancelledError)"
    by (simp add: always_conv)
qed

lemma won_claim_simp: "won_claim ev (a @ b) \<longleftrightarrow> won_claim ev a \<or> won_claim ev b"
  by (auto simp: won_claim_def)

lemma failed_release:
  assumes "conv (try_except is_Exception p (\<lambda>e. seqP (release g c) (Raise e :: ack io))) t (Inl e)"
    and "e \<noteq> CancelledError"
  shows "\<exists>t' x. t = t' @ [(RedisEval RELEASE_LUA (c_key c) (c_token c) None, x)]"
  using assms
  by (fastforce simp: conv_try_except conv_seqP release_def conv_bindP conv_ask is_Exception_def)

lemma order_handle_releases:
  assumes event: "validate_event (lib C) (r_value r) = Inr event"
    and run: "conv (order_handle C g r) t (Inl e)" and "e \<noteq> CancelledError"
    and won: "won_claim (ev_event_id event) t"
  shows "\<exists>t' token x. t = t' @ [(RedisEval RELEASE_LUA (Keys_event_guard (ev_event_id event)) token None, x)]
     \<and> (RedisSet (Keys_event_guard (ev_event_id event)) token True (Some (g_lock_ttl g)), RBool True) \<in> set t'"
proof -
  let ?ev = "ev_event_id event"
  let ?gate = "\<lambda>c. case c_status c of
      ALREADY_DONE \<Rightarrow> seqP (incr_stat STAT_DUPLICATES 1) (Return COMMIT)
    | IN_PROGRESS \<Rightarrow> seqP (sleep (1 / 4)) (Return REDELIVER)
    | ACQUIRED \<Rightarrow> try_except is_Exception (process C g event r (get_attempt (r_headers r)) c)
        (\<lambda>e. seqP (release g c) (Raise e))"
  have "conv (seqP (incr_stat STAT_CONSUMED 1) (bindP (claim g ?ev) ?gate)) t (Inl e)"
    using run by (simp add: order_handle_def event)
  then obtain t1 t2 where t12: "t = t1 @ t2" "\<not> won_claim ?ev t1" "conv (bindP (claim g ?ev) ?gate) t2 (Inl e)"
    using \<open>e \<noteq> CancelledError\<close> by (auto simp: conv_seqP dest: conv_incr_stat [of _ _ _ _ ?ev])
  have "\<not> won_claim ?ev t2" if "conv (claim g ?ev) t2 (Inl e)"
    using claim_wonD [OF that] by simp
  then obtain t3 c t4 where t34: "t2 = t3 @ t4" "conv (claim g ?ev) t3 (Inr c)" "conv (?gate c) t4 (Inl e)"
    using t12 won by (auto simp: conv_bindP won_claim_simp)
  have c: "c_key c = Keys_event_guard ?ev" "c_status c = ACQUIRED \<Longrightarrow>
      (RedisSet (c_key c) (c_token c) True (Some (g_lock_ttl g)), RBool True) \<in> set t3"
    "c_status c \<noteq> ACQUIRED \<Longrightarrow> \<not> won_claim ?ev t3"
    using claim_wonD [OF t34(2)] by (auto split: if_splits)
  have quiet: "\<not> won_claim ?ev t4" if "c_status c \<noteq> ACQUIRED"
    using that t34(3) \<open>e \<noteq> CancelledError\<close>
    by (cases "c_status c")
      (auto simp: conv_seqP sleep_def conv_ask won_claim_def [of _ "[_]"] dest: conv_incr_stat [of _ _ _ _ ?ev])
  then have "c_status c = ACQUIRED" using c(3) won t12 t34(1) by (auto simp: won_claim_simp)
  moreover from this obtain t' x where "t4 = t' @ [(RedisEval RELEASE_LUA (c_key c) (c_token c) None, x)]"
    using failed_release [of "process C g event r (get_attempt (r_headers r)) c" g c t4 e]
      \<open>e \<noteq> CancelledError\<close> t34(3) by auto
  ultimately show ?thesis
    using c t12(1) t34(1) by (intro exI [of _ "t1 @ t3 @ t'"] exI [of _ "c_token c"] exI [of _ x]) auto
qed

section \<open>What is sent to the retry topic\<close>

definition retry_hop :: "ctx \<Rightarrow> consumer_record \<Rightarrow> str option \<Rightarrow> json \<Rightarrow> kheaders \<Rightarrow> bool" where
  "retry_hop C r key val hs \<longleftrightarrow>
     (\<exists>event. validate_event (lib C) (r_value r) = Inr event \<and> key = Some (uuid_str (ev_order_id event)))
     \<and> val = r_value r
     \<and> get_attempt hs = get_attempt (r_headers r) + 1
     \<and> get_attempt hs \<le> max_attempts (cfg C)"

lemma order_handle_retries:
  assumes "digits_ok (max_attempts (cfg C))" and "topic_retry (cfg C) \<noteq> topic_dlq (cfg C)"
  shows "only (\<lambda>q. \<forall>key val hs. q = KafkaSend (topic_retry (cfg C)) key val hs \<longrightarrow> retry_hop C r key val hs)
    (order_handle C g r)"
proof (rule only_order_handle)
  let ?P = "\<lambda>q. \<forall>key val hs. q = KafkaSend (topic_retry (cfg C)) key val hs \<longrightarrow> retry_hop C r key val hs"
  show spares: "spares ?P" and "spares ?P" by (auto simp: spares_def)
  show "only ?P (to_dlq C r (get_attempt (r_headers r)) e)" for e
    using assms(2) by (intro only_to_dlq [OF spares_fits [OF spares]]) auto
  fix event c error
  assume event: "validate_event (lib C) (r_value r) = Inr event"
    and less: "get_attempt (r_headers r) < max_attempts (cfg C)"
  show "only ?P (fail_retry C g event r (get_attempt (r_headers r)) c error)"
  proof (rule only_fail_retry [OF spares_fits [OF spares]])
    fix t nb hs
    assume "conv (build (lib C) (get_attempt (r_headers r) + 1) nb (Some error) (Some (r_topic r))) t (Inr hs)"
    moreover have "digits_ok (get_attempt (r_headers r) + 1)"
      by (rule digits_ok_mono [OF _ _ assms(1)]) (use less get_attempt_ge_1 [of "r_headers r"] in auto)
    ultimately have "get_attempt hs = get_attempt (r_headers r) + 1"
      using get_attempt_ge_1 [of "r_headers r"] by (intro build_attempt) auto
    then show "?P (KafkaSend (topic_retry (cfg C)) (Some (uuid_str (ev_order_id event))) (r_value r) hs)"
      using event less by (auto simp: retry_hop_def)
  qed
qed

section \<open>An example run\<close>

text \<open>
  Evaluation of the handler on the example record, one answer after the other.
\<close>

lemmas handler_defs = order_handle_def process_def begin_processing_def finish_processing_def
  fail_event_def fail_retry_def fail_terminal_def to_dlq_def publish_raw_def get_producer_def
  claim_def claim_verdict_def complete_def release_def session_scope_def get_order_def transition_def
  utcnow_def put_order_def incr_stat_def fulfil_def validate_def sleep_def backoff_delay_def build_def

lemmas demo_run_simps = handler_defs trail_simps exec_simps Let_def demo_defs demo_record_def
  demo_event_record_def get_attempt_def TERMINAL_STATUSES_def settled_def is_Exception_def
  default_settings_def starts_with_def MAX_ORDER_VALUE_CENTS_def UNKNOWN_SKU_PREFIX_def

abbreviation demo_handle :: "ack io" where
  "demo_handle \<equiv> order_handle demo_ctx (IdempotencyGuard default_settings None None) demo_event_record"

lemma demo_valid: "validate_event (lib demo_ctx) (r_value demo_event_record) = Inr demo_event"
  by (simp add: demo_ctx_def demo_libs_def demo_event_record_def)

lemma demo_retry_run:
  "length (trail scripted demo_handle demo_retry_answers) = 26"
  "trail scripted demo_handle demo_retry_answers ! 3 = (DbOpen, RSid 0)"
  "\<exists>s row. trail scripted demo_handle demo_retry_answers ! 7 = (DbFlush s row, RUnit)"
  "\<exists>key val hs. trail scripted demo_handle demo_retry_answers ! 23
     = (KafkaSend (topic_retry default_settings) key val hs, RUnit)"
  by (simp_all add: demo_run_simps demo_retry_answers_def)

lemma demo_missing_run:
  "length (trail scripted demo_handle demo_missing_answers) = 10"
  "\<exists>tok ttl. trail scripted demo_handle demo_missing_answers ! 5
     = (RedisEval COMPLETE_LUA (Keys_event_guard (lit ''e1'')) tok ttl, RInt 1)"
  by (simp_all add: demo_run_simps demo_missing_answers_def)

lemma demo_outage_run:
  "fst (exec scripted demo_handle demo_outage_answers) = Inl (OSError (lit ''connection refused''))"
  "won_claim (lit ''e1'') (trail scripted demo_handle demo_outage_answers)"
  by (simp_all add: demo_run_simps demo_outage_answers_def won_claim_def)

section \<open>Properties\<close>

text \<open>
  C7. Mutual exclusion of effects: the handler of an event touches the database, publishes, or
  writes the tombstone only after Redis answered this very run's \<open>SET NX\<close> of the event's key with
  success.
\<close>

theorem effects_need_the_claim:
  assumes "validate_event (lib C) (r_value r) = Inr event"
    and "conv (order_handle C g r) (t1 @ (q, x) # t2) v"
    and "is_db q \<or> is_send q \<or> is_complete q"
  shows "won_claim (ev_event_id event) t1"
  using guarded_conv [OF order_handle_claims_first [OF assms(1)] assms(2)] assms(3) by (simp add: calm_def)

theorem effects_need_the_claim_witness:
  "\<exists>t1 t2 v. conv demo_handle (t1 @ (DbOpen, RSid 0) # t2) v \<and> won_claim (lit ''e1'') t1"
proof -
  from demo_retry_run obtain t1 t2 v where c: "conv demo_handle (t1 @ (DbOpen, RSid 0) # t2) v"
    using conv_scripted_at [of 3 demo_handle demo_retry_answers] by auto
  have "won_claim (ev_event_id demo_event) t1"
    by (rule effects_need_the_claim [OF demo_valid c]) simp
  with c show ?thesis by (auto simp: demo_event_def)
qed

text \<open>
  C6. The second line of defence: whatever the guard says, the handler writes a row only after it
  read the event's order and found it neither completed nor failed.
\<close>

theorem moved_rows_were_open:
  assumes "validate_event (lib C) (r_value r) = Inr event"
    and "conv (order_handle C g r) (t1 @ (DbFlush s row, x) # t2) v"
  shows "open_in event t1"
  using guarded_conv [OF order_handle_moves_open [OF assms(1)] assms(2)] by simp

theorem moved_rows_were_open_witness:
  "\<exists>t1 t2 v s row. conv demo_handle (t1 @ (DbFlush s row, RUnit) # t2) v \<and> open_in demo_event t1"
proof -
  from demo_retry_run obtain t1 t2 v s row where c: "conv demo_handle (t1 @ (DbFlush s row, RUnit) # t2) v"
    using conv_scripted_at [of 7 demo_handle demo_retry_answers] by auto
  then show ?thesis using moved_rows_were_open [OF demo_valid c] by blast
qed

text \<open>
  C5. The guard of an event is completed, which makes every later delivery a duplicate, only after
  the run has moved the order to \<open>COMPLETED\<close> and committed that, or found it completed or failed,
  or had its dead letter accepted by Kafka, or found that there is no such order.
\<close>

theorem tombstone_is_earned:
  assumes "validate_event (lib C) (r_value r) = Inr event"
    and "conv (order_handle C g r) (t1 @ (RedisEval COMPLETE_LUA k token ttl, x) # t2) v"
  shows "completed_in event t1 \<or> settled_in event t1 \<or> dead_lettered_in C r t1 \<or> missing_in event t1"
  using guarded_conv [OF order_handle_concludes [OF assms(1)] assms(2)] by (simp add: concluded_def)

theorem tombstone_is_earned_witness:
  "\<exists>t1 t2 v tok ttl. conv demo_handle
      (t1 @ (RedisEval COMPLETE_LUA (Keys_event_guard (lit ''e1'')) tok ttl, RInt 1) # t2) v
    \<and> (completed_in demo_event t1 \<or> settled_in demo_event t1
       \<or> dead_lettered_in demo_ctx demo_event_record t1 \<or> missing_in demo_event t1)"
proof -
  from demo_missing_run obtain t1 t2 v tok ttl where
    c: "conv demo_handle (t1 @ (RedisEval COMPLETE_LUA (Keys_event_guard (lit ''e1'')) tok ttl, RInt 1) # t2) v"
    using conv_scripted_at [of 5 demo_handle demo_missing_answers] by auto
  then show ?thesis using tombstone_is_earned [OF demo_valid c] by blast
qed

text \<open>
  C14. A run that acquired the claim and then fails with an \<open>Exception\<close> ends by asking Redis to
  release the claim under the very token it acquired, so that the redelivery can claim the event.
\<close>

theorem failed_run_releases_claim:
  assumes "validate_event (lib C) (r_value r) = Inr event"
    and "conv (order_handle C g r) t (Inl e)" and "is_Exception e"
    and "won_claim (ev_event_id event) t"
  shows "\<exists>t' token x. t = t' @ [(RedisEval RELEASE_LUA (Keys_event_guard (ev_event_id event)) token None, x)]
     \<and> (RedisSet (Keys_event_guard (ev_event_id event)) token True (Some (g_lock_ttl g)), RBool True) \<in> set t'"
  using order_handle_releases [OF assms(1,2) _ assms(4)] assms(3) by (simp add: is_Exception_def)

theorem failed_run_releases_claim_witness:
  "\<exists>t' token x. trail scripted demo_handle demo_outage_answers
       = t' @ [(RedisEval RELEASE_LUA (Keys_event_guard (lit ''e1'')) token None, x)]
     \<and> (RedisSet (Keys_event_guard (lit ''e1'')) token True (Some 60), RBool True) \<in> set t'"
  using failed_run_releases_claim [OF demo_valid, of "IdempotencyGuard default_settings None None"
      "trail scripted demo_handle demo_outage_answers" "OSError (lit ''connection refused'')"]
    conv_scripted [of demo_handle demo_outage_answers] demo_outage_run
  by (simp add: is_Exception_def demo_event_def IdempotencyGuard_def or_default_def default_settings_def)

text \<open>
  The retry ladder: whatever the handler publishes to the retry topic is the record's own value
  under the order's key, with the attempt number one higher and at most \<open>max_attempts\<close>.  (Integers
  of more than 4300 digits do not survive \<open>int(str(n))\<close> in Python.)
\<close>

theorem retry_record_is_next_attempt:
  assumes "digits_ok (max_attempts (cfg C))" and "topic_retry (cfg C) \<noteq> topic_dlq (cfg C)"
    and "conv (order_handle C g r) t v"
    and "(KafkaSend (topic_retry (cfg C)) key val hs, x) \<in> set t"
  shows "\<exists>event. validate_event (lib C) (r_value r) = Inr event
     \<and> key = Some (uuid_str (ev_order_id event)) \<and> val = r_value r
     \<and> get_attempt hs = get_attempt (r_headers r) + 1 \<and> get_attempt hs \<le> max_attempts (cfg C)"
  using only_conv [OF order_handle_retries [OF assms(1,2)] assms(3,4)] by (auto simp: retry_hop_def)

lemma demo_digits: "digits_ok (max_attempts default_settings)"
  by (simp add: digits_ok_def default_settings_def nat_str.simps)

theorem retry_record_is_next_attempt_witness:
  "\<exists>key hs. get_attempt hs = 2 \<and> key = Some (uuid_str 7)
     \<and> (KafkaSend (topic_retry default_settings) key (JObj []) hs, RUnit)
       \<in> set (trail scripted demo_handle demo_retry_answers)"
proof -
  let ?t = "trail scripted demo_handle demo_retry_answers"
  obtain key val hs where "?t ! 23 = (KafkaSend (topic_retry default_settings) key val hs, RUnit)"
    using demo_retry_run(4) by blast
  then have sent: "(KafkaSend (topic_retry (cfg demo_ctx)) key val hs, RUnit) \<in> set ?t"
    using demo_retry_run(1) nth_mem [of 23 ?t] by (simp add: demo_ctx_def)
  have "topic_retry (cfg demo_ctx) \<noteq> topic_dlq (cfg demo_ctx)" "digits_ok (max_attempts (cfg demo_ctx))"
    using demo_digits by (simp_all add: demo_ctx_def) (simp add: default_settings_def)
  from retry_record_is_next_attempt [OF this(2,1) conv_scripted sent] sent
  show ?thesis
    by (auto simp: demo_ctx_def demo_libs_def demo_event_record_def demo_record_def get_attempt_def
        demo_event_def)
qed

text \<open>
  C13. The audit trail: as long as every order row the database returns has a trail that starts with
  the acceptance, links hop by hop and ends in the row's status, every order row the processor
  writes has one too.
\<close>

theorem processor_keeps_audit_trail:
  assumes "conv (order_consumer_run C polls) t v" and "rows_ok audit_ok t" and "o' \<in> flushed t"
  shows "audit_ok o'"
  by (rule keepsD [OF keeps_run [OF audit.order_handle_keeps [OF TrueI]]
        assms(1) [unfolded order_consumer_run_def] assms(2,3)])

lemma demo_retry_rows:
  "fst (exec scripted demo_handle demo_retry_answers) = Inr COMMIT"
  "rows_ok audit_ok (trail scripted demo_handle demo_retry_answers)"
  "\<exists>o'. o' \<in> flushed (trail scripted demo_handle demo_retry_answers)"
  by (simp_all add: demo_run_simps demo_retry_answers_def audit_ok_def) blast

theorem processor_keeps_audit_trail_witness:
  "\<exists>t v o'. conv (order_consumer_run demo_ctx 1) t v \<and> rows_ok audit_ok t \<and> o' \<in> flushed t \<and> audit_ok o'"
proof -
  have "conv demo_handle (trail scripted demo_handle demo_retry_answers) (Inr COMMIT)"
    using conv_scripted [of demo_handle demo_retry_answers] demo_retry_rows(1) by simp
  then obtain t where c: "conv (order_consumer_run demo_ctx 1) t (Inr False)"
    and t: "rows_ok audit_ok t" "\<exists>o'. o' \<in> flushed t"
    using conv_run_one [of "order_handle demo_ctx (IdempotencyGuard default_settings None None)"
        demo_event_record] demo_retry_rows(2,3)
    unfolding order_consumer_run_def demo_ctx_def ctx.simps by fastforce
  from t(2) obtain o' where "o' \<in> flushed t" by blast
  moreover from processor_keeps_audit_trail [OF c t(1) this] have "audit_ok o'" .
  ultimately show ?thesis using c t(1) by blast
qed

end
