(* ===== verification/RetryDlq.thy ===== *)
theory RetryDlq
  imports OrderConsumer
begin

text \<open>
  The retry scheduler and the dead-letter archiver (\<open>RetryScheduler\<close> and \<open>DlqArchiver\<close> in
  \<open>app/kafka/consumers.py\<close>).  The lemmas describe their complete conversations; the properties are
  that both commit a record only after its replay or its archive row is durable, and that a dead
  letter can be read back as it was published.
\<close>

section \<open>Retry scheduler\<close>

text \<open>\<open>x - now\<close>, \<open>wait > 0\<close> and \<open>min(wait, limit)\<close> on floats.\<close>

fun wait_time :: "pyfloat \<Rightarrow> rat \<Rightarrow> pyfloat" where
  "wait_time (Finite x) now = Finite (x - now)"
| "wait_time x now = x"

fun pf_positive :: "pyfloat \<Rightarrow> bool" where
  "pf_positive (Finite x) \<longleftrightarrow> 0 < x"
| "pf_positive Infinity \<longleftrightarrow> True"
| "pf_positive _ \<longleftrightarrow> False"

fun pf_min :: "pyfloat \<Rightarrow> rat \<Rightarrow> rat" where
  "pf_min (Finite x) limit = min x limit"
| "pf_min _ limit = limit"

definition retry_handle :: "ctx \<Rightarrow> consumer_record \<Rightarrow> ack io" where
  "retry_handle C r =
     (let att = get_attempt (r_headers r) in
      bindP (ask get_float TimeTime) (\<lambda>now.
      let wait = wait_time (get_not_before (lib C) (r_headers r)) now in
      seqP (if pf_positive wait then sleep (pf_min wait (retry_max_delay_seconds (cfg C)))
            else Return ())
      (bindP (build (lib C) att None (get_error (r_headers r)) None) (\<lambda>headers.
       seqP (publish_raw C (topic_orders (cfg C)) (r_key r) (r_value r) headers)
       (Return COMMIT)))))"

section \<open>DLQ archiver\<close>

definition json_get :: "json \<Rightarrow> str \<Rightarrow> json" where
  "json_get v k =
     (case v of JObj kvs \<Rightarrow> (case map_of kvs k of Some x \<Rightarrow> x | None \<Rightarrow> JNull) | _ \<Rightarrow> JNull)"

text \<open>
  \<open>uuid.UUID(str(x))\<close>.  The text of a value that is neither a string nor an integer (\<open>None\<close>,
  \<open>True\<close>, a float, a list or a dict) never has 32 hexadecimal digits.
\<close>

fun uuid_of_json :: "json \<Rightarrow> uuid option" where
  "uuid_of_json (JStr s) = uuid_parse s"
| "uuid_of_json (JInt n) = uuid_parse (str_int n)"
| "uuid_of_json _ = None"

definition dlq_handle :: "ctx \<Rightarrow> consumer_record \<Rightarrow> ack io" where
  "dlq_handle C r =
     (let payload = payload_dict (r_value r);
          order_id = uuid_of_json (json_get payload (lit ''order_id'')) in
      seqP (session_scope (\<lambda>session.
          record_dead_letter session order_id (json_get payload (lit ''event_id''))
            (case get_origin_topic (r_headers r) of
               Some t \<Rightarrow> if t = [] then r_topic r else t | None \<Rightarrow> r_topic r)
            (r_partition r) (r_offset r) (get_attempt (r_headers r)) (get_error (r_headers r)) payload))
      (seqP (incr_stat STAT_DLQ 1)
       (Return COMMIT)))"


text \<open>\<open>RetryScheduler().run()\<close> and \<open>DlqArchiver().run()\<close>.\<close>

definition retry_scheduler_run :: "ctx \<Rightarrow> nat \<Rightarrow> bool io" where
  "retry_scheduler_run C polls =
     consumer_run (build_consumer (cfg C) (topic_retry (cfg C)) (group_retry (cfg C))) (retry_handle C) polls"

definition dlq_archiver_run :: "ctx \<Rightarrow> nat \<Rightarrow> bool io" where
  "dlq_archiver_run C polls =
     consumer_run (build_consumer (cfg C) (topic_dlq (cfg C)) (group_dlq (cfg C))) (dlq_handle C) polls"

section \<open>The scheduler\<close>

text \<open>Headers without an origin topic are built without asking for the time.\<close>

lemma conv_build_plain:
  "conv (build L a nb err None) t v \<Longrightarrow> t = [] \<and> (\<exists>hs. v = Inr hs)"
  by (auto simp: build_def Let_def split: option.splits)

lemma retry_handle_only:
  assumes "spares \<phi>"
    and "\<And>hs. get_attempt hs = get_attempt (r_headers r) \<Longrightarrow>
      \<phi> (KafkaSend (topic_orders (cfg C)) (r_key r) (r_value r) hs)"
  shows "only \<phi> (retry_handle C r)"
proof -
  have "get_attempt hs = get_attempt (r_headers r)"
    if "conv (build (lib C) (get_attempt (r_headers r)) None err None) t (Inr hs)" for err t hs
    using build_attempt [OF get_attempt_ge_1 get_attempt_digits_ok that] .
  then show ?thesis
    unfolding retry_handle_def Let_def using assms
    by (auto intro!: only_bindP_conv [where p = "build _ _ _ _ _"] only_bindP only_seqP
        only_publish_raw footprint [OF spares_fits])
qed

interpretation scheduler: record_handler "retry_handle C" for C
proof
  fix r
  show "only (\<lambda>q. \<not> is_loop_req q) (retry_handle C r)"
    by (rule retry_handle_only) (auto simp: spares_def)
qed

text \<open>The whole conversation of a scheduler run that returns.\<close>

definition held :: "ctx \<Rightarrow> consumer_record \<Rightarrow> rat \<Rightarrow> trace \<Rightarrow> bool" where
  "held C r now t \<longleftrightarrow>
     (let wait = wait_time (get_not_before (lib C) (r_headers r)) now in
      if pf_positive wait
      then \<exists>y. ok_resp y \<and> t = [(Sleep (pf_min wait (retry_max_delay_seconds (cfg C))), y)]
      else t = [])"

lemma retry_handle_run:
  assumes "conv (retry_handle C r) t (Inr a)"
  shows "a = COMMIT \<and> (\<exists>now w hs x. held C r now w \<and> ok_resp x
     \<and> get_attempt hs = get_attempt (r_headers r)
     \<and> t = (TimeTime, RFloat now) # w @ [(KafkaSend (topic_orders (cfg C)) (r_key r) (r_value r) hs, x)])"
proof -
  let ?att = "get_attempt (r_headers r)" and ?err = "get_error (r_headers r)"
  let ?wait = "\<lambda>now. wait_time (get_not_before (lib C) (r_headers r)) now"
  let ?pause = "\<lambda>now. if pf_positive (?wait now)
      then sleep (pf_min (?wait now) (retry_max_delay_seconds (cfg C))) else Return ()"
  let ?send = "bindP (build (lib C) ?att None ?err None) (\<lambda>headers.
      seqP (publish_raw C (topic_orders (cfg C)) (r_key r) (r_value r) headers) (Return COMMIT))"
  from assms obtain now t1 where t: "t = (TimeTime, RFloat now) # t1"
    and rest: "conv (seqP (?pause now) ?send) t1 (Inr a)"
    by (auto simp: retry_handle_def Let_def conv_bindP_ask_Inr answer_Inr)
  from rest obtain w t2 where t1: "t1 = w @ t2" and w: "conv (?pause now) w (Inr ())"
    and send: "conv ?send t2 (Inr a)"
    by (auto simp: conv_seqP [of "?pause now"])
  from w have "held C r now w"
    by (auto simp: held_def Let_def sleep_def conv_ask answer_unit_ok eq_commute [of "Inr ()"] split: if_splits)
  moreover from send obtain hs where hs: "conv (build (lib C) ?att None ?err None) [] (Inr hs)"
    and sent: "conv (seqP (publish_raw C (topic_orders (cfg C)) (r_key r) (r_value r) hs) (Return COMMIT)) t2 (Inr a)"
    unfolding conv_bindP [of "build _ _ _ _ _"] using conv_build_plain by fastforce
  moreover from sent obtain x where "t2 = [(KafkaSend (topic_orders (cfg C)) (r_key r) (r_value r) hs, x)]"
    "ok_resp x" "a = COMMIT"
    by (auto simp: publish_raw_def get_producer_def conv_seqP conv_ask answer_unit_ok
        eq_commute [of "Inr _" "answer _ _"] split: if_splits)
  moreover have "get_attempt hs = ?att"
    using build_attempt [OF get_attempt_ge_1 get_attempt_digits_ok hs] .
  ultimately show ?thesis using t t1 by auto
qed

section \<open>The archiver\<close>

definition archived_row :: "consumer_record \<Rightarrow> datetime \<Rightarrow> dead_letter" where
  "archived_row r created = \<lparr>
     dl_order_id = uuid_of_json (json_get (payload_dict (r_value r)) (lit ''order_id'')),
     dl_event_id = json_get (payload_dict (r_value r)) (lit ''event_id''),
     dl_source_topic = (case get_origin_topic (r_headers r) of
        Some t \<Rightarrow> if t = [] then r_topic r else t | None \<Rightarrow> r_topic r),
     dl_partition = r_partition r,
     dl_offset = r_offset r,
     dl_attempts = get_attempt (r_headers r),
     dl_error = get_error (r_headers r),
     dl_payload = payload_dict (r_value r),
     dl_created_at = created\<rparr>"

lemma returns_record_dead_letter:
  "returns (record_dead_letter s oid ev src part off att err payload) (\<lambda>t entry.
     acked t (DbFlush s (SaveDeadLetter entry))
     \<and> (\<exists>created. entry = \<lparr>dl_order_id = oid, dl_event_id = ev, dl_source_topic = src, dl_partition = part,
          dl_offset = off, dl_attempts = att, dl_error = err, dl_payload = payload, dl_created_at = created\<rparr>))"
  by (auto simp: returns_def record_dead_letter_def utcnow_def prog_simps Let_def answer_unit_ok
      split: sum.splits)

lemma dlq_handle_archives:
  "returns (dlq_handle C r) (\<lambda>t a. a = COMMIT \<and> (\<exists>created. durable t (SaveDeadLetter (archived_row r created))))"
  unfolding dlq_handle_def Let_def
proof (rule returns_seqP [OF returns_session_scope [OF returns_record_dead_letter]])
  fix t entry
  let ?Q = "\<lambda>t a. a = COMMIT \<and> (\<exists>created. durable t (SaveDeadLetter (archived_row r created)))"
  assume "\<exists>s t' rc rx. t = (DbOpen, RSid s) # t' @ [(DbCommit s, rc), (DbClose s, rx)] \<and> ok_resp rc \<and> ok_resp rx
    \<and> acked t' (DbFlush s (SaveDeadLetter entry)) \<and> (\<exists>created. entry = \<lparr>
       dl_order_id = uuid_of_json (json_get (payload_dict (r_value r)) (lit ''order_id'')),
       dl_event_id = json_get (payload_dict (r_value r)) (lit ''event_id''),
       dl_source_topic = (case get_origin_topic (r_headers r) of
          Some t \<Rightarrow> if t = [] then r_topic r else t | None \<Rightarrow> r_topic r),
       dl_partition = r_partition r, dl_offset = r_offset r, dl_attempts = get_attempt (r_headers r),
       dl_error = get_error (r_headers r), dl_payload = payload_dict (r_value r), dl_created_at = created\<rparr>)"
  then obtain created where "durable t (SaveDeadLetter (archived_row r created))"
    by (auto simp: archived_row_def intro: durable_scope)
  then show "returns (seqP (incr_stat STAT_DLQ 1) (Return COMMIT)) (\<lambda>t' a. ?Q (t @ t') a)"
    by (auto simp: returns_conv conv_seqP intro: durable_append)
qed

text \<open>Every row of the archiver is \<open>archived_row\<close> of the record it handles.\<close>

lemma archiver_writes:
  assumes "conv (dlq_handle C r) t v" and "durable t (SaveDeadLetter d)"
  shows "\<exists>created. d = archived_row r created"
proof -
  have "only (\<lambda>q. \<forall>s d. q = DbFlush s (SaveDeadLetter d) \<longrightarrow> (\<exists>created. d = archived_row r created)) (dlq_handle C r)"
    by (auto simp: dlq_handle_def record_dead_letter_def session_scope_def utcnow_def incr_stat_def best_effort_def
        archived_row_def Let_def intro!: only_bindP only_seqP)
  from only_conv [OF this assms(1)] assms(2) show ?thesis by (fastforce simp: durable_def acked_def)
qed

lemma dlq_handle_only: "spares \<phi> \<Longrightarrow> only \<phi> (dlq_handle C r)"
  unfolding dlq_handle_def record_dead_letter_def utcnow_def Let_def
  by (auto intro!: only_bindP only_seqP footprint [OF spares_fits] intro: sparesD)

interpretation archiver: record_handler "dlq_handle C" for C
  by unfold_locales (auto intro: dlq_handle_only simp: spares_def)

text \<open>Wrapping a payload that is already an object changes nothing.\<close>

lemma payload_dict_idem [simp]: "payload_dict (payload_dict v) = payload_dict v"
  by (cases v) (simp_all add: payload_dict_def)

lemma pf_min_le: "pf_min x limit \<le> limit"
  by (cases x) auto

lemma pf_min_positive: "pf_positive x \<Longrightarrow> 0 < limit \<Longrightarrow> 0 < pf_min x limit"
  by (cases x) auto

section \<open>Properties\<close>

text \<open>
  C15. The scheduler commits a record of the retry topic only after it slept until the record's
  \<open>x-not-before\<close> time, or for the maximal delay if that is shorter, and then had the record
  accepted by Kafka on the main topic with the same key, the same value and the same attempt
  number.
\<close>

theorem scheduler_commits_replayed:
  assumes "conv (retry_scheduler_run C polls) (t1 @ (CommitOffset tp off, x) # t3) v"
  shows "\<exists>ta r now w hs y. t1 = ta @ (TimeTime, RFloat now) # w
       @ [(KafkaSend (topic_orders (cfg C)) (r_key r) (r_value r) hs, y)]
     \<and> off = r_offset r + 1 \<and> polled ta tp r \<and> held C r now w \<and> ok_resp y
     \<and> get_attempt hs = get_attempt (r_headers r)"
proof -
  obtain ta t2 r where r: "t1 = ta @ t2" "off = r_offset r + 1" "polled ta tp r"
    and run: "conv (retry_handle C r) t2 (Inr COMMIT)"
    using scheduler.run_commit [OF assms [unfolded retry_scheduler_run_def]] by (elim exE conjE)
  from retry_handle_run [OF run] obtain now w hs y where "held C r now w" "ok_resp y"
    "get_attempt hs = get_attempt (r_headers r)"
    "t2 = (TimeTime, RFloat now) # w @ [(KafkaSend (topic_orders (cfg C)) (r_key r) (r_value r) hs, y)]"
    by (elim exE conjE)
  with r show ?thesis by metis
qed

definition demo_retry_record :: consumer_record where
  "demo_retry_record = \<lparr>r_topic = lit ''orders.retry'', r_partition = 0, r_offset = 6, r_key = Some (uuid_str 7),
     r_value = JObj [], r_headers = [(NOT_BEFORE, Some (utf8_encode (lit ''1.5'')))]\<rparr>"

lemma demo_retry_handle:
  "\<exists>t. conv (retry_handle demo_ctx demo_retry_record) t (Inr COMMIT)"
proof -
  have "fst (exec scripted (retry_handle demo_ctx demo_retry_record) [RFloat 1, RUnit, RUnit]) = Inr COMMIT"
    by (simp add: retry_handle_def demo_ctx_def build_def publish_raw_def get_producer_def sleep_def Let_def
        exec_simps split: option.split)
  then show ?thesis using conv_scripted by metis
qed

theorem scheduler_commits_replayed_witness:
  "\<exists>t1 t3 v ta r hs y. conv (retry_scheduler_run demo_ctx 1)
       (t1 @ (CommitOffset (lit ''orders.retry'', 0) 7, RUnit) # t3) v
     \<and> 7 = r_offset r + 1 \<and> polled ta (lit ''orders.retry'', 0) r
     \<and> (KafkaSend (topic_orders (cfg demo_ctx)) (r_key r) (r_value r) hs, y) \<in> set t1"
proof -
  obtain t where "conv (retry_handle demo_ctx demo_retry_record) t (Inr COMMIT)"
    using demo_retry_handle by blast
  then obtain t1 t3 where c: "conv (retry_scheduler_run demo_ctx 1)
       (t1 @ (CommitOffset (lit ''orders.retry'', 0) 7, RUnit) # t3) (Inr False)"
    using conv_run_commit [of "retry_handle demo_ctx" demo_retry_record t "build_consumer (cfg demo_ctx) (topic_retry (cfg demo_ctx)) (group_retry (cfg demo_ctx))"
        "(lit ''orders.retry'', 0)"]
    by (auto simp: retry_scheduler_run_def demo_retry_record_def)
  from scheduler_commits_replayed [OF c] obtain ta r now w hs y where
    t1: "t1 = ta @ (TimeTime, RFloat now) # w @ [(KafkaSend (topic_orders (cfg demo_ctx)) (r_key r) (r_value r) hs, y)]"
    "7 = r_offset r + 1" "polled ta (lit ''orders.retry'', 0) r"
    by (elim exE conjE)
  moreover from t1 have "(KafkaSend (topic_orders (cfg demo_ctx)) (r_key r) (r_value r) hs, y) \<in> set t1" by simp
  ultimately show ?thesis using c by blast
qed

text \<open>
  C17. The archiver commits a record of the dead-letter topic only after a \<open>dead_letters\<close> row with
  the record's payload (verbatim when it is an object), attempt number, error, partition and
  offset was flushed and committed.
\<close>

theorem archiver_commits_archived:
  assumes "conv (dlq_archiver_run C polls) (t1 @ (CommitOffset tp off, x) # t3) v"
  shows "\<exists>ta t2 r created. t1 = ta @ t2 \<and> off = r_offset r + 1 \<and> polled ta tp r
     \<and> durable t2 (SaveDeadLetter (archived_row r created))"
proof -
  obtain ta t2 r where r: "t1 = ta @ t2" "off = r_offset r + 1" "polled ta tp r"
    and run: "conv (dlq_handle C r) t2 (Inr COMMIT)"
    using archiver.run_commit [OF assms [unfolded dlq_archiver_run_def]] by (elim exE conjE)
  with dlq_handle_archives show ?thesis unfolding returns_conv by metis
qed

definition demo_dlq_record :: consumer_record where
  "demo_dlq_record = \<lparr>r_topic = lit ''orders.dlq'', r_partition = 0, r_offset = 2, r_key = None,
     r_value = JNull, r_headers = []\<rparr>"

lemma demo_dlq_handle: "\<exists>t. conv (dlq_handle demo_ctx d) t (Inr COMMIT)"
proof -
  have "fst (exec scripted (dlq_handle demo_ctx d)
      [RSid 0, RTime 0, RUnit, RUnit, RUnit, RInt 1]) = Inr COMMIT"
    by (simp add: dlq_handle_def record_dead_letter_def session_scope_def utcnow_def incr_stat_def Let_def
        exec_simps settled_def)
  then show ?thesis using conv_scripted by metis
qed

theorem archiver_commits_archived_witness:
  "\<exists>t1 t3 v ta t2 r created. conv (dlq_archiver_run demo_ctx 1)
       (t1 @ (CommitOffset (lit ''orders.dlq'', 0) 3, RUnit) # t3) v
     \<and> t1 = ta @ t2 \<and> 3 = r_offset r + 1 \<and> durable t2 (SaveDeadLetter (archived_row r created))"
proof -
  obtain t where "conv (dlq_handle demo_ctx demo_dlq_record) t (Inr COMMIT)"
    using demo_dlq_handle by blast
  then obtain t1 t3 where c: "conv (dlq_archiver_run demo_ctx 1)
       (t1 @ (CommitOffset (lit ''orders.dlq'', 0) 3, RUnit) # t3) (Inr False)"
    using conv_run_commit [of "dlq_handle demo_ctx" demo_dlq_record t "build_consumer (cfg demo_ctx) (topic_dlq (cfg demo_ctx)) (group_dlq (cfg demo_ctx))"
        "(lit ''orders.dlq'', 0)"]
    by (auto simp: dlq_archiver_run_def demo_dlq_record_def)
  with archiver_commits_archived [OF c] show ?thesis by metis
qed


lemma demo_to_dlq:
  "\<exists>hs. trail scripted (to_dlq demo_ctx demo_dlq_record 1 (lit ''bad'')) [RTime 0, RUnit]
     = [(UtcNow, RTime 0), (KafkaSend (lit ''orders.dlq'') None (JObj [(lit ''raw'', JNull)]) hs, RUnit)]"
  by (simp add: to_dlq_def build_def publish_raw_def get_producer_def Let_def trail_simps exec_simps
      demo_ctx_def demo_dlq_record_def default_settings_def payload_dict_def)


end
