(* ===== verification/Ladder.thy ===== *)
theory Ladder
  imports OrderSafety RetryDlq
begin

text \<open>
  The retry ladder across two consumers: the main processor publishes a failed record to the retry
  topic, the retry scheduler publishes it back to the main topic.  One round of that is the relation
  \<open>replayed\<close> between records of the main topic; the topics in between may delay and duplicate
  records but deliver what was sent.
\<close>

text \<open>A record as delivered after it was sent.\<close>

definition delivers :: "req \<Rightarrow> consumer_record \<Rightarrow> bool" where
  "delivers q r \<longleftrightarrow> q = KafkaSend (r_topic r) (r_key r) (r_value r) (r_headers r)"

definition replayed :: "ctx \<Rightarrow> guard \<Rightarrow> consumer_record \<Rightarrow> consumer_record \<Rightarrow> bool" where
  "replayed C g r r' \<longleftrightarrow>
     (\<exists>t v q x mid t' v' q' x'.
        conv (order_handle C g r) t v \<and> (q, x) \<in> set t \<and> delivers q mid \<and> r_topic mid = topic_retry (cfg C)
        \<and> conv (retry_handle C mid) t' v' \<and> (q', x') \<in> set t' \<and> delivers q' r')"

lemma replayedI:
  assumes "conv (order_handle C g r) t v" "(q, x) \<in> set t" "delivers q mid" "r_topic mid = topic_retry (cfg C)"
    "conv (retry_handle C mid) t' v'" "(q', x') \<in> set t'" "delivers q' r'"
  shows "replayed C g r r'"
  unfolding replayed_def using assms by blast

lemma replayed_next:
  assumes ok: "digits_ok (max_attempts (cfg C))" "topic_retry (cfg C) \<noteq> topic_dlq (cfg C)"
    and hop: "replayed C g r r'"
  shows "r_topic r' = topic_orders (cfg C) \<and> r_value r' = r_value r
    \<and> get_attempt (r_headers r') = get_attempt (r_headers r) + 1
    \<and> get_attempt (r_headers r') \<le> max_attempts (cfg C)
    \<and> (\<exists>event. validate_event (lib C) (r_value r) = Inr event \<and> r_key r' = Some (uuid_str (ev_order_id event)))"
proof -
  from hop obtain t v q x mid t' v' q' x' where
    first: "conv (order_handle C g r) t v" "(q, x) \<in> set t" "delivers q mid" "r_topic mid = topic_retry (cfg C)"
    and second: "conv (retry_handle C mid) t' v'" "(q', x') \<in> set t'" "delivers q' r'"
    unfolding replayed_def by (elim exE conjE)
  have "retry_hop C r (r_key mid) (r_value mid) (r_headers mid)"
    using only_conv [OF order_handle_retries [OF ok] first(1,2)] first(3,4) by (simp add: delivers_def)
  moreover have "only (\<lambda>q. \<forall>topic key val hs. q = KafkaSend topic key val hs \<longrightarrow> topic = topic_orders (cfg C)
      \<and> key = r_key mid \<and> val = r_value mid \<and> get_attempt hs = get_attempt (r_headers mid)) (retry_handle C mid)"
    by (rule retry_handle_only) (auto simp: spares_def)
  from only_conv [OF this second(1,2)] second(3) have "r_topic r' = topic_orders (cfg C)"
    "r_key r' = r_key mid" "r_value r' = r_value mid" "get_attempt (r_headers r') = get_attempt (r_headers mid)"
    by (auto simp: delivers_def)
  ultimately show ?thesis by (auto simp: retry_hop_def)
qed

lemma replayed_steps:
  assumes ok: "digits_ok (max_attempts (cfg C))" "topic_retry (cfg C) \<noteq> topic_dlq (cfg C)"
  shows "(replayed C g ^^ n) r r' \<Longrightarrow> r_value r' = r_value r
    \<and> get_attempt (r_headers r') = get_attempt (r_headers r) + int n
    \<and> (0 < n \<longrightarrow> get_attempt (r_headers r') \<le> max_attempts (cfg C))"
proof (induction n arbitrary: r')
  case (Suc n)
  then obtain s where "(replayed C g ^^ n) r s" and "replayed C g s r'" by auto
  then show ?case using Suc.IH [of s] replayed_next [OF ok, of g s r'] by auto
qed simp

section \<open>Properties\<close>

text \<open>
  C8. After any number \<open>n\<close> of rounds through the retry topic the value is the one first published,
  the attempt number has grown by exactly \<open>n\<close>, and \<open>n\<close> is less than \<open>max_attempts\<close>.
\<close>

theorem retry_ladder_bounded:
  assumes "digits_ok (max_attempts (cfg C))" and "topic_retry (cfg C) \<noteq> topic_dlq (cfg C)"
    and "(replayed C g ^^ n) r r'"
  shows "r_value r' = r_value r \<and> get_attempt (r_headers r') = get_attempt (r_headers r) + int n
    \<and> (n = 0 \<or> int n < max_attempts (cfg C))"
  using replayed_steps [OF assms] get_attempt_ge_1 [of "r_headers r"] by auto

lemma demo_replay: "\<exists>r'. replayed demo_ctx (IdempotencyGuard default_settings None None) demo_event_record r'"
proof -
  let ?t = "trail scripted demo_handle demo_retry_answers"
  obtain key val hs where k: "?t ! 23 = (KafkaSend (topic_retry default_settings) key val hs, RUnit)"
    using demo_retry_run(4) by blast
  define mid where "mid = \<lparr>r_topic = topic_retry default_settings, r_partition = 0, r_offset = 0, r_key = key,
    r_value = val, r_headers = hs\<rparr>"
  have first: "(KafkaSend (topic_retry default_settings) key val hs, RUnit) \<in> set ?t"
    using k demo_retry_run(1) nth_mem [of 23 ?t] by simp
  have "\<exists>hs'. trail scripted (retry_handle demo_ctx mid) [RFloat 10, RUnit]
      = [(TimeTime, RFloat 10), (KafkaSend (topic_orders default_settings) key val hs', RUnit)]"
    by (simp add: retry_handle_def demo_ctx_def demo_libs_def build_def publish_raw_def get_producer_def Let_def
        trail_simps exec_simps get_not_before_def mid_def split: option.split)
  then obtain hs' where second: "(KafkaSend (topic_orders default_settings) key val hs', RUnit)
      \<in> set (trail scripted (retry_handle demo_ctx mid) [RFloat 10, RUnit])"
    by force
  have "replayed demo_ctx (IdempotencyGuard default_settings None None) demo_event_record
      (mid\<lparr>r_topic := topic_orders default_settings, r_headers := hs'\<rparr>)"
    by (rule replayedI [OF conv_scripted first _ _ conv_scripted second])
      (simp_all add: delivers_def mid_def demo_ctx_def)
  then show ?thesis by blast
qed

theorem retry_ladder_bounded_witness:
  "\<exists>r'. (replayed demo_ctx (IdempotencyGuard default_settings None None) ^^ 1) demo_event_record r'
     \<and> get_attempt (r_headers r') = 2"
proof -
  obtain r' where "(replayed demo_ctx (IdempotencyGuard default_settings None None) ^^ 1) demo_event_record r'"
    using demo_replay by auto
  moreover have "get_attempt (r_headers demo_event_record) = 1"
    by (simp add: demo_event_record_def demo_record_def get_attempt_def)
  moreover have "digits_ok (max_attempts (cfg demo_ctx))" "topic_retry (cfg demo_ctx) \<noteq> topic_dlq (cfg demo_ctx)"
    using demo_digits by (simp_all add: demo_ctx_def) (simp add: default_settings_def)
  ultimately show ?thesis
    using retry_ladder_bounded [of demo_ctx 1 "IdempotencyGuard default_settings None None" demo_event_record r']
    by auto
qed

end
