(* ===== verification/Guard.thy ===== *)
theory Guard
  imports Racing Demo
begin

text \<open>
  The idempotency guard against a Redis server that keeps its contract: what a key can hold after
  requests that do not name it, compare-and-set of release and complete, and the life of an event
  from its claim to the tombstone.
\<close>

section \<open>Keys that are left alone\<close>

fun touches :: "str \<Rightarrow> req \<Rightarrow> bool" where
  "touches k (RedisSet k' _ _ _) \<longleftrightarrow> k' = k"
| "touches k (RedisDelete k') \<longleftrightarrow> k' = k"
| "touches k (RedisEval _ k' _ _) \<longleftrightarrow> k' = k"
| "touches k _ \<longleftrightarrow> False"

text \<open>A command that does not name a key leaves it as it is.\<close>

lemma redis_exec_frame:
  assumes "redis_exec m q = Some (r, m')" and "\<not> touches k q"
  shows "m' k = m k"
proof (cases q)
  case (RedisEval s k' tok ttl)
  then show ?thesis using assms by (cases s) (auto split: prod.splits if_splits)
qed (use assms in \<open>auto split: if_splits\<close>)

lemma contract_frame:
  assumes "redis_contract h ks" and "\<not> touches k q"
  shows "ages (ks w k) (ks (snd (h w q)) k)"
proof -
  obtain m where m: "elapse (ks w) m" and
    c: "case redis_exec m q of
           None \<Rightarrow> ks (snd (h w q)) = m
         | Some (r, m') \<Rightarrow>
             (fst (h w q) = r \<and> ks (snd (h w q)) = m')
             \<or> ((\<exists>e. fst (h w q) = RErr e) \<and> (ks (snd (h w q)) = m \<or> ks (snd (h w q)) = m'))"
    using assms(1) [unfolded redis_contract_def, rule_format, of w q] by blast
  have "ks (snd (h w q)) k = m k"
    using c redis_exec_frame [OF _ assms(2)] by (auto split: option.splits)
  then show ?thesis using m by (simp add: elapse_def)
qed

lemma exec_frame:
  assumes "redis_contract h ks" and "only (\<lambda>q. \<not> touches k q) p"
  shows "ages (ks w k) (ks (snd (exec h p w)) k)"
  using assms(2)
proof (induction p arbitrary: w)
  case (Call q f)
  have "ages (ks w k) (ks (snd (h w q)) k)"
    using contract_frame [OF assms(1)] Call.prems by simp
  moreover have "ages (ks (snd (h w q)) k) (ks (snd (exec h (f (fst (h w q))) (snd (h w q)))) k)"
    using Call.IH Call.prems by simp
  ultimately show ?case by (auto intro: ages_trans)
qed (auto intro: ages.same)

text \<open>What a value that ages can become.\<close>

lemma ages_value: "ages x y \<Longrightarrow> y = None \<or> map_option fst y = map_option fst x"
  by (auto elim: ages.cases)

section \<open>Example services\<close>

text \<open>
  A server that keeps the contract without time passing; the other systems answer constants.
\<close>

fun stock_answer :: "req \<Rightarrow> resp" where
  "stock_answer Uuid4 = RUuid 9"
| "stock_answer UtcNow = RTime 0"
| "stock_answer TimeTime = RFloat 0"
| "stock_answer (RedisHincrby _ _ _) = RInt 1"
| "stock_answer DbOpen = RSid 0"
| "stock_answer (DbGet s u) = ROrder (Some (demo_order\<lparr>o_id := u\<rparr>))"
| "stock_answer (Uniform a b) = RFloat a"
| "stock_answer _ = RUnit"

definition stock :: "keyspace services" where
  "stock m q = (case redis_exec m q of Some (r, m') \<Rightarrow> (r, m') | None \<Rightarrow> (stock_answer q, m))"

lemma stock_contract: "redis_contract stock (\<lambda>m. m)"
  unfolding redis_contract_def stock_def
  by (intro allI exI [of _ "w" for w]) (auto split: option.split)

section \<open>Properties\<close>

lemma uuid_hex_not_done: "uuid_hex u \<noteq> DONE"
proof -
  have "length (uuid_hex u) = 32" by (simp add: uuid_hex_def)
  then show ?thesis by (auto simp: DONE_def)
qed

text \<open>A key that is tombstoned or gone stays so while time passes.\<close>

definition done_or_gone :: "str \<Rightarrow> keyspace \<Rightarrow> bool" where
  "done_or_gone k m \<longleftrightarrow> m k = None \<or> map_option fst (m k) = Some DONE"

lemma done_or_gone_elapse: "elapse m m' \<Longrightarrow> done_or_gone k m \<Longrightarrow> done_or_gone k m'"
  unfolding done_or_gone_def elapse_def using ages_value by (metis option.map_disc_iff option.simps(3))

lemma claim_verdict_status:
  "exec h (claim_verdict k tok v) w = (Inr c, w') \<Longrightarrow> c_status c = (if v = Some DONE then ALREADY_DONE else IN_PROGRESS)"
  by (auto simp: claim_verdict_def split: if_splits)

lemma claim_done_or_gone:
  assumes R: "redis_contract h ks" and start: "done_or_gone (Keys_event_guard ev) (ks w)"
    and run: "exec h (claim g ev) w = (Inr c, w')"
  shows "c_status c \<noteq> IN_PROGRESS"
proof
  assume busy: "c_status c = IN_PROGRESS"
  let ?k = "Keys_event_guard ev"
  let ?set = "\<lambda>u. RedisSet ?k (uuid_hex u) True (Some (g_lock_ttl g))"
  let ?w1 = "snd (h w Uuid4)"
  have d1: "done_or_gone ?k (ks ?w1)"
    using done_or_gone_elapse [OF contract_other [OF R] start] by simp
  from run busy obtain u where set1: "answer get_bool (fst (h ?w1 (?set u))) = Inr False"
    and rest: "exec h (bindP (ask get_str (RedisGet ?k)) (\<lambda>current.
        if current = None then
          bindP (ask get_bool (?set u)) (\<lambda>ok.
          if ok then Return \<lparr>c_status = ACQUIRED, c_key = ?k, c_token = uuid_hex u\<rparr>
          else bindP (ask get_str (RedisGet ?k)) (claim_verdict ?k (uuid_hex u)))
        else claim_verdict ?k (uuid_hex u) current)) (snd (h ?w1 (?set u))) = (Inr c, w')"
    by (auto simp: claim_def Let_def exec_simps split: sum.splits if_splits)
  let ?w2 = "snd (h ?w1 (?set u))"
  have d2: "done_or_gone ?k (ks ?w2)"
    using contract_set [OF R set1] done_or_gone_elapse d1 by auto
  let ?w3 = "snd (h ?w2 (RedisGet ?k))"
  from rest obtain v where get: "answer get_str (fst (h ?w2 (RedisGet ?k))) = Inr v"
    and cases: "exec h (if v = None then
          bindP (ask get_bool (?set u)) (\<lambda>ok.
          if ok then Return \<lparr>c_status = ACQUIRED, c_key = ?k, c_token = uuid_hex u\<rparr>
          else bindP (ask get_str (RedisGet ?k)) (claim_verdict ?k (uuid_hex u)))
        else claim_verdict ?k (uuid_hex u) v) ?w3 = (Inr c, w')"
    by (auto simp: exec_simps split: sum.splits)
  from contract_get [OF R get] have v: "v = map_option fst (ks ?w3 ?k)" and d3: "done_or_gone ?k (ks ?w3)"
    using done_or_gone_elapse d2 by auto
  show False
  proof (cases v)
    case (Some x)
    then show False using cases busy v d3 claim_verdict_status by (fastforce simp: done_or_gone_def)
  next
    case None
    then have gone: "ks ?w3 ?k = None" using v by simp
    from None cases busy have "answer get_bool (fst (h ?w3 (?set u))) = Inr False"
      by (auto simp: exec_simps split: sum.splits if_splits)
    from contract_set [OF R this] gone show False by (auto dest: elapse_None)
  qed
qed

text \<open>A claim of an event whose key is free is acquired at the first command.\<close>

lemma claim_free:
  assumes R: "redis_contract h ks" and free: "ks w (Keys_event_guard ev) = None"
    and run: "exec h (claim g ev) w = (Inr c, w')"
  shows "acquired c"
proof -
  let ?k = "Keys_event_guard ev"
  have free': "ks (snd (h w Uuid4)) ?k = None"
    using elapse_None [OF contract_other [OF R] free] by simp
  have "b" if "answer get_bool (fst (h (snd (h w Uuid4)) (RedisSet ?k tok True ex))) = Inr b" for b tok ex
    using contract_set [OF R that] free' by (auto dest: elapse_None)
  with run show ?thesis
    by (auto simp: claim_def Let_def exec_simps acquired_def split: sum.splits if_splits)
qed

text \<open>
  C27. \<open>release\<close> gives back only what it owns: it reports \<open>True\<close> and removes the key exactly when the
  key still holds the claim's token; otherwise (the lock expired, and perhaps a peer holds the key
  by now) it leaves every key as it was.
\<close>

theorem release_is_compare_and_delete:
  assumes "redis_contract h ks" and "exec h (release g c) w = (Inr b, w')"
  shows "\<exists>m. elapse (ks w) m \<and> (b \<longleftrightarrow> map_option fst (m (c_key c)) = Some (c_token c))
     \<and> ks w' = (if b then m(c_key c := None) else m)"
  by (rule release_cas [OF assms])

definition demo_claim :: Idempotency.claim where
  "demo_claim = \<lparr>c_status = ACQUIRED, c_key = lit ''k'', c_token = lit ''mine''\<rparr>"

abbreviation demo_guard :: guard where
  "demo_guard \<equiv> IdempotencyGuard default_settings None None"

theorem release_is_compare_and_delete_witness:
  "exec stock (release demo_guard demo_claim) [lit ''k'' \<mapsto> (lit ''other'', None)]
     = (Inr False, [lit ''k'' \<mapsto> (lit ''other'', None)])
   \<and> (\<exists>m. elapse [lit ''k'' \<mapsto> (lit ''other'', None)] m \<and> [lit ''k'' \<mapsto> (lit ''other'', None)] = m)"
proof -
  have r: "exec stock (release demo_guard demo_claim) [lit ''k'' \<mapsto> (lit ''other'', None)]
     = (Inr False, [lit ''k'' \<mapsto> (lit ''other'', None)])"
    by (simp add: release_def exec_simps stock_def demo_claim_def)
  with release_is_compare_and_delete [OF stock_contract r] show ?thesis by auto
qed

text \<open>
  C26. \<open>complete\<close> writes the tombstone only over the claim's own token, and says whether it did; a
  lock that was lost meanwhile is not overwritten.
\<close>

theorem complete_is_compare_and_set:
  assumes "redis_contract h ks" and "exec h (complete g c) w = (Inr b, w')"
  shows "\<exists>m. elapse (ks w) m \<and> (b \<longleftrightarrow> map_option fst (m (c_key c)) = Some (c_token c))
     \<and> ks w' = (if b then m(c_key c \<mapsto> (DONE, Some (g_done_ttl g))) else m)"
  by (rule complete_cas [OF assms])

theorem complete_is_compare_and_set_witness:
  "\<exists>w'. exec stock (complete demo_guard demo_claim) [lit ''k'' \<mapsto> (lit ''mine'', Some 60)] = (Inr True, w')
     \<and> w' (lit ''k'') = Some (DONE, Some 86400)"
proof -
  have r: "\<exists>w'. exec stock (complete demo_guard demo_claim) [lit ''k'' \<mapsto> (lit ''mine'', Some 60)] = (Inr True, w')"
    by (simp add: complete_def exec_simps stock_def demo_claim_def)
  then obtain w' where "exec stock (complete demo_guard demo_claim) [lit ''k'' \<mapsto> (lit ''mine'', Some 60)] = (Inr True, w')"
    by blast
  with complete_is_compare_and_set [OF stock_contract this] show ?thesis
    by (auto simp: demo_claim_def IdempotencyGuard_def or_default_def default_settings_def)
qed

text \<open>
  Once an event's guard is completed, a later claim of the event finds it done, or acquires it
  anew because the tombstone has expired in the meantime; it never takes it for work in progress.
\<close>

theorem completed_event_not_in_progress:
  assumes "redis_contract h ks"
    and "exec h (claim g ev) w = (Inr c, w1)" and "acquired c"
    and "exec h (complete g c) w1 = (Inr True, w2)"
    and "exec h (claim g' ev) w2 = (Inr c', w3)"
  shows "(c_status c' = ALREADY_DONE \<and> map_option fst (ks w3 (Keys_event_guard ev)) = Some DONE)
     \<or> (c_status c' = ACQUIRED \<and> ks w3 (Keys_event_guard ev) = Some (c_token c', Some (g_lock_ttl g')))"
proof -
  have key: "c_key c = Keys_event_guard ev" using claim_key_status [OF assms(1,2)] by simp
  from complete_cas [OF assms(1,4)] have "done_or_gone (Keys_event_guard ev) (ks w2)"
    by (auto simp: key done_or_gone_def)
  from claim_done_or_gone [OF assms(1) this assms(5)] have "c_status c' \<noteq> IN_PROGRESS" .
  moreover have "c_key c' = Keys_event_guard ev \<and> claim_post g' c' (ks w3)"
    by (rule claim_key_status [OF assms(1,5)])
  ultimately show ?thesis by (cases "c_status c'") (auto simp: claim_post_def)
qed

theorem completed_event_not_in_progress_witness:
  "\<exists>c w1 w2 c' w3. exec stock (claim demo_guard (lit ''e1'')) Map.empty = (Inr c, w1)
     \<and> exec stock (complete demo_guard c) w1 = (Inr True, w2)
     \<and> exec stock (claim demo_guard (lit ''e1'')) w2 = (Inr c', w3)
     \<and> c_status c' = ALREADY_DONE"
proof -
  let ?k = "Keys_event_guard (lit ''e1'')"
  let ?c = "\<lparr>c_status = ACQUIRED, c_key = ?k, c_token = uuid_hex 9\<rparr>"
  let ?w1 = "[?k \<mapsto> (uuid_hex 9, Some 60)]" and ?w2 = "[?k \<mapsto> (DONE, Some 86400)]"
  have 1: "exec stock (claim demo_guard (lit ''e1'')) Map.empty = (Inr ?c, ?w1)"
    by (simp add: claim_def Let_def exec_simps stock_def IdempotencyGuard_def or_default_def default_settings_def)
  have 2: "exec stock (complete demo_guard ?c) ?w1 = (Inr True, ?w2)"
    by (simp add: complete_def exec_simps stock_def IdempotencyGuard_def or_default_def default_settings_def)
  have 3: "\<exists>c'. exec stock (claim demo_guard (lit ''e1'')) ?w2 = (Inr c', ?w2)"
    by (simp add: claim_def claim_verdict_def Let_def exec_simps stock_def)
  then obtain c' where c': "exec stock (claim demo_guard (lit ''e1'')) ?w2 = (Inr c', ?w2)" by blast
  have "acquired ?c" by (simp add: acquired_def)
  from completed_event_not_in_progress [OF stock_contract 1 this 2 c'] have "c_status c' = ALREADY_DONE"
    using uuid_hex_not_done by (auto simp: IdempotencyGuard_def or_default_def default_settings_def)
  then show ?thesis by (intro exI conjI) (rule 1, rule 2, rule c')
qed

text \<open>
  C28. A failed event is not locked out: when a claim was released, the next claim of the event that
  gets its answers is acquired at once, whoever makes it, and holds the key under its own token.
\<close>

theorem released_event_is_claimable:
  assumes "redis_contract h ks"
    and "exec h (claim g ev) w = (Inr c, w1)" and "exec h (release g c) w1 = (Inr True, w2)"
    and "exec h (claim g' ev) w2 = (Inr c', w3)"
  shows "acquired c' \<and> ks w3 (Keys_event_guard ev) = Some (c_token c', Some (g_lock_ttl g'))"
proof -
  have "ks w2 (Keys_event_guard ev) = None"
    using release_cas [OF assms(1,3)] claim_key_status [OF assms(1,2)] by auto
  from claim_free [OF assms(1) this assms(4)] claim_key_status [OF assms(1,4)] show ?thesis
    by (auto simp: acquired_def claim_post_def)
qed

theorem released_event_is_claimable_witness:
  "\<exists>c w1 w2 c' w3. exec stock (claim demo_guard (lit ''e1'')) Map.empty = (Inr c, w1)
     \<and> exec stock (release demo_guard c) w1 = (Inr True, w2)
     \<and> exec stock (claim demo_guard (lit ''e1'')) w2 = (Inr c', w3) \<and> acquired c'"
proof -
  let ?k = "Keys_event_guard (lit ''e1'')"
  let ?c = "\<lparr>c_status = ACQUIRED, c_key = ?k, c_token = uuid_hex 9\<rparr>"
  let ?w1 = "[?k \<mapsto> (uuid_hex 9, Some 60)]"
  have 1: "exec stock (claim demo_guard (lit ''e1'')) Map.empty = (Inr ?c, ?w1)"
    by (simp add: claim_def Let_def exec_simps stock_def IdempotencyGuard_def or_default_def default_settings_def)
  have 2: "exec stock (release demo_guard ?c) ?w1 = (Inr True, Map.empty)"
    by (simp add: release_def exec_simps stock_def)
  from released_event_is_claimable [OF stock_contract 1 2 1] 1 2 show ?thesis by blast
qed

end
