(* ===== verification/Service.thy ===== *)
theory Service
  imports Cache Guard Database Producer
begin

text \<open>
  The read and write paths behind the API (\<open>app/service.py\<close>): accepting an order, which writes a
  row, remembers the client's idempotency key and publishes the event; and the cache-aside read.

  The lemmas: an event is published only after its order is durable; what a returned result means;
  a repeated key yields the first order; a cache outage does not change what a read returns.
\<close>

section \<open>Accepting an order\<close>

definition is_ValueError :: "exn \<Rightarrow> bool" where
  "is_ValueError e \<longleftrightarrow> (case e of ValueError _ \<Rightarrow> True | _ \<Rightarrow> False)"

definition resolve_idempotency_key :: "nat \<Rightarrow> str \<Rightarrow> order option io" where
  "resolve_idempotency_key session key =
     bindP (ask get_str (RedisGet (Keys_api_idempotency key))) (\<lambda>raw.
       case raw of
         None \<Rightarrow> Return None
       | Some raw \<Rightarrow>
           if raw = [] then Return None
           else try_except is_ValueError
             (case uuid_parse raw of
                None \<Rightarrow> Raise (ValueError (lit ''badly formed hexadecimal UUID string''))
              | Some order_id \<Rightarrow> get_order session order_id)
             (\<lambda>_. Return None))"

text \<open>\<open>OrderEvent(...)\<close> with the defaults of its first three fields.\<close>

definition new_event :: "order \<Rightarrow> fail_mode option \<Rightarrow> order_event io" where
  "new_event order mode =
     bindP (ask get_uuid Uuid4) (\<lambda>eid.
     bindP (ask get_time UtcNow) (\<lambda>now.
     Return \<lparr>
       ev_event_id = uuid_str eid,
       ev_event_type = lit ''order.created'',
       ev_occurred_at = now,
       ev_order_id = o_id order,
       ev_customer_id = o_customer_id order,
       ev_sku = o_sku order,
       ev_quantity = o_quantity order,
       ev_amount_cents = o_amount_cents order,
       ev_fail_mode = mode\<rparr>))"

definition remember_key :: "ctx \<Rightarrow> str option \<Rightarrow> order \<Rightarrow> unit io" where
  "remember_key C key order =
     (case key of
        Some k \<Rightarrow>
          if k \<noteq> [] then
            ask get_unit (RedisSet (Keys_api_idempotency k) (uuid_str (o_id order)) False
              (Some (api_idempotency_ttl_seconds (cfg C))))
          else Return ()
      | None \<Rightarrow> Return ())"

definition accept_order :: "ctx \<Rightarrow> nat \<Rightarrow> order_create \<Rightarrow> str option \<Rightarrow> (order \<times> bool) io" where
  "accept_order C session payload key =
     bindP (create_order session payload) (\<lambda>order.
     seqP (ask get_unit (DbCommit session))
     (seqP (remember_key C key order)
     (bindP (new_event order (oc_fail_mode payload)) (\<lambda>event.
      seqP (publish_event C event None 1 None None None)
     (seqP (incr_stat STAT_PUBLISHED 1)
     (seqP (put_order C order)
      (Return (order, False))))))))"

definition submit_order :: "ctx \<Rightarrow> nat \<Rightarrow> order_create \<Rightarrow> str option \<Rightarrow> (order \<times> bool) io" where
  "submit_order C session payload key =
     bindP (case key of
              Some k \<Rightarrow> if k \<noteq> [] then resolve_idempotency_key session k else Return None
            | None \<Rightarrow> Return None) (\<lambda>existing.
       case existing of
         Some order \<Rightarrow> Return (order, True)
       | None \<Rightarrow> accept_order C session payload key)"

section \<open>Reading an order\<close>

definition read_order :: "ctx \<Rightarrow> nat \<Rightarrow> uuid \<Rightarrow> order_read option io" where
  "read_order C session order_id =
     bindP (cache_get_order (lib C) (uuid_str order_id)) (\<lambda>cached.
       case cached of
         Some out \<Rightarrow> Return (Some (order_read_of out Cache))
       | None \<Rightarrow>
           bindP (get_order session order_id) (\<lambda>order.
             case order of
               None \<Rightarrow> Return None
             | Some o' \<Rightarrow>
                 seqP (put_order C o')
                   (Return (Some (order_read_of (order_out_of o') Database)))))"

section \<open>What an accepted order means\<close>

definition accepted_row :: "order_create \<Rightarrow> order \<Rightarrow> bool" where
  "accepted_row p o' \<longleftrightarrow>
     o_customer_id o' = oc_customer_id p \<and> o_sku o' = oc_sku p \<and> o_quantity o' = oc_quantity p
     \<and> o_amount_cents o' = oc_amount_cents p \<and> o_fail_mode o' = oc_fail_mode p
     \<and> o_status o' = PENDING \<and> o_attempts o' = 0 \<and> o_failure_reason o' = None \<and> audit_ok o'"

lemma returns_create_order:
  "returns (create_order s p) (\<lambda>t o'. acked t (DbFlush s (SaveOrder o')) \<and> accepted_row p o'
     \<and> (\<exists>u. (Uuid4, RUuid u) \<in> set t \<and> o_id o' = u))"
  by (auto simp: returns_def create_order_def utcnow_def prog_simps Let_def answer_unit_ok answer_Inr
      accepted_row_def audit_ok_def split: sum.splits)

text \<open>The event describes the order it is about, under an id of its own.\<close>

definition event_of :: "order \<Rightarrow> order_event \<Rightarrow> bool" where
  "event_of o' e \<longleftrightarrow>
     ev_order_id e = o_id o' \<and> ev_customer_id e = o_customer_id o' \<and> ev_sku e = o_sku o'
     \<and> ev_quantity e = o_quantity o' \<and> ev_amount_cents e = o_amount_cents o'
     \<and> ev_fail_mode e = o_fail_mode o' \<and> ev_event_type e = lit ''order.created''
     \<and> (\<exists>u. ev_event_id e = uuid_str u)"

lemma returns_new_event:
  "returns (new_event o' mode) (\<lambda>t e. mode = o_fail_mode o' \<longrightarrow> event_of o' e)"
  by (auto simp: returns_def new_event_def prog_simps event_of_def split: sum.splits)

text \<open>The publication of the first attempt of an event.\<close>

definition published_in :: "ctx \<Rightarrow> order \<Rightarrow> trace \<Rightarrow> bool" where
  "published_in C o' t \<longleftrightarrow>
     (\<exists>e hs. event_of o' e \<and> get_attempt hs = 1
        \<and> acked t (KafkaSend (topic_orders (cfg C)) (Some (uuid_str (o_id o'))) (dump_event (lib C) e) hs))"

lemma published_in_append:
  "published_in C o' a \<Longrightarrow> published_in C o' (a @ b)" "published_in C o' b \<Longrightarrow> published_in C o' (a @ b)"
  unfolding published_in_def by auto

lemma digits_ok_1: "digits_ok 1"
  by (simp add: digits_ok_def nat_str.simps)

lemma returns_publish_first:
  assumes "event_of o' e"
  shows "returns (publish_event C e None 1 None None None) (\<lambda>t x. published_in C o' t)"
proof -
  have "returns (build (lib C) 1 None None None) (\<lambda>t hs. get_attempt hs = 1)"
    using build_attempt [OF _ digits_ok_1] by (auto simp: returns_conv)
  then show ?thesis
    unfolding publish_event_def
  proof (intro returns_seqP [OF returns_True] returns_bindP)
    fix t t' hs
    assume "get_attempt hs = 1"
    then show "returns (ask get_unit (KafkaSend (case None of None \<Rightarrow> topic_orders (cfg C)
            | Some t \<Rightarrow> if t = [] then topic_orders (cfg C) else t)
          (Some (uuid_str (ev_order_id e))) (dump_event (lib C) e) hs)) (\<lambda>t'' x. published_in C o' (t @ t' @ t''))"
      using assms
      by (intro returns_mono [OF returns_ask] published_in_append(2))
        (auto simp: published_in_def event_of_def answer_unit_ok)
  qed
qed

lemma returns_accept_order:
  "returns (accept_order C s p key) (\<lambda>t res. \<exists>o'. res = (o', False) \<and> accepted_row p o'
     \<and> durable t (SaveOrder o') \<and> published_in C o' t)"
  unfolding accept_order_def
proof (rule returns_bindP [OF returns_create_order])
  fix t o'
  assume o': "acked t (DbFlush s (SaveOrder o')) \<and> accepted_row p o'
     \<and> (\<exists>u. (Uuid4, RUuid u) \<in> set t \<and> o_id o' = u)"
  let ?publish = "bindP (new_event o' (oc_fail_mode p)) (\<lambda>event.
      seqP (publish_event C event None 1 None None None)
     (seqP (incr_stat STAT_PUBLISHED 1)
     (seqP (put_order C o')
      (Return (o', False)))))"
  have publish: "returns ?publish (\<lambda>t x. x = (o', False) \<and> published_in C o' t)"
  proof (rule returns_bindP [OF returns_new_event], rule returns_seqP [OF returns_publish_first])
    show "event_of o' e" if "oc_fail_mode p = o_fail_mode o' \<longrightarrow> event_of o' e" for e
      using that o' by (simp add: accepted_row_def)
  qed (auto simp: returns_conv conv_seqP intro: published_in_append)
  have durable: "durable (t @ (DbCommit s, rc) # t') (SaveOrder o')" if "ok_resp rc" for rc t'
    unfolding durable_def using o' that by (intro exI [of _ s] exI [of _ t] exI [of _ "(DbCommit s, rc) # t'"]) auto
  show "returns (seqP (ask get_unit (DbCommit s)) (seqP (remember_key C key o') ?publish))
      (\<lambda>t' res. \<exists>o'. res = (o', False) \<and> accepted_row p o' \<and> durable (t @ t') (SaveOrder o')
         \<and> published_in C o' (t @ t'))"
  proof (rule returns_seqP [OF returns_ask], rule returns_seqP [OF returns_True], rule returns_mono [OF publish])
  qed (use o' durable in \<open>auto simp: answer_unit_ok intro: published_in_append\<close>)
qed

section \<open>What is published, and when\<close>

fun is_publish :: "req \<Rightarrow> bool" where
  "is_publish (KafkaSend _ _ _ _) = True"
| "is_publish _ = False"

definition row_durable :: "order_create \<Rightarrow> trace \<Rightarrow> bool" where
  "row_durable p t \<longleftrightarrow> (\<exists>o'. accepted_row p o' \<and> durable t (SaveOrder o'))"

lemma row_durable_append: "row_durable p a \<Longrightarrow> row_durable p (a @ b)"
  unfolding row_durable_def using durable_append(1) by blast

lemma resolve_only:
  "only (\<lambda>q. (\<exists>k. q = RedisGet k) \<or> (\<exists>s i. q = DbGet s i)) (resolve_idempotency_key s k)"
  unfolding resolve_idempotency_key_def get_order_def
  by (auto intro!: only_bindP only_try_except split: option.split)

lemma accept_order_guarded: "guarded is_publish (row_durable p) t (accept_order C s p key)"
  unfolding accept_order_def
proof (rule guarded_bindP)
  show "guarded is_publish (row_durable p) t (create_order s p)"
    by (rule guarded_only) (auto simp: create_order_def utcnow_def Let_def)
next
  fix t' o'
  assume "conv (create_order s p) t' (Inr o')"
  then have o': "acked t' (DbFlush s (SaveOrder o'))" "accepted_row p o'"
    using returns_create_order by (auto simp: returns_conv)
  let ?rest = "seqP (remember_key C key o')
     (bindP (new_event o' (oc_fail_mode p)) (\<lambda>event.
      seqP (publish_event C event None 1 None None None)
     (seqP (incr_stat STAT_PUBLISHED 1)
     (seqP (put_order C o')
      (Return (o', False))))))"
  show "guarded is_publish (row_durable p) (t @ t') (seqP (ask get_unit (DbCommit s)) ?rest)"
  proof (rule guarded_seqP)
    fix t'' u
    assume "conv (ask get_unit (DbCommit s)) t'' (Inr u)"
    then have "acked t'' (DbCommit s)" by (auto simp: conv_ask answer_unit_ok eq_commute [of "Inr _"])
    then have "durable ((t @ t') @ t'') (SaveOrder o')"
      using o'(1) unfolding durable_def by (metis acked_simps(2) append_assoc)
    then have "row_durable p ((t @ t') @ t'')" using o'(2) by (auto simp: row_durable_def)
    then show "guarded is_publish (row_durable p) ((t @ t') @ t'') ?rest"
      by (rule guarded_met [rotated]) (rule row_durable_append)
  qed (auto intro: guarded_only)
qed

lemma submit_order_guarded: "guarded is_publish (row_durable p) [] (submit_order C s p key)"
proof -
  have "guarded is_publish (row_durable p) []
     (case key of Some k \<Rightarrow> if k \<noteq> [] then resolve_idempotency_key s k else Return None | None \<Rightarrow> Return None)"
    by (auto intro!: guarded_only only_mono [OF resolve_only] split: option.split)
  then show ?thesis
    unfolding submit_order_def
    by (rule guarded_bindP) (auto intro: accept_order_guarded split: option.split)
qed

text \<open>A duplicate is a row that was found under the key's order id, and nothing else happened.\<close>

lemma resolve_found:
  assumes "conv (resolve_idempotency_key s k) t (Inr (Some o'))"
  shows "\<exists>raw u. uuid_parse raw = Some u
     \<and> t = [(RedisGet (Keys_api_idempotency k), RStr (Some raw)), (DbGet s u, ROrder (Some o'))]"
  using assms
  by (auto simp: resolve_idempotency_key_def conv_bindP_ask_Inr answer_Inr conv_try_except get_order_def conv_ask
      eq_commute [of "Inr _" "answer _ _"] split: option.splits if_splits)

lemma submit_order_result:
  assumes "conv (submit_order C s p key) t (Inr (o', dup))"
  shows "if dup then \<exists>k raw u. key = Some k \<and> uuid_parse raw = Some u
       \<and> t = [(RedisGet (Keys_api_idempotency k), RStr (Some raw)), (DbGet s u, ROrder (Some o'))]
     else accepted_row p o' \<and> durable t (SaveOrder o') \<and> published_in C o' t"
proof -
  from assms obtain t1 existing t2 where t: "t = t1 @ t2"
    and first: "conv (case key of Some k \<Rightarrow> if k \<noteq> [] then resolve_idempotency_key s k else Return None
        | None \<Rightarrow> Return None) t1 (Inr existing)"
    and second: "conv (case existing of Some order \<Rightarrow> Return (order, True)
        | None \<Rightarrow> accept_order C s p key) t2 (Inr (o', dup))"
    by (auto simp: submit_order_def conv_bindP)
  show ?thesis
  proof (cases existing)
    case None
    then have "dup = False" "accepted_row p o'" "durable t2 (SaveOrder o')" "published_in C o' t2"
      using second returns_accept_order [of C s p key] unfolding returns_conv by fastforce+
    then show ?thesis
      using t by (simp add: durable_append published_in_append)
  next
    case (Some o'')
    then have "t2 = []" "o'' = o'" "dup" using second by auto
    then show ?thesis
      using first Some t resolve_found by (auto split: option.splits if_splits)
  qed
qed

section \<open>The key of a request\<close>

text \<open>After an order was accepted under a key, the key names the order until it expires.\<close>

lemma remember_only:
  "only (\<lambda>q. \<not> touches (Keys_api_idempotency k) q)
     (bindP (new_event o' mode) (\<lambda>event.
      seqP (publish_event C event None 1 None None None)
     (seqP (incr_stat STAT_PUBLISHED 1)
     (seqP (put_order C o') (Return (o', False))))))"
  by (auto simp: new_event_def publish_event_def get_producer_def build_def incr_stat_def put_order_def Let_def
      split: option.split)

lemma contract_set_unit:
  assumes "redis_contract h ks" and "answer get_unit (fst (h w (RedisSet k v False ex))) = Inr u"
  shows "ks (snd (h w (RedisSet k v False ex))) k = Some (v, ex)"
proof -
  have "\<And>e. fst (h w (RedisSet k v False ex)) \<noteq> RErr e" using assms(2) by (simp add: answer_Inr)
  with assms(1) show ?thesis
    by (elim redis_contractE [where q = "RedisSet k v False ex" and w = w]) auto
qed

lemma submit_remembers_key:
  assumes R: "redis_contract h ks" and k: "k \<noteq> []"
    and run: "exec h (submit_order C s p (Some k)) w = (Inr (o', False), w')"
  shows "ks w' (Keys_api_idempotency k) = None
     \<or> map_option fst (ks w' (Keys_api_idempotency k)) = Some (uuid_str (o_id o'))"
proof -
  let ?K = "Keys_api_idempotency k"
  let ?q = "\<lambda>o'. RedisSet ?K (uuid_str (o_id o')) False (Some (api_idempotency_ttl_seconds (cfg C)))"
  let ?rest = "\<lambda>o'. bindP (new_event o' (oc_fail_mode p)) (\<lambda>event.
      seqP (publish_event C event None 1 None None None)
     (seqP (incr_stat STAT_PUBLISHED 1)
     (seqP (put_order C o') (Return (o', False)))))"
  from run k obtain w1 where "exec h (accept_order C s p (Some k)) w1 = (Inr (o', False), w')"
    by (auto simp: submit_order_def exec_bindP split: prod.splits sum.splits option.splits if_splits)
  then obtain o1 w2 where set: "answer get_unit (fst (h w2 (?q o1))) = Inr ()"
    and rest: "exec h (?rest o1) (snd (h w2 (?q o1))) = (Inr (o', False), w')"
    using k by (auto simp: accept_order_def remember_key_def exec_bindP [of h "create_order s p"] exec_seqP
        exec_ask split: prod.splits sum.splits if_splits)
  have "conv (?rest o1) (trail h (?rest o1) (snd (h w2 (?q o1)))) (Inr (o', False))"
    using conv_exec [of "?rest o1" h "snd (h w2 (?q o1))"] rest by simp
  then have "o' = o1" by (auto simp: conv_simps)
  have "ks (snd (h w2 (?q o1))) ?K = Some (uuid_str (o_id o1), Some (api_idempotency_ttl_seconds (cfg C)))"
    by (rule contract_set_unit [OF R set])
  moreover have "ages (ks (snd (h w2 (?q o1))) ?K) (ks w' ?K)"
    using exec_frame [OF R remember_only [of k o1], where w = "snd (h w2 (?q o1))"] rest by (metis snd_conv)
  ultimately show ?thesis using ages_value \<open>o' = o1\<close> by fastforce
qed

lemma uuid_str_neq_Nil [simp]: "uuid_str u \<noteq> []"
  by (simp add: uuid_str_def Let_def)

text \<open>The database finds a committed order by its id, or fails with an exception of its own.\<close>

definition finds :: "'w services \<Rightarrow> nat \<Rightarrow> uuid \<Rightarrow> bool" where
  "finds h s u \<longleftrightarrow>
     (\<forall>w. (\<exists>o'. fst (h w (DbGet s u)) = ROrder (Some o') \<and> o_id o' = u)
        \<or> (\<exists>e. fst (h w (DbGet s u)) = RErr e \<and> \<not> is_ValueError e))"

lemma repeated_submit:
  assumes get: "fst (h w (RedisGet (Keys_api_idempotency k))) = RStr (Some (uuid_str u))" and k: "k \<noteq> []"
    and found: "finds h s u"
    and run: "exec h (submit_order C s p (Some k)) w = (Inr (o', dup), w')"
  shows "dup \<and> o_id o' = u"
proof -
  let ?w = "snd (h w (RedisGet (Keys_api_idempotency k)))"
  let ?r = "fst (h ?w (DbGet s u))"
  have resolve: "exec h (resolve_idempotency_key s k) w =
      (case answer get_row ?r of
         Inr row \<Rightarrow> (Inr row, snd (h ?w (DbGet s u)))
       | Inl e \<Rightarrow> if is_ValueError e then (Inr None, snd (h ?w (DbGet s u))) else (Inl e, snd (h ?w (DbGet s u))))"
    by (simp add: resolve_idempotency_key_def exec_simps get uuid_parse_str get_order_def split: sum.split)
  from found consider o1 where "?r = ROrder (Some o1)" "o_id o1 = u" | e where "?r = RErr e" "\<not> is_ValueError e"
    unfolding finds_def by blast
  then show ?thesis
    by cases (use run resolve k in \<open>auto simp: submit_order_def exec_bindP\<close>)
qed

section \<open>Properties\<close>

text \<open>
  C23. What the result of accepting an order means.  A new order carries the fields of the request,
  is \<open>PENDING\<close> with no attempts and a one-entry trail, was flushed and committed, and its event,
  which repeats the order's fields, was accepted by Kafka under the order's key as attempt 1.  A
  duplicate is the row found under the order id that the key names; nothing was written or sent.
\<close>

theorem submitted_order_result:
  assumes "conv (submit_order C s p key) t (Inr (o', dup))"
  shows "if dup then \<exists>k raw u. key = Some k \<and> uuid_parse raw = Some u
       \<and> t = [(RedisGet (Keys_api_idempotency k), RStr (Some raw)), (DbGet s u, ROrder (Some o'))]
     else accepted_row p o' \<and> durable t (SaveOrder o') \<and> published_in C o' t"
  by (rule submit_order_result [OF assms])

definition demo_payload :: order_create where
  "demo_payload = \<lparr>oc_customer_id = lit ''c'', oc_sku = lit ''sku'', oc_quantity = 1, oc_amount_cents = 100,
     oc_fail_mode = None\<rparr>"

definition demo_key_world :: keyspace where
  "demo_key_world = snd (exec stock (submit_order demo_ctx 0 demo_payload (Some (lit ''key''))) Map.empty)"

lemma demo_submit:
  "\<exists>o'. exec stock (submit_order demo_ctx 0 demo_payload (Some (lit ''key''))) Map.empty
     = (Inr (o', False), demo_key_world) \<and> o_id o' = 9"
  by (simp add: submit_order_def resolve_idempotency_key_def accept_order_def create_order_def utcnow_def
      remember_key_def new_event_def publish_event_def get_producer_def build_def incr_stat_def put_order_def
      Let_def exec_simps stock_def demo_ctx_def settled_def demo_key_world_def answer_def)

theorem submitted_order_result_witness:
  "\<exists>t o'. conv (submit_order demo_ctx 0 demo_payload (Some (lit ''key''))) t (Inr (o', False))
     \<and> accepted_row demo_payload o' \<and> durable t (SaveOrder o') \<and> published_in demo_ctx o' t"
proof -
  obtain o' where "exec stock (submit_order demo_ctx 0 demo_payload (Some (lit ''key''))) Map.empty
      = (Inr (o', False), demo_key_world)"
    using demo_submit by blast
  then have c: "conv (submit_order demo_ctx 0 demo_payload (Some (lit ''key'')))
      (trail stock (submit_order demo_ctx 0 demo_payload (Some (lit ''key''))) Map.empty) (Inr (o', False))"
    using conv_exec [of "submit_order demo_ctx 0 demo_payload (Some (lit ''key''))" stock Map.empty] by simp
  from submitted_order_result [OF c] c show ?thesis by auto
qed

text \<open>
  C24. The dual write has one order only: an event is handed to Kafka only after a row for it, with
  the fields of the request, was flushed and committed.
\<close>

theorem publish_follows_commit:
  assumes "conv (submit_order C s p key) (t1 @ (KafkaSend topic k val hs, x) # t2) v"
  shows "\<exists>o'. accepted_row p o' \<and> durable t1 (SaveOrder o')"
  using guarded_conv [OF submit_order_guarded assms] by (simp add: row_durable_def)

lemma demo_submit_sends:
  "\<exists>t1 q x t2 v. conv (submit_order demo_ctx 0 demo_payload (Some (lit ''key''))) (t1 @ (q, x) # t2) v \<and> is_publish q"
proof -
  obtain t o' where t: "conv (submit_order demo_ctx 0 demo_payload (Some (lit ''key''))) t (Inr (o', False))"
    using demo_submit conv_exec by (metis fst_conv)
  from submit_order_result [OF t] have "published_in demo_ctx o' t" by simp
  then obtain q x where "(q, x) \<in> set t" "is_publish q"
    unfolding published_in_def acked_def by force
  then show ?thesis using t by (metis split_list)
qed

theorem publish_follows_commit_witness:
  "\<exists>t1 q x t2 v o'. conv (submit_order demo_ctx 0 demo_payload (Some (lit ''key''))) (t1 @ (q, x) # t2) v
     \<and> is_publish q \<and> durable t1 (SaveOrder o')"
proof -
  obtain t1 q x t2 v where c: "conv (submit_order demo_ctx 0 demo_payload (Some (lit ''key''))) (t1 @ (q, x) # t2) v"
    and q: "is_publish q"
    using demo_submit_sends by blast
  from q obtain topic k val hs where "q = KafkaSend topic k val hs" by (cases q) auto
  with publish_follows_commit [of demo_ctx 0 demo_payload "Some (lit ''key'')" t1 topic k val hs x t2 v] c q
  show ?thesis by blast
qed

text \<open>
  C25. Client retries: once a request with an idempotency key was accepted, a later request with
  that key returns an order with the same id as a duplicate, provided the key has not expired, only
  time has acted on it, and the database finds the committed order.
\<close>

theorem repeated_key_returns_first_order:
  assumes R: "redis_contract h ks" and k: "k \<noteq> []"
    and first: "exec h (submit_order C s p (Some k)) w = (Inr (o1, False), w1)"
    and later: "ages (ks w1 (Keys_api_idempotency k)) (ks w2 (Keys_api_idempotency k))"
    and unexpired: "fst (h w2 (RedisGet (Keys_api_idempotency k))) \<noteq> RStr None"
    and found: "finds h s' (o_id o1)"
    and second: "exec h (submit_order C s' p' (Some k)) w2 = (Inr (o2, dup), w3)"
  shows "dup \<and> o_id o2 = o_id o1"
proof -
  let ?K = "Keys_api_idempotency k"
  from second k obtain raw where ans: "answer get_str (fst (h w2 (RedisGet ?K))) = Inr raw"
    by (auto simp: submit_order_def resolve_idempotency_key_def exec_simps split: sum.splits)
  then have reply: "fst (h w2 (RedisGet ?K)) = RStr raw" by (simp add: answer_Inr)
  have "ages (ks w2 ?K) (ks (snd (h w2 (RedisGet ?K))) ?K)" and raw: "raw = map_option fst (ks (snd (h w2 (RedisGet ?K))) ?K)"
    using contract_get [OF R ans] by (auto simp: elapse_def)
  with later have "ages (ks w1 ?K) (ks (snd (h w2 (RedisGet ?K))) ?K)" by (blast intro: ages_trans)
  moreover have "raw \<noteq> None" using unexpired reply by auto
  ultimately have "raw = Some (uuid_str (o_id o1))"
    using submit_remembers_key [OF R k first] raw ages_value by (metis option.map_disc_iff)
  then show ?thesis using repeated_submit [OF _ k found second] reply by simp
qed

theorem repeated_key_returns_first_order_witness:
  "\<exists>o1 w1 o2 dup w3. exec stock (submit_order demo_ctx 0 demo_payload (Some (lit ''key''))) Map.empty
       = (Inr (o1, False), w1)
     \<and> exec stock (submit_order demo_ctx 1 demo_payload (Some (lit ''key''))) w1 = (Inr (o2, dup), w3)
     \<and> dup \<and> o_id o2 = o_id o1"
proof -
  obtain o1 where 1: "exec stock (submit_order demo_ctx 0 demo_payload (Some (lit ''key''))) Map.empty
       = (Inr (o1, False), demo_key_world)" and id: "o_id o1 = 9"
    using demo_submit by blast
  have world: "demo_key_world (Keys_api_idempotency (lit ''key'')) = Some (uuid_str 9, Some 86400)"
    by (simp add: demo_key_world_def submit_order_def resolve_idempotency_key_def accept_order_def create_order_def
        utcnow_def remember_key_def new_event_def publish_event_def get_producer_def build_def incr_stat_def
        put_order_def Let_def exec_simps stock_def demo_ctx_def settled_def default_settings_def answer_def)
  then have get: "fst (stock demo_key_world (RedisGet (Keys_api_idempotency (lit ''key'')))) \<noteq> RStr None"
    by (simp add: stock_def)
  have found: "finds stock 1 (o_id o1)" by (simp add: finds_def stock_def)
  have "\<exists>o2 dup w3. exec stock (submit_order demo_ctx 1 demo_payload (Some (lit ''key''))) demo_key_world
      = (Inr (o2, dup), w3)"
    using world by (simp add: submit_order_def resolve_idempotency_key_def get_order_def exec_simps stock_def
        uuid_parse_str) blast
  then obtain o2 dup w3 where 2: "exec stock (submit_order demo_ctx 1 demo_payload (Some (lit ''key''))) demo_key_world
      = (Inr (o2, dup), w3)"
    by blast
  from repeated_key_returns_first_order [OF stock_contract _ 1 ages.same get found 2] 1 2 show ?thesis by auto
qed

end
