(* ===== verification/KeyRace.thy ===== *)
theory KeyRace
  imports Service
begin

text \<open>
  Two requests with the same idempotency key at the same time.  \<open>submit_order\<close> reads the key, and
  writes it only after the order is committed, so the reads of both requests can come before either
  write.  The two programs are interleaved by a schedule, one request to the services per step.
\<close>

section \<open>Interleaving\<close>

definition advance :: "'w services \<Rightarrow> 'a io \<Rightarrow> 'w \<Rightarrow> 'a io \<times> 'w" where
  "advance h p w =
     (case p of
        Call q k \<Rightarrow> (case h w q of (r, w') \<Rightarrow> (k r, w'))
      | Return x \<Rightarrow> (p, w)
      | Raise e \<Rightarrow> (p, w))"

text \<open>\<open>True\<close> in a schedule lets the first program go, \<open>False\<close> the second.\<close>

fun interleave :: "'w services \<Rightarrow> bool list \<Rightarrow> 'a io \<Rightarrow> 'a io \<Rightarrow> 'w \<Rightarrow> 'a io \<times> 'a io \<times> 'w" where
  "interleave h [] p p' w = (p, p', w)"
| "interleave h (b # bs) p p' w =
     (if b then (case advance h p w of (p, w) \<Rightarrow> interleave h bs p p' w)
      else (case advance h p' w of (p', w) \<Rightarrow> interleave h bs p p' w))"

lemma advance_simps [simp]:
  "advance h (Return x) w = (Return x, w)"
  "advance h (Raise e) w = (Raise e, w)"
  "advance h (Call q k) w = (k (fst (h w q)), snd (h w q))"
  by (simp_all add: advance_def split: prod.split)

text \<open>A program that goes alone does what \<open>exec\<close> says.\<close>

fun ended :: "exn + 'a \<Rightarrow> 'a io" where
  "ended (Inr x) = Return x"
| "ended (Inl e) = Raise e"

lemma advance_ended [simp]: "advance h (ended v) w = (ended v, w)"
  by (cases v) simp_all

lemma interleave_first:
  "length (trail h p w) \<le> n \<Longrightarrow> interleave h (replicate n True @ bs) p p' w
     = interleave h bs (ended (fst (exec h p w))) p' (snd (exec h p w))"
proof (induction n arbitrary: p w)
  case 0
  then show ?case by (cases p) (simp_all add: trail_simps exec_simps split: prod.splits)
next
  case (Suc n)
  then show ?case by (cases p) (simp_all add: trail_simps exec_simps split: prod.splits)
qed

lemma interleave_second:
  "length (trail h p' w) \<le> n \<Longrightarrow> interleave h (replicate n False @ bs) p p' w
     = interleave h bs p (ended (fst (exec h p' w))) (snd (exec h p' w))"
proof (induction n arbitrary: p' w)
  case 0
  then show ?case by (cases p') (simp_all add: trail_simps exec_simps split: prod.splits)
next
  case (Suc n)
  then show ?case by (cases p') (simp_all add: trail_simps exec_simps split: prod.splits)
qed

section \<open>Services with fresh identifiers\<close>

definition minted :: "(keyspace \<times> nat) services" where
  "minted w q =
     (case w of (m, n) \<Rightarrow>
        if q = Uuid4 then (RUuid (of_nat n), (m, Suc n))
        else (case stock m q of (r, m') \<Rightarrow> (r, (m', n))))"

lemma minted_contract: "redis_contract minted fst"
  unfolding redis_contract_def
proof (intro allI)
  fix w q
  show "\<exists>m. elapse (fst w) m \<and> (case redis_exec m q of None \<Rightarrow> fst (snd (minted w q)) = m
      | Some (r, m') \<Rightarrow> (fst (minted w q) = r \<and> fst (snd (minted w q)) = m')
          \<or> ((\<exists>e. fst (minted w q) = RErr e) \<and> (fst (snd (minted w q)) = m \<or> fst (snd (minted w q)) = m')))"
    by (rule exI [of _ "fst w"]) (auto simp: minted_def stock_def split: option.split prod.split)
qed

text \<open>Both requests read the key; then each runs to its end.\<close>

definition racing_schedule :: "bool list" where
  "racing_schedule = [True, False] @ replicate 15 True @ replicate 15 False"

lemmas accept_run_simps = accept_order_def create_order_def utcnow_def remember_key_def new_event_def
  publish_event_def get_producer_def build_def incr_stat_def put_order_def Let_def exec_simps trail_simps
  stock_def minted_def demo_ctx_def settled_def answer_def

text \<open>What accepting an order does there, from any state.\<close>

lemma minted_accept:
  "\<exists>o' m'. exec minted (accept_order demo_ctx s demo_payload (Some (lit ''key''))) (m, n)
     = (Inr (o', False), (m', n + 2)) \<and> o_id o' = of_nat n
     \<and> map_option fst (m' (Keys_api_idempotency (lit ''key''))) = Some (uuid_str (of_nat n))"
  by (simp add: accept_run_simps Keys_api_idempotency_def Keys_order_def)

lemma minted_accept_length:
  "length (trail minted (accept_order demo_ctx s demo_payload (Some (lit ''key''))) (m, n)) \<le> 15"
  by (simp add: accept_run_simps)

lemma minted_lookup:
  assumes "k \<noteq> []" and "m (Keys_api_idempotency k) = None"
  shows "advance minted (submit_order C s p (Some k)) (m, n) = (accept_order C s p (Some k), (m, n))"
  using assms by (simp add: submit_order_def resolve_idempotency_key_def bindP_ask minted_def stock_def answer_def)

section \<open>Property\<close>

text \<open>
  C38. The idempotency key does not exclude concurrent requests: against a Redis that keeps its
  contract, two requests with one key can both be answered with a new order, each with its own id,
  and the key then names the later one.
\<close>

theorem concurrent_requests_duplicate_order:
  "redis_contract minted fst \<and>
   (\<exists>o1 o2 w. interleave minted racing_schedule
       (submit_order demo_ctx 0 demo_payload (Some (lit ''key'')))
       (submit_order demo_ctx 1 demo_payload (Some (lit ''key''))) (Map.empty, 0)
       = (Return (o1, False), Return (o2, False), w)
     \<and> o_id o1 \<noteq> o_id o2
     \<and> map_option fst (fst w (Keys_api_idempotency (lit ''key''))) = Some (uuid_str (o_id o2)))"
proof (intro conjI minted_contract)
  let ?k = "lit ''key''"
  let ?p = "\<lambda>s. accept_order demo_ctx s demo_payload (Some ?k)"
  obtain o1 m1 where 1: "exec minted (?p 0) (Map.empty, 0) = (Inr (o1, False), (m1, 0 + 2))" "o_id o1 = of_nat 0"
    using minted_accept [of 0 Map.empty 0] by blast
  obtain o2 m2 where 2: "exec minted (?p 1) (m1, 2) = (Inr (o2, False), (m2, 2 + 2))" "o_id o2 = of_nat 2"
    "map_option fst (m2 (Keys_api_idempotency ?k)) = Some (uuid_str (of_nat 2))"
    using minted_accept [of 1 m1 2] by blast
  have "interleave minted racing_schedule (submit_order demo_ctx 0 demo_payload (Some ?k))
      (submit_order demo_ctx 1 demo_payload (Some ?k)) (Map.empty, 0)
    = interleave minted (replicate 15 True @ replicate 15 False @ []) (?p 0) (?p 1) (Map.empty, 0)"
    by (simp only: racing_schedule_def append.simps interleave.simps if_True if_False append_Nil2) (simp add: minted_lookup)
  also have "\<dots> = interleave minted (replicate 15 False @ []) (Return (o1, False)) (?p 1) (m1, 2)"
    unfolding interleave_first [OF minted_accept_length] 1 by (simp add: numeral_2_eq_2)
  also have "\<dots> = (Return (o1, False), Return (o2, False), (m2, 4))"
    unfolding interleave_second [OF minted_accept_length] 2 by simp
  finally show "\<exists>o1 o2 w. interleave minted racing_schedule
       (submit_order demo_ctx 0 demo_payload (Some (lit ''key'')))
       (submit_order demo_ctx 1 demo_payload (Some (lit ''key''))) (Map.empty, 0)
       = (Return (o1, False), Return (o2, False), w)
     \<and> o_id o1 \<noteq> o_id o2
     \<and> map_option fst (fst w (Keys_api_idempotency (lit ''key''))) = Some (uuid_str (o_id o2))"
    using 1(2) 2(2,3) by simp
qed

end
