(* ===== verification/CacheReads.thy ===== *)
theory CacheReads
  imports Service
begin

text \<open>
  Cache-aside reads (\<open>app/cache.py\<close> and \<open>read_order\<close> in \<open>app/service.py\<close>): what is put is what is got,
  a cache outage costs time and not correctness, and the one failure of Redis that does surface.
\<close>

section \<open>The conversation of a cache read\<close>

fun is_redis :: "req \<Rightarrow> bool" where
  "is_redis (RedisSet _ _ _ _) = True"
| "is_redis (RedisGet _) = True"
| "is_redis (RedisDelete _) = True"
| "is_redis (RedisHincrby _ _ _) = True"
| "is_redis (RedisHgetall _) = True"
| "is_redis RedisPing = True"
| "is_redis (RedisEval _ _ _ _) = True"
| "is_redis RedisClose = True"
| "is_redis _ = False"

text \<open>Every command sent to Redis failed with an ordinary exception.\<close>

definition redis_away :: "trace \<Rightarrow> bool" where
  "redis_away t \<longleftrightarrow> (\<forall>q r. (q, r) \<in> set t \<longrightarrow> is_redis q \<longrightarrow> (\<exists>e. r = RErr e \<and> is_Exception e))"

lemma redis_away_simps [simp]:
  "redis_away []" "redis_away (a @ b) \<longleftrightarrow> redis_away a \<and> redis_away b"
  "redis_away ((q, r) # t) \<longleftrightarrow> (is_redis q \<longrightarrow> (\<exists>e. r = RErr e \<and> is_Exception e)) \<and> redis_away t"
  by (auto simp: redis_away_def)

lemma always_guarded_ask:
  "always (bindP (try_except is_Exception (bindP (ask get q) (\<lambda>x. Return (Some x))) (\<lambda>_. Return None)) f) Q \<longleftrightarrow>
     (\<forall>r. case answer get r of
        Inr x \<Rightarrow> always (f (Some x)) (\<lambda>t v. Q ((q, r) # t) v)
      | Inl e \<Rightarrow> if is_Exception e then always (f None) (\<lambda>t v. Q ((q, r) # t) v) else Q [(q, r)] (Inl e))"
  unfolding always_bindP always_try_except always_ask
  by (intro iff_allI) (simp split: sum.split)

lemma always_cache_get:
  "always (cache_get_order L i) (\<lambda>t v.
     (redis_away t \<longrightarrow> v = Inr None)
     \<and> (\<forall>out. v = Inr (Some out) \<longrightarrow>
          (\<exists>raw. (RedisGet (Keys_order i), RStr (Some raw)) \<in> set t \<and> load_order_out L raw = Some out))
     \<and> (\<forall>e. v = Inl e \<longrightarrow> is_Exception e \<longrightarrow>
          (\<exists>raw y x. t = [(RedisGet (Keys_order i), RStr (Some raw)),
             (RedisHincrby Keys_STATS STAT_CACHE_HITS 1, y), (RedisDelete (Keys_order i), x)]
           \<and> load_order_out L raw = None \<and> answer get_int x = Inl e)))"
  (is "always _ ?Q")
proof -
  let ?g = "RedisGet (Keys_order i)"
  let ?rest = "\<lambda>got. case got of
      None \<Rightarrow> Return None
    | Some None \<Rightarrow> seqP (incr_stat STAT_CACHE_MISSES 1) (Return None)
    | Some (Some raw) \<Rightarrow> seqP (incr_stat STAT_CACHE_HITS 1)
        (case load_order_out L raw of
           Some out \<Rightarrow> Return (Some out)
         | None \<Rightarrow> seqP (ask get_int (RedisDelete (Keys_order i))) (Return None))"
  have miss: "always (?rest (Some None)) (\<lambda>t v. ?Q ((?g, RStr None) # t) v)"
    by (auto simp: incr_stat_def prog_simps settled_def is_Exception_def)
  have hit: "always (?rest (Some (Some raw))) (\<lambda>t v. ?Q ((?g, RStr (Some raw)) # t) v)" for raw
  proof (cases "load_order_out L raw")
    case None
    then show ?thesis
      by (auto simp: incr_stat_def prog_simps settled_def is_Exception_def split: sum.split)
  next
    case (Some out)
    then show ?thesis
      by (auto simp: incr_stat_def prog_simps settled_def is_Exception_def)
  qed
  have away: "?Q [(?g, r)] (if is_Exception e then Inr None else Inl e)" if "answer get_str r = Inl e" for r e
    using that by (auto simp: is_Exception_def answer_CancelledError)
  show ?thesis
    unfolding cache_get_order_def always_guarded_ask
  proof
    fix r
    show "case answer get_str r of
        Inr x \<Rightarrow> always (?rest (Some x)) (\<lambda>t v. ?Q ((?g, r) # t) v)
      | Inl e \<Rightarrow> if is_Exception e then always (?rest None) (\<lambda>t v. ?Q ((?g, r) # t) v) else ?Q [(?g, r)] (Inl e)"
    proof (cases "answer get_str r")
      case (Inl e)
      show ?thesis
        using away [OF Inl] unfolding Inl by (cases "is_Exception e") (simp_all only: sum.case if_True if_False option.case always.simps)
    next
      case (Inr raw)
      then have "r = RStr raw" by (simp add: answer_Inr)
      then show ?thesis
        using miss hit unfolding Inr by (cases raw) (simp_all only: sum.case)
    qed
  qed
qed

lemmas cache_getD = always_cache_get [unfolded always_conv, rule_format]

lemma conv_put_order:
  "conv (put_order C o') t v \<Longrightarrow> (v = Inr () \<or> v = Inl CancelledError) \<and> (redis_away t \<longrightarrow> v = Inr ())"
proof -
  have "always (put_order C o') (\<lambda>t v. (v = Inr () \<or> v = Inl CancelledError) \<and> (redis_away t \<longrightarrow> v = Inr ()))"
    by (auto simp: put_order_def prog_simps settled_def is_Exception_def)
  then show "conv (put_order C o') t v \<Longrightarrow> (v = Inr () \<or> v = Inl CancelledError) \<and> (redis_away t \<longrightarrow> v = Inr ())"
    by (simp add: always_conv)
qed

lemma cache_read_raises:
  assumes "conv (cache_get_order L i) t (Inl e)" and "is_Exception e"
  shows "\<exists>raw y x. t = [(RedisGet (Keys_order i), RStr (Some raw)),
       (RedisHincrby Keys_STATS STAT_CACHE_HITS 1, y), (RedisDelete (Keys_order i), x)]
     \<and> load_order_out L raw = None \<and> answer get_int x = Inl e"
  using cache_getD [OF assms(1)] assms(2) by blast

section \<open>Reading through the cache\<close>

lemma read_order_cases:
  assumes "conv (read_order C s i) t v"
  obtains (failed) e where "v = Inl e" and "conv (cache_get_order (lib C) (uuid_str i)) t (Inl e)"
    | (hit) out where "v = Inr (Some (order_read_of out Cache))"
        and "conv (cache_get_order (lib C) (uuid_str i)) t (Inr (Some out))"
    | (db_failed) t1 r e where "t = t1 @ [(DbGet s i, r)]" and "answer get_row r = Inl e" and "v = Inl e"
        and "conv (cache_get_order (lib C) (uuid_str i)) t1 (Inr None)"
    | (absent) t1 where "t = t1 @ [(DbGet s i, ROrder None)]" and "v = Inr None"
        and "conv (cache_get_order (lib C) (uuid_str i)) t1 (Inr None)"
    | (row) t1 o' t2 where "t = t1 @ (DbGet s i, ROrder (Some o')) # t2"
        and "v = Inr (Some (order_read_of (order_out_of o') Database)) \<or> v = Inl CancelledError \<and> \<not> redis_away t2"
        and "conv (cache_get_order (lib C) (uuid_str i)) t1 (Inr None)"
proof -
  let ?load = "bindP (get_order s i) (\<lambda>order. case order of None \<Rightarrow> Return None
      | Some o' \<Rightarrow> seqP (put_order C o') (Return (Some (order_read_of (order_out_of o') Database))))"
  from assms consider e where "v = Inl e" "conv (cache_get_order (lib C) (uuid_str i)) t (Inl e)"
    | t1 cached t2 where "t = t1 @ t2" "conv (cache_get_order (lib C) (uuid_str i)) t1 (Inr cached)"
        "conv (case cached of Some out \<Rightarrow> Return (Some (order_read_of out Cache)) | None \<Rightarrow> ?load) t2 v"
    unfolding read_order_def conv_bindP [of "cache_get_order _ _"] by blast
  then show thesis
  proof cases
    case 1
    then show thesis by (rule failed)
  next
    case (2 t1 cached t2)
    show thesis
    proof (cases cached)
      case (Some out)
      then show thesis using 2 hit by simp
    next
      case None
      with 2(3) obtain r t3 where t2: "t2 = (DbGet s i, r) # t3"
        and rest: "case answer get_row r of Inl e \<Rightarrow> t3 = [] \<and> v = Inl e
           | Inr order \<Rightarrow> conv (case order of None \<Rightarrow> Return None
               | Some o' \<Rightarrow> seqP (put_order C o') (Return (Some (order_read_of (order_out_of o') Database)))) t3 v"
        by (auto simp: get_order_def conv_bindP_ask)
      consider e where "answer get_row r = Inl e" | "r = ROrder None" | o' where "r = ROrder (Some o')"
        by (metis answer_Inr(6) option.exhaust sum.exhaust)
      then show thesis
      proof cases
        case 1
        then show thesis using 2 None t2 rest db_failed by simp
      next
        case 2
        then show thesis using \<open>t = t1 @ t2\<close> \<open>conv (cache_get_order (lib C) (uuid_str i)) t1 (Inr cached)\<close>
            None t2 rest absent by simp
      next
        case (3 o')
        then have "v = Inr (Some (order_read_of (order_out_of o') Database)) \<or> v = Inl CancelledError \<and> \<not> redis_away t3"
          using rest by (auto simp: conv_seqP dest: conv_put_order)
        then show thesis using \<open>t = t1 @ t2\<close> \<open>conv (cache_get_order (lib C) (uuid_str i)) t1 (Inr cached)\<close>
            None t2 3 row by simp
      qed
    qed
  qed
qed

section \<open>Properties\<close>

text \<open>
  C33. A cache outage degrades a read to the database, never to a failure: when every Redis command
  fails with an exception, the read returns the row the database answers with, marked as coming
  from the database, and fails only if the database does.
\<close>

theorem cache_outage_reads_database:
  assumes "conv (read_order C s i) t v" and "redis_away t"
  shows "\<exists>r. (DbGet s i, r) \<in> set t \<and> v = (case answer get_row r of
      Inl e \<Rightarrow> Inl e
    | Inr row \<Rightarrow> Inr (map_option (\<lambda>o'. order_read_of (order_out_of o') Database) row))"
  using assms(1)
proof (cases rule: read_order_cases)
  case (failed e)
  then show ?thesis using cache_getD [OF failed(2)] assms(2) by simp
next
  case (hit out)
  then show ?thesis using cache_getD [OF hit(2)] assms(2) by simp
qed (use assms(2) in auto)

theorem cache_outage_reads_database_witness:
  "\<exists>t v. conv (read_order demo_ctx 0 7) t v \<and> redis_away t
     \<and> v = Inr (Some (order_read_of (order_out_of demo_order) Database))"
proof -
  let ?rs = "[RErr (OSError (lit ''refused'')), ROrder (Some demo_order), RErr (OSError (lit ''refused''))]"
  let ?p = "read_order demo_ctx 0 7"
  have t: "trail scripted ?p ?rs = [(RedisGet (Keys_order (uuid_str 7)), RErr (OSError (lit ''refused''))),
      (DbGet 0 7, ROrder (Some demo_order)),
      (RedisSet (Keys_order (uuid_str 7)) (lit ''{}'') False (Some 60), RErr (OSError (lit ''refused'')))]"
    by (simp add: read_order_def cache_get_order_def get_order_def put_order_def serialize_def trail_simps exec_simps
        settled_def is_Exception_def demo_ctx_def demo_libs_def demo_order_def default_settings_def)
  then have away: "redis_away (trail scripted ?p ?rs)" by (simp add: is_Exception_def)
  from cache_outage_reads_database [OF conv_scripted away] t
  have "fst (exec scripted ?p ?rs) = Inr (Some (order_read_of (order_out_of demo_order) Database))" by auto
  with away conv_scripted [of ?p ?rs] show ?thesis by metis
qed

text \<open>
  C34. The one Redis failure a read passes on: looking an order up in the cache raises an exception
  only when the entry was there, could not be read as an order, and its removal failed.
\<close>

theorem cache_read_errors:
  assumes "conv (cache_get_order L i) t (Inl e)" and "is_Exception e"
  shows "\<exists>raw y x. t = [(RedisGet (Keys_order i), RStr (Some raw)),
       (RedisHincrby Keys_STATS STAT_CACHE_HITS 1, y), (RedisDelete (Keys_order i), x)]
     \<and> load_order_out L raw = None \<and> answer get_int x = Inl e"
  by (rule cache_read_raises [OF assms])

theorem cache_read_errors_witness:
  "\<exists>t e raw. conv (cache_get_order demo_libs (lit ''7'')) t (Inl e)
     \<and> (RedisGet (Keys_order (lit ''7'')), RStr (Some raw)) \<in> set t \<and> load_order_out demo_libs raw = None"
proof -
  let ?p = "cache_get_order demo_libs (lit ''7'')" and ?rs = "[RStr (Some (lit ''junk'')), RInt 1, RErr (OSError [])]"
  have "fst (exec scripted ?p ?rs) = Inl (OSError [])"
    by (simp add: cache_get_order_def incr_stat_def exec_simps settled_def demo_libs_def)
  then have c: "conv ?p (trail scripted ?p ?rs) (Inl (OSError []))" using conv_scripted [of ?p ?rs] by simp
  from cache_read_errors [OF c] obtain raw where
    "(RedisGet (Keys_order (lit ''7'')), RStr (Some raw)) \<in> set (trail scripted ?p ?rs)"
    "load_order_out demo_libs raw = None"
    by (auto simp: is_Exception_def)
  with c show ?thesis by blast
qed

text \<open>
  The cache returns what was put: after a write-through of a row that Redis acknowledged, a
  lookup returns that row's public form, or nothing once the entry has expired.  (Assumed of
  pydantic: the text of this order's public form parses back to it.)
\<close>

theorem cache_returns_what_was_put:
  assumes R: "redis_contract h ks"
    and law: "load_order_out (lib C) (dump_order_out (lib C) (order_out_of o')) = Some (order_out_of o')"
    and put: "exec h (put_order C o') w = (Inr (), w1)"
      "fst (h w (RedisSet (Keys_order (uuid_str (o_id o'))) (serialize (lib C) o') False
         (Some (cache_ttl_seconds (cfg C))))) = RBool True"
    and get: "exec h (cache_get_order (lib C) (uuid_str (o_id o'))) w1 = (Inr res, w2)"
  shows "res = None \<or> res = Some (order_out_of o')"
proof (rule ccontr)
  let ?K = "Keys_order (uuid_str (o_id o'))"
  assume contr: "\<not> ?thesis"
  then obtain out where out: "res = Some out" "out \<noteq> order_out_of o'" by (cases res) auto
  have w1: "w1 = snd (h w (RedisSet ?K (serialize (lib C) o') False (Some (cache_ttl_seconds (cfg C)))))"
    using put(1) by (simp add: put_order_def exec_best_effort)
  have stored: "ks w1 ?K = Some (serialize (lib C) o', Some (cache_ttl_seconds (cfg C)))"
    using contract_set_unit [OF R, of w ?K] put(2) w1 by (simp add: answer_def)
  from get out(1) obtain raw where raw: "answer get_str (fst (h w1 (RedisGet ?K))) = Inr (Some raw)"
    "load_order_out (lib C) raw = Some out"
    by (auto simp: cache_get_order_def incr_stat_def settled_def exec_simps is_Exception_def
        split: sum.splits option.splits if_splits)
  from contract_get [OF R raw(1)] have "map_option fst (ks (snd (h w1 (RedisGet ?K))) ?K) = Some raw"
    and "ages (ks w1 ?K) (ks (snd (h w1 (RedisGet ?K))) ?K)"
    by (auto simp: elapse_def)
  with stored have "raw = serialize (lib C) o'" using ages_value by fastforce
  then show False using raw(2) law out(2) by (simp add: serialize_def)
qed

theorem cache_returns_what_was_put_witness:
  "\<exists>w1 res w2. exec stock (put_order demo_ctx demo_order) Map.empty = (Inr (), w1)
     \<and> exec stock (cache_get_order demo_libs (uuid_str (o_id demo_order))) w1 = (Inr res, w2)
     \<and> (res = None \<or> res = Some (order_out_of demo_order))"
proof -
  let ?w1 = "[Keys_order (uuid_str 7) \<mapsto> (lit ''{}'', Some 60)]"
  have 1: "exec stock (put_order demo_ctx demo_order) Map.empty = (Inr (), ?w1)"
    by (simp add: put_order_def exec_simps stock_def settled_def serialize_def demo_ctx_def demo_libs_def demo_order_def
        default_settings_def)
  have 2: "\<exists>res. exec stock (cache_get_order demo_libs (uuid_str (o_id demo_order))) ?w1 = (Inr res, ?w1)"
    by (simp add: cache_get_order_def incr_stat_def exec_simps stock_def settled_def demo_libs_def demo_order_def)
  then obtain res where 2: "exec stock (cache_get_order demo_libs (uuid_str (o_id demo_order))) ?w1 = (Inr res, ?w1)"
    by blast
  have lib: "lib demo_ctx = demo_libs" by (simp add: demo_ctx_def)
  have law: "load_order_out (lib demo_ctx) (dump_order_out (lib demo_ctx) (order_out_of demo_order))
      = Some (order_out_of demo_order)"
    by (simp add: lib) (simp add: demo_libs_def demo_out_def)
  have "fst (stock Map.empty (RedisSet (Keys_order (uuid_str (o_id demo_order))) (serialize (lib demo_ctx) demo_order)
      False (Some (cache_ttl_seconds (cfg demo_ctx))))) = RBool True"
    by (simp add: stock_def)
  from cache_returns_what_was_put [OF stock_contract law 1 this 2 [folded lib]] 1 2 show ?thesis by blast
qed

end
