(* ===== verification/Api.thy ===== *)
theory Api
  imports CacheReads
begin

text \<open>
  The HTTP surface (\<open>app/api/routes.py\<close>).  A handler is a definition that takes the session which
  \<open>Depends(get_session)\<close> hands it, and returns the status code with the body; \<open>served\<close> runs it in
  that session.  Parsing requests and rendering JSON is FastAPI's; the constraints the signatures
  declare are the predicates \<open>order_create_ok\<close> and \<open>page_ok\<close>.
\<close>

section \<open>Handlers\<close>

type_synonym 'a response = "int \<times> 'a"

definition served :: "(nat \<Rightarrow> 'a io) \<Rightarrow> 'a io" where
  "served handler = get_session handler"

definition api_create_order :: "ctx \<Rightarrow> nat \<Rightarrow> order_create \<Rightarrow> str option \<Rightarrow> order_accepted response io" where
  "api_create_order C session payload key =
     bindP (submit_order C session payload key) (\<lambda>(order, duplicate).
       if duplicate then
         Return (200, \<lparr>oa_id = o_id order, oa_status = o_status order, oa_duplicate = True,
           oa_message = lit ''Idempotency-Key already used; returning the original order''\<rparr>)
       else
         Return (202, \<lparr>oa_id = o_id order, oa_status = o_status order, oa_duplicate = False,
           oa_message = lit ''Order accepted for processing''\<rparr>))"

definition api_get_order :: "ctx \<Rightarrow> nat \<Rightarrow> uuid \<Rightarrow> order_read response io" where
  "api_get_order C session order_id =
     bindP (read_order C session order_id) (\<lambda>order.
       case order of
         None \<Rightarrow> Raise (HTTPException 404 (lit ''order not found''))
       | Some o' \<Rightarrow> Return (200, o'))"

text \<open>The bounds that the signatures put on \<open>limit\<close> and \<open>offset\<close>.\<close>

definition page_ok :: "int \<Rightarrow> int \<Rightarrow> bool" where
  "page_ok limit offset \<longleftrightarrow> 1 \<le> limit \<and> limit \<le> 200 \<and> 0 \<le> offset"

definition api_list_orders :: "nat \<Rightarrow> order_status option \<Rightarrow> int \<Rightarrow> int \<Rightarrow> order_out list response io" where
  "api_list_orders session status_filter limit offset =
     bindP (list_orders session status_filter limit offset) (\<lambda>orders.
       Return (200, map order_out_of orders))"

text \<open>A row that does not fit the response model makes FastAPI raise, for the whole list.\<close>

definition api_list_dead_letters :: "nat \<Rightarrow> int \<Rightarrow> int \<Rightarrow> dead_letter_out list response io" where
  "api_list_dead_letters session limit offset =
     bindP (list_dead_letters session limit offset) (\<lambda>letters.
       case those (map dead_letter_out_of letters) of
         Some outs \<Rightarrow> Return (200, outs)
       | None \<Rightarrow> Raise (ServiceError (lit ''response validation'')))"

text \<open>\<open>/\<close> (\<open>app/main.py\<close>): a redirect, with the default status of \<open>RedirectResponse\<close>.\<close>

definition root :: "str response io" where
  "root = Return (307, lit ''/docs'')"

definition stats_of :: "(str \<times> int) list \<Rightarrow> stats" where
  "stats_of counters =
     (let field = (\<lambda>k. case map_of counters k of Some n \<Rightarrow> n | None \<Rightarrow> 0) in \<lparr>
        published = field (lit ''published''),
        consumed = field (lit ''consumed''),
        completed = field (lit ''completed''),
        failed = field (lit ''failed''),
        duplicates_skipped = field (lit ''duplicates_skipped''),
        retries_scheduled = field (lit ''retries_scheduled''),
        dead_lettered = field (lit ''dead_lettered''),
        cache_hits = field (lit ''cache_hits''),
        cache_misses = field (lit ''cache_misses'')\<rparr>)"

record stats_out =
  so_pipeline :: stats
  so_cache_hit_ratio :: rat
  so_orders_by_status :: "(order_status \<times> int) list"

definition api_stats :: "nat \<Rightarrow> stats_out response io" where
  "api_stats session =
     bindP read_stats (\<lambda>counters.
     let pipeline = stats_of counters in
     bindP (count_by_status session) (\<lambda>by_status.
     Return (200, \<lparr>so_pipeline = pipeline, so_cache_hit_ratio = cache_hit_ratio pipeline,
       so_orders_by_status = by_status\<rparr>)))"

definition api_reset_stats :: "unit response io" where
  "api_reset_stats = seqP reset_stats (Return (204, ()))"

definition api_health :: "ctx \<Rightarrow> health_out response io" where
  "api_health C =
     bindP db_ping (\<lambda>postgres.
     bindP redis_ping (\<lambda>redis_ok.
     bindP (producer_ping C) (\<lambda>kafka.
     let healthy = (postgres \<and> redis_ok \<and> kafka) in
     Return (if \<not> healthy then 503 else 200,
       \<lparr>ho_status = (if healthy then HEALTH_OK else HEALTH_DEGRADED), ho_postgres = postgres, ho_redis = redis_ok, ho_kafka = kafka\<rparr>))))"

section \<open>Lemmas\<close>

text \<open>A probe never raises an ordinary exception.\<close>

definition probes :: "bool io \<Rightarrow> bool" where
  "probes p \<longleftrightarrow> (\<forall>t v. conv p t v \<longrightarrow> v = Inl CancelledError \<or> (\<exists>b. v = Inr b))"

lemma probesI: "probes (try_except is_Exception p (\<lambda>_. Return False))"
  unfolding probes_def conv_try_except by (auto simp: is_Exception_def)

lemma api_probes: "probes db_ping" "probes redis_ping" "probes (producer_ping C)"
  unfolding db_ping_def redis_ping_def producer_ping_def by (rule probesI)+

lemma probe_bind:
  assumes "probes p" and "conv (bindP p f) t v" and "v \<noteq> Inl CancelledError"
  obtains t1 b t2 where "t = t1 @ t2" and "conv p t1 (Inr b)" and "conv (f b) t2 v"
  using assms(2) [unfolded conv_bindP]
proof (elim disjE exE conjE)
  fix e
  assume "v = Inl e" and "conv p t (Inl e)"
  with assms(1,3) have False unfolding probes_def by blast
  then show thesis ..
qed (rule that)

text \<open>What each dependency answered in a conversation of the endpoint.\<close>

definition postgres_answered :: "trace \<Rightarrow> bool" where
  "postgres_answered t \<longleftrightarrow> (\<exists>s. (DbOpen, RSid s) \<in> set t \<and> acked t (DbSelectOne s) \<and> acked t (DbClose s))"

definition redis_answered :: "trace \<Rightarrow> bool" where
  "redis_answered t \<longleftrightarrow> (RedisPing, RBool True) \<in> set t"

definition kafka_answered :: "ctx \<Rightarrow> trace \<Rightarrow> bool" where
  "kafka_answered C t \<longleftrightarrow> producer C \<and> acked t FetchMetadata"

lemma other_pings:
  "conv db_ping t v \<Longrightarrow> \<not> redis_answered t \<and> \<not> acked t FetchMetadata"
  "conv redis_ping t v \<Longrightarrow> (\<forall>r. (DbOpen, r) \<notin> set t) \<and> (\<forall>s. \<not> acked t (DbSelectOne s) \<and> \<not> acked t (DbClose s)) \<and> \<not> acked t FetchMetadata"
  "conv (producer_ping C) t v \<Longrightarrow> (\<forall>r. (DbOpen, r) \<notin> set t) \<and> (\<forall>s. \<not> acked t (DbSelectOne s) \<and> \<not> acked t (DbClose s)) \<and> \<not> redis_answered t"
proof -
  have pings: "only (\<lambda>q. q \<noteq> RedisPing \<and> q \<noteq> FetchMetadata) db_ping"
    "only (\<lambda>q. q = RedisPing) redis_ping" "only (\<lambda>q. q = FetchMetadata) (producer_ping C)"
    by (auto simp: db_ping_def redis_ping_def producer_ping_def get_producer_def)
  show "conv db_ping t v \<Longrightarrow> \<not> redis_answered t \<and> \<not> acked t FetchMetadata"
    using only_conv [OF pings(1)] by (fastforce simp: redis_answered_def acked_def)
  show "conv redis_ping t v \<Longrightarrow> (\<forall>r. (DbOpen, r) \<notin> set t) \<and> (\<forall>s. \<not> acked t (DbSelectOne s) \<and> \<not> acked t (DbClose s)) \<and> \<not> acked t FetchMetadata"
    using only_conv [OF pings(2)] by (fastforce simp: acked_def)
  show "conv (producer_ping C) t v \<Longrightarrow> (\<forall>r. (DbOpen, r) \<notin> set t) \<and> (\<forall>s. \<not> acked t (DbSelectOne s) \<and> \<not> acked t (DbClose s)) \<and> \<not> redis_answered t"
    using only_conv [OF pings(3)] by (fastforce simp: acked_def redis_answered_def)
qed

lemma answer_unit_failed: "answer get_unit r = Inl e \<Longrightarrow> \<not> ok_resp r"
  using answer_unit_ok [of r "()"] by simp

lemma isl_answer_unit: "isl (answer get_unit r) \<longleftrightarrow> \<not> ok_resp r"
  using answer_unit_ok [of r "()"] by (cases "answer get_unit r") simp_all

lemma redis_ping_run: "conv redis_ping t (Inr b) \<Longrightarrow> b \<longleftrightarrow> redis_answered t"
  unfolding redis_ping_def conv_try_except
  by (auto simp: conv_ask redis_answered_def dest: answer_Inl [OF sym])
    (auto simp: eq_commute [of "Inr _" "answer _ _"] answer_Inr bad_reply_def)

lemma producer_ping_run: "conv (producer_ping C) t (Inr b) \<Longrightarrow> b \<longleftrightarrow> kafka_answered C t"
  unfolding producer_ping_def conv_try_except get_producer_def
  by (cases "producer C")
    (auto simp: conv_seqP conv_ask kafka_answered_def eq_commute [of "Inr _" "answer _ _"] answer_unit_ok
      dest: answer_unit_failed [OF sym])

lemma select_run:
  assumes "conv (try_finally (ask get_unit (DbSelectOne s)) (ask get_unit (DbClose s))) t w"
  shows "\<exists>x y. t = [(DbSelectOne s, x), (DbClose s, y)] \<and> (isl w \<longleftrightarrow> \<not> (ok_resp x \<and> ok_resp y))"
proof -
  from assms consider x y u where "t = [(DbSelectOne s, x), (DbClose s, y)]" "w = answer get_unit x" "answer get_unit y = Inr u"
    | x y e where "t = [(DbSelectOne s, x), (DbClose s, y)]" "answer get_unit y = Inl e" "w = Inl e"
    unfolding conv_try_finally conv_ask by force
  then show ?thesis
  proof cases
    case 1
    then show ?thesis using isl_answer_unit [of x] isl_answer_unit [of y] by (intro exI [of _ x] exI [of _ y]) simp
  next
    case 2
    then show ?thesis using isl_answer_unit [of y] by (intro exI [of _ x] exI [of _ y]) simp
  qed
qed

lemma db_probe_run:
  assumes "conv (seqP (bindP (ask get_sid DbOpen) (\<lambda>s. try_finally (ask get_unit (DbSelectOne s)) (ask get_unit (DbClose s))))
      (Return True)) t v"
  shows "if isl v then \<not> postgres_answered t else postgres_answered t \<and> v = Inr True"
proof -
  from assms obtain w where "conv (bindP (ask get_sid DbOpen)
      (\<lambda>s. try_finally (ask get_unit (DbSelectOne s)) (ask get_unit (DbClose s)))) t w"
    and v: "isl v \<longleftrightarrow> isl w" "isl v \<or> v = Inr True"
    unfolding conv_seqP by auto
  then obtain t1 o' t2 where t: "t = t1 @ t2" and open_db: "conv (ask get_sid DbOpen) t1 o'"
    and rest: "case o' of Inl e \<Rightarrow> t2 = [] \<and> w = Inl e
      | Inr s \<Rightarrow> conv (try_finally (ask get_unit (DbSelectOne s)) (ask get_unit (DbClose s))) t2 w"
    by (elim conv_bindPE)
  from open_db obtain r where r: "t1 = [(DbOpen, r)]" "o' = answer get_sid r" by (auto simp: conv_ask)
  show ?thesis
  proof (cases o')
    case (Inl e)
    then show ?thesis using rest r t v by (auto simp: postgres_answered_def)
  next
    case (Inr s)
    then have "r = RSid s" using r(2) by (simp add: answer_Inr [symmetric])
    moreover obtain x y where "t2 = [(DbSelectOne s, x), (DbClose s, y)]" "isl w \<longleftrightarrow> \<not> (ok_resp x \<and> ok_resp y)"
      using select_run rest Inr by fastforce
    ultimately show ?thesis using v r(1) t by (auto simp: postgres_answered_def)
  qed
qed

lemma db_ping_run:
  assumes "conv db_ping t (Inr b)"
  shows "b \<longleftrightarrow> postgres_answered t"
proof -
  let ?p = "seqP (bindP (ask get_sid DbOpen) (\<lambda>s. try_finally (ask get_unit (DbSelectOne s)) (ask get_unit (DbClose s))))
      (Return True)"
  from assms consider "conv ?p t (Inr b)" | e where "conv ?p t (Inl e)" "\<not> b"
    unfolding db_ping_def conv_try_except by auto
  then show ?thesis
  proof cases
    case 1
    from db_probe_run [OF 1] show ?thesis by simp
  next
    case 2
    from db_probe_run [OF 2(1)] 2(2) show ?thesis by simp
  qed
qed

lemma api_create_result:
  assumes "conv (api_create_order C s p key) t (Inr (code, body))"
  shows "\<exists>o' dup. conv (submit_order C s p key) t (Inr (o', dup)) \<and> code = (if dup then 200 else 202)
     \<and> oa_duplicate body = dup \<and> oa_id body = o_id o' \<and> oa_status body = o_status o'"
  using assms by (fastforce simp: api_create_order_def conv_bindP split: if_splits)

text \<open>An exception of a read is one that some request was answered with.\<close>

lemma read_order_raises:
  assumes "conv (read_order C s i) t (Inl e)"
  shows "e = CancelledError \<or> e = bad_reply \<or> (\<exists>q. (q, RErr e) \<in> set t)"
  using assms
proof (cases rule: read_order_cases)
  case (failed e')
  then show ?thesis
    using cache_read_raises [of "lib C" "uuid_str i" t e] answer_Inl by (fastforce simp: is_Exception_def)
next
  case (db_failed t1 r e')
  then show ?thesis using answer_Inl [of get_row r e] by auto
qed auto

lemma api_get_result:
  assumes "conv (api_get_order C s i) t v"
  shows "(\<exists>rd. v = Inr (200, rd) \<and> conv (read_order C s i) t (Inr (Some rd)))
     \<or> (v = Inl (HTTPException 404 (lit ''order not found'')) \<and> conv (read_order C s i) t (Inr None))
     \<or> (\<exists>e. v = Inl e \<and> conv (read_order C s i) t (Inl e))"
  using assms by (auto simp: api_get_order_def conv_bindP split: option.splits)

section \<open>Properties\<close>

text \<open>
  \<open>POST /orders\<close> answers 202 exactly for an order that this request wrote, committed and
  published, and 200 exactly for a repetition of a known idempotency key; the body carries the
  order's id and status.
\<close>

theorem create_order_status_codes:
  assumes "conv (api_create_order C s p key) t (Inr (code, body))"
  shows "(code = 202 \<and> \<not> oa_duplicate body \<and> (\<exists>o'. accepted_row p o' \<and> durable t (SaveOrder o')
        \<and> published_in C o' t \<and> oa_id body = o_id o' \<and> oa_status body = PENDING))
     \<or> (code = 200 \<and> oa_duplicate body \<and> (\<exists>k raw u o'. key = Some k \<and> uuid_parse raw = Some u
        \<and> t = [(RedisGet (Keys_api_idempotency k), RStr (Some raw)), (DbGet s u, ROrder (Some o'))]
        \<and> oa_id body = o_id o' \<and> oa_status body = o_status o'))"
proof -
  obtain o' dup where run: "conv (submit_order C s p key) t (Inr (o', dup))"
    and r: "code = (if dup then 200 else 202)" "oa_duplicate body = dup" "oa_id body = o_id o'"
      "oa_status body = o_status o'"
    using api_create_result [OF assms] by blast
  show ?thesis
  proof (cases dup)
    case True
    then show ?thesis using submit_order_result [OF run] r by simp blast
  next
    case False
    then show ?thesis using submit_order_result [OF run] r by (auto simp: accepted_row_def)
  qed
qed

lemma demo_created:
  "\<exists>t body. conv (api_create_order demo_ctx 0 demo_payload None) t (Inr (202, body))"
proof -
  let ?p = "api_create_order demo_ctx 0 demo_payload None"
  have "\<exists>body. fst (exec stock ?p Map.empty) = Inr (202, body)"
    by (simp add: api_create_order_def submit_order_def accept_order_def create_order_def utcnow_def
        remember_key_def new_event_def publish_event_def get_producer_def build_def incr_stat_def put_order_def
        Let_def exec_simps stock_def demo_ctx_def settled_def answer_def)
  then show ?thesis using conv_exec [of ?p stock Map.empty] by metis
qed

theorem create_order_status_codes_witness:
  "\<exists>t body o'. conv (api_create_order demo_ctx 0 demo_payload None) t (Inr (202, body))
     \<and> durable t (SaveOrder o') \<and> oa_id body = o_id o' \<and> oa_status body = PENDING"
proof -
  obtain t body where c: "conv (api_create_order demo_ctx 0 demo_payload None) t (Inr (202, body))"
    using demo_created by blast
  from create_order_status_codes [OF c] c show ?thesis by auto
qed

text \<open>
  C35. \<open>GET /health\<close> always answers unless it is cancelled, and says what the dependencies said: the three flags of
  the body are whether Postgres served a session with the probe's \<open>SELECT 1\<close> in it, Redis answered \<open>PING\<close> with true,
  and the started producer got the metadata; the status code is 200 exactly when all three did, and 503 otherwise.
\<close>

theorem health_reports_every_outage:
  assumes "conv (api_health C) t v" and "v \<noteq> Inl CancelledError"
  shows "\<exists>code h. v = Inr (code, h)
     \<and> ho_postgres h = postgres_answered t \<and> ho_redis h = redis_answered t \<and> ho_kafka h = kafka_answered C t
     \<and> code = (if postgres_answered t \<and> redis_answered t \<and> kafka_answered C t then 200 else 503)
     \<and> (ho_status h = HEALTH_OK \<longleftrightarrow> code = 200)"
proof -
  have "\<exists>t1 b1 t2 b2 t3 b3. t = t1 @ t2 @ t3
    \<and> conv db_ping t1 (Inr b1) \<and> conv redis_ping t2 (Inr b2) \<and> conv (producer_ping C) t3 (Inr b3)
    \<and> v = Inr (if \<not> (b1 \<and> b2 \<and> b3) then 503 else 200,
      \<lparr>ho_status = (if b1 \<and> b2 \<and> b3 then HEALTH_OK else HEALTH_DEGRADED), ho_postgres = b1, ho_redis = b2, ho_kafka = b3\<rparr>)"
    using assms(1) [unfolded api_health_def Let_def] assms(2)
    by (elim probe_bind [OF api_probes(1)] probe_bind [OF api_probes(2)] probe_bind [OF api_probes(3)]) auto
  then obtain t1 b1 t2 b2 t3 b3 where t: "t = t1 @ t2 @ t3"
    and pings: "conv db_ping t1 (Inr b1)" "conv redis_ping t2 (Inr b2)" "conv (producer_ping C) t3 (Inr b3)"
    and v: "v = Inr (if \<not> (b1 \<and> b2 \<and> b3) then 503 else 200,
      \<lparr>ho_status = (if b1 \<and> b2 \<and> b3 then HEALTH_OK else HEALTH_DEGRADED), ho_postgres = b1, ho_redis = b2, ho_kafka = b3\<rparr>)"
    by blast
  note others = other_pings(1) [OF pings(1)] other_pings(2) [OF pings(2)] other_pings(3) [OF pings(3)]
  have "b1 \<longleftrightarrow> postgres_answered t" "b2 \<longleftrightarrow> redis_answered t" "b3 \<longleftrightarrow> kafka_answered C t"
    using db_ping_run [OF pings(1)] redis_ping_run [OF pings(2)] producer_ping_run [OF pings(3)] others
    unfolding t by (auto simp: postgres_answered_def redis_answered_def kafka_answered_def)
  then show ?thesis unfolding v by simp
qed

theorem health_reports_every_outage_witness:
  "\<exists>t h. conv (api_health demo_ctx) t (Inr (503, h)) \<and> \<not> postgres_answered t \<and> \<not> ho_postgres h \<and> ho_redis h \<and> ho_kafka h
     \<and> ho_status h = HEALTH_DEGRADED"
proof -
  let ?p = "api_health demo_ctx" and ?rs = "[RErr (OSError []), RBool True, RUnit]"
  have t: "trail scripted ?p ?rs = [(DbOpen, RErr (OSError [])), (RedisPing, RBool True), (FetchMetadata, RUnit)]"
    by (simp add: api_health_def db_ping_def redis_ping_def producer_ping_def get_producer_def exec_simps trail_simps
        Let_def is_Exception_def demo_ctx_def)
  have v: "fst (exec scripted ?p ?rs) \<noteq> Inl CancelledError"
    by (simp add: api_health_def db_ping_def redis_ping_def producer_ping_def get_producer_def exec_simps Let_def
        is_Exception_def demo_ctx_def)
  have flags: "\<not> postgres_answered (trail scripted ?p ?rs)" "redis_answered (trail scripted ?p ?rs)"
    "kafka_answered demo_ctx (trail scripted ?p ?rs)"
    unfolding t by (simp_all add: postgres_answered_def redis_answered_def kafka_answered_def ok_resp_def demo_ctx_def)
  obtain h where run: "fst (exec scripted ?p ?rs) = Inr (503, h)" and h: "\<not> ho_postgres h" "ho_redis h" "ho_kafka h"
    "ho_status h \<noteq> HEALTH_OK"
    using health_reports_every_outage [OF conv_scripted v] flags by auto
  have "ho_status h = HEALTH_DEGRADED" using h(4) by (cases "ho_status h") auto
  then show ?thesis using conv_scripted [of ?p ?rs] flags(1) run h by metis
qed

text \<open>
  \<open>GET /orders/{id}\<close> answers 404 only when neither the cache nor the database has the order: a
  404 means the cache gave nothing and the database answered that there is no such row.
\<close>

theorem not_found_means_no_row:
  assumes "conv (api_get_order C s i) t (Inl (HTTPException 404 d))"
    and "\<And>q e. (q, RErr e) \<in> set t \<Longrightarrow> \<forall>n m. e \<noteq> HTTPException n m"
  shows "(DbGet s i, ROrder None) \<in> set t"
proof -
  have "d = lit ''order not found'' \<and> conv (read_order C s i) t (Inr None)
      \<or> conv (read_order C s i) t (Inl (HTTPException 404 d))"
    using api_get_result [OF assms(1)] by auto
  moreover have "\<not> conv (read_order C s i) t (Inl (HTTPException 404 d))"
    using read_order_raises [of C s i t "HTTPException 404 d"] assms(2) by (auto simp: bad_reply_def)
  ultimately have "conv (read_order C s i) t (Inr None)" by blast
  then show ?thesis by (cases rule: read_order_cases) auto
qed

theorem not_found_means_no_row_witness:
  "\<exists>t. conv (api_get_order demo_ctx 0 7) t (Inl (HTTPException 404 (lit ''order not found'')))
     \<and> (DbGet 0 7, ROrder None) \<in> set t"
proof -
  let ?p = "api_get_order demo_ctx 0 7" and ?rs = "[RStr None, RInt 1, ROrder None]"
  have t: "trail scripted ?p ?rs = [(RedisGet (Keys_order (uuid_str 7)), RStr None),
      (RedisHincrby Keys_STATS STAT_CACHE_MISSES 1, RInt 1), (DbGet 0 7, ROrder None)]"
    and e: "fst (exec scripted ?p ?rs) = Inl (HTTPException 404 (lit ''order not found''))"
    by (simp_all add: api_get_order_def read_order_def cache_get_order_def get_order_def incr_stat_def trail_simps
        exec_simps settled_def)
  have c: "conv ?p (trail scripted ?p ?rs) (Inl (HTTPException 404 (lit ''order not found'')))"
    using conv_scripted [of ?p ?rs] e by simp
  have "(DbGet 0 7, ROrder None) \<in> set (trail scripted ?p ?rs)"
    by (rule not_found_means_no_row [OF c]) (auto simp: t)
  with c show ?thesis by blast
qed

text \<open>
  The hit ratio that \<open>GET /stats\<close> reports lies between 0 and 1 whenever the two counters it is
  computed from are not negative.
\<close>

theorem reported_hit_ratio_in_range:
  assumes "conv (api_stats s) t (Inr (code, out))"
    and "0 \<le> cache_hits (so_pipeline out)" and "0 \<le> cache_misses (so_pipeline out)"
  shows "0 \<le> so_cache_hit_ratio out \<and> so_cache_hit_ratio out \<le> 1"
proof -
  have "so_cache_hit_ratio out = cache_hit_ratio (so_pipeline out)"
    using assms(1) by (auto simp: api_stats_def conv_bindP Let_def)
  then show ?thesis using cache_hit_ratio_unit assms(2,3) by simp
qed

theorem reported_hit_ratio_in_range_witness:
  "\<exists>t out. conv (api_stats 0) t (Inr (200, out)) \<and> so_cache_hit_ratio out \<le> 1"
proof -
  let ?rs = "[RHash [], RCounts []]"
  obtain out where e: "fst (exec scripted (api_stats 0) ?rs) = Inr (200, out)"
    and n: "cache_hits (so_pipeline out) = 0" "cache_misses (so_pipeline out) = 0"
    by (simp add: api_stats_def read_stats_def count_by_status_def exec_simps Let_def stats_of_def)
  have c: "conv (api_stats 0) (trail scripted (api_stats 0) ?rs) (Inr (200, out))"
    using conv_scripted [of "api_stats 0" ?rs] e by simp
  from reported_hit_ratio_in_range [OF c] n c show ?thesis by auto
qed

end
