(* ===== verification/Policies.thy ===== *)
theory Policies
  imports Processing Producer Database Demo
begin

text \<open>
  The policies the pipeline is built from: record headers (\<open>app/kafka/headers.py\<close>), business
  validation and backoff (\<open>app/processing.py\<close>), and the creation of topics
  (\<open>app/kafka/admin.py\<close>).
\<close>

section \<open>Topic bootstrap\<close>

text \<open>How often the admin client was opened and closed in a conversation.\<close>

fun is_admin_start :: "req \<Rightarrow> bool" where
  "is_admin_start (AdminStart _) = True"
| "is_admin_start _ = False"

definition opened :: "trace \<Rightarrow> nat" where
  "opened t = length (filter (\<lambda>x. is_admin_start (fst x)) t)"

definition closed :: "trace \<Rightarrow> nat" where
  "closed t = length (filter (\<lambda>x. fst x = AdminClose) t)"

lemma opened_simps [simp]:
  "opened [] = 0" "opened (a @ b) = opened a + opened b"
  "opened ((q, r) # t) = (if is_admin_start q then Suc (opened t) else opened t)"
  by (auto simp: opened_def)

lemma closed_simps [simp]:
  "closed [] = 0" "closed (a @ b) = closed a + closed b"
  "closed ((q, r) # t) = (if q = AdminClose then Suc (closed t) else closed t)"
  by (auto simp: closed_def)

text \<open>The topics a pass leaves to be created, given those the broker lists.\<close>

definition missing_topics :: "settings \<Rightarrow> str list \<Rightarrow> new_topic list" where
  "missing_topics s existing = filter (\<lambda>t. nt_name t \<notin> set existing) (desired_topics s)"

definition topics_ensured :: "settings \<Rightarrow> trace \<Rightarrow> bool" where
  "topics_ensured s t \<longleftrightarrow>
     (\<exists>existing. (ListTopics, RNames existing) \<in> set t
        \<and> (missing_topics s existing = []
           \<or> (\<exists>x. (CreateTopics (missing_topics s existing), x) \<in> set t
                \<and> (ok_resp x \<or> x = RErr TopicAlreadyExistsError))))"

lemma topics_ensured_append:
  "topics_ensured s a \<Longrightarrow> topics_ensured s (a @ b)" "topics_ensured s b \<Longrightarrow> topics_ensured s (a @ b)"
  unfolding topics_ensured_def by auto

lemma always_create_missing:
  "always (create_missing s) (\<lambda>t v. opened t = 1 \<and> closed t = 0 \<and> (v = Inr () \<longrightarrow> topics_ensured s t))"
proof -
  let ?Q = "\<lambda>r r' t v. opened ((AdminStart (bootstrap_list s), r) # (ListTopics, r') # t) = 1
     \<and> closed ((AdminStart (bootstrap_list s), r) # (ListTopics, r') # t) = 0
     \<and> (v = Inr () \<longrightarrow> topics_ensured s ((AdminStart (bootstrap_list s), r) # (ListTopics, r') # t))"
  have create: "always (try_except already_exists (ask get_unit (CreateTopics (missing_topics s names))) (\<lambda>_. Return ()))
      (?Q r (RNames names))" for r names
  proof -
    have "x = RErr TopicAlreadyExistsError" if "answer get_unit x = Inl e" "already_exists e" for x e
      using that by (cases x; cases e) (auto simp: answer_def)
    then show ?thesis
      by (auto simp: prog_simps answer_unit_ok topics_ensured_def split: sum.split)
  qed
  have "always (let missing = missing_topics s names in
        if missing \<noteq> [] then try_except already_exists (ask get_unit (CreateTopics missing)) (\<lambda>_. Return ())
        else Return ()) (?Q r (RNames names))" for r names
    using create [of names r] by (auto simp: Let_def topics_ensured_def)
  then show ?thesis
    unfolding create_missing_def missing_topics_def
    by (auto simp: prog_simps answer_Inr split: sum.split)
qed

lemma always_ensure_attempt:
  "always (ensure_attempt s d) (\<lambda>t v. opened t = 1 \<and> closed t = 1 \<and> (v = Inr None \<longrightarrow> topics_ensured s t))"
proof -
  have "always (try_except broker_away (seqP (create_missing s) (Return None))
         (\<lambda>e. seqP (ask get_unit (Sleep d)) (Return (Some e))))
      (\<lambda>t v. opened t = 1 \<and> closed t = 0 \<and> (v = Inr None \<longrightarrow> topics_ensured s t))"
    unfolding always_try_except always_seqP
    by (rule always_mono [OF always_create_missing])
      (auto simp: prog_simps split: sum.splits)
  then show ?thesis
    unfolding ensure_attempt_def always_try_finally
    by (rule always_mono)
      (auto simp: prog_simps intro: topics_ensured_append split: sum.splits)
qed

lemma ensure_loop_ok:
  "conv (ensure_loop s d err n) t v \<Longrightarrow>
     opened t \<le> n \<and> closed t = opened t \<and> (v = Inr () \<longrightarrow> topics_ensured s t)"
proof (induction n arbitrary: err t)
  case 0
  then show ?case by simp
next
  case (Suc n)
  note pass = always_ensure_attempt [of s d, unfolded always_conv, rule_format]
  from Suc.prems [unfolded ensure_loop.simps conv_bindP] show ?case
  proof (elim disjE exE conjE)
    fix t1 x t2
    assume t: "t = t1 @ t2" and first: "conv (ensure_attempt s d) t1 (Inr x)"
      and rest: "conv (case x of None \<Rightarrow> Return () | Some e \<Rightarrow> ensure_loop s d (Some e) n) t2 v"
    show ?thesis
      using pass [OF first] rest t Suc.IH by (cases x) (auto intro: topics_ensured_append)
  next
    fix e
    assume "v = Inl e" "conv (ensure_attempt s d) t (Inl e)"
    then show ?thesis using pass by fastforce
  qed
qed

text \<open>
  What ends the bootstrap early: an exception of a request that is not about the broker being away, or one of
  the pause itself.
\<close>

definition not_retried :: "rat \<Rightarrow> exn \<Rightarrow> trace \<Rightarrow> bool" where
  "not_retried d e t \<longleftrightarrow>
     ((\<exists>q. (q, RErr e) \<in> set t) \<or> e = bad_reply) \<and> (\<not> broker_away e \<or> (Sleep d, RErr e) \<in> set t)"

lemma not_retried_append: "not_retried d e b \<Longrightarrow> not_retried d e (a @ b)"
  by (auto simp: not_retried_def)

lemma create_missing_raises:
  assumes "conv (create_missing s) t (Inl e)"
  shows "(\<exists>q. (q, RErr e) \<in> set t) \<or> e = bad_reply"
proof -
  have "\<exists>q x. (q, x) \<in> set t \<and> answer get_unit x = Inl e \<or> (q, x) \<in> set t \<and> answer get_names x = Inl e"
    using assms
    by (fastforce simp: create_missing_def Let_def conv_simps conv_ask split: if_splits)
  then show ?thesis using answer_Inl [of get_unit] answer_Inl [of get_names] by blast
qed

lemma attempt_raises:
  assumes "conv (ensure_attempt s d) t (Inl e)"
  shows "not_retried d e t"
proof -
  have away: "\<not> broker_away bad_reply" by (simp add: bad_reply_def)
  have pass: "not_retried d e t"
    if "conv (try_except broker_away (seqP (create_missing s) (Return None))
         (\<lambda>e. seqP (ask get_unit (Sleep d)) (Return (Some e)))) t (Inl e)" for t e
  proof -
    from that consider "conv (create_missing s) t (Inl e)" "\<not> broker_away e"
      | t1 x where "t = t1 @ [(Sleep d, x)]" "answer get_unit x = Inl e"
      by (fastforce simp: conv_try_except conv_seqP conv_ask)
    then show ?thesis
    proof cases
      case 1
      then show ?thesis using create_missing_raises by (auto simp: not_retried_def)
    next
      case 2
      then show ?thesis using answer_Inl [OF 2(2)] away by (auto simp: not_retried_def)
    qed
  qed
  from assms consider t1 t2 where "t = t1 @ t2" "conv (try_except broker_away (seqP (create_missing s) (Return None))
         (\<lambda>e. seqP (ask get_unit (Sleep d)) (Return (Some e)))) t1 (Inl e)"
    | t1 x where "t = t1 @ [(AdminClose, x)]" "answer get_unit x = Inl e" "\<not> is_Exception e"
  proof -
    have closing: "\<exists>x. t2 = [(AdminClose, x)] \<and> answer get_unit x = Inl e \<and> \<not> is_Exception e"
      if "conv (try_except is_Exception (ask get_unit AdminClose) (\<lambda>_. Return ())) t2 (Inl e)" for t2
      using that by (auto simp: conv_try_except conv_ask)
    show thesis
      using assms [unfolded ensure_attempt_def conv_try_finally] closing that by blast
  qed
  then show ?thesis
  proof cases
    case 1
    then show ?thesis using pass [OF 1(2)] by (auto simp: not_retried_def)
  next
    case 2
    then show ?thesis using answer_Inl [OF 2(2)] away by (cases e) (auto simp: not_retried_def is_Exception_def)
  qed
qed

lemma ensure_loop_persists:
  "conv (ensure_loop s d err n) t v \<Longrightarrow> opened t < n \<Longrightarrow> v = Inr () \<or> (\<exists>e. v = Inl e \<and> not_retried d e t)"
proof (induction n arbitrary: err t)
  case (Suc n)
  note pass = always_ensure_attempt [of s d, unfolded always_conv, rule_format]
  from Suc.prems(1) obtain t1 w t2 where t: "t = t1 @ t2" and first: "conv (ensure_attempt s d) t1 w"
    and rest: "case w of Inl e \<Rightarrow> t2 = [] \<and> v = Inl e
      | Inr x \<Rightarrow> conv (case x of None \<Rightarrow> Return () | Some e \<Rightarrow> ensure_loop s d (Some e) n) t2 v"
    unfolding ensure_loop.simps by (rule conv_bindPE)
  show ?case
  proof (cases w)
    case (Inl e)
    then show ?thesis using rest t first attempt_raises by auto
  next
    case (Inr x)
    show ?thesis
    proof (cases x)
      case None
      then show ?thesis using rest Inr by simp
    next
      case (Some e)
      have "opened t2 < n" using pass [OF first] Suc.prems(2) t by simp
      then show ?thesis using Suc.IH [of "Some e" t2] rest Inr Some not_retried_append t by auto
    qed
  qed
qed simp

section \<open>Backoff\<close>

text \<open>The contract of \<open>random.uniform(a, b)\<close>: the answer lies between the two ends.\<close>

definition uniform_in :: "trace \<Rightarrow> bool" where
  "uniform_in t \<longleftrightarrow> (\<forall>a b x. (Uniform a b, RFloat x) \<in> set t \<longrightarrow> min a b \<le> x \<and> x \<le> max a b)"

lemma backoff_delay_run:
  assumes "conv (backoff_delay s att) t (Inr d)"
  shows "\<exists>x. t = [(Uniform (retry_base_delay_seconds s / 2) (backoff_ceiling s att), RFloat x)] \<and> d = round3 x"
  using assms by (auto simp: backoff_delay_def conv_bindP_ask_Inr answer_Inr split: if_splits)

text \<open>With settings in whole thousandths the ceiling is one too.\<close>

lemma backoff_ceiling_whole:
  assumes "retry_base_delay_seconds s = 2 * (of_int n / 1000)" and "retry_max_delay_seconds s = of_int m / 1000"
  shows "\<exists>k. backoff_ceiling s att = of_int k / 1000"
proof -
  have "retry_base_delay_seconds s * 2 ^ nat (max 0 (att - 1)) = of_int (2 * n * 2 ^ nat (max 0 (att - 1))) / 1000"
    by (simp add: assms(1))
  then show ?thesis unfolding backoff_ceiling_def assms(2) by (metis min_def)
qed

lemma backoff_ceiling_ge:
  assumes "0 \<le> retry_base_delay_seconds s" and "retry_base_delay_seconds s / 2 \<le> retry_max_delay_seconds s"
  shows "retry_base_delay_seconds s / 2 \<le> backoff_ceiling s att"
proof -
  have "(1 :: rat) \<le> 2 ^ nat (max 0 (att - 1))" by simp
  then have "retry_base_delay_seconds s * 1 \<le> retry_base_delay_seconds s * 2 ^ nat (max 0 (att - 1))"
    using assms(1) by (intro mult_left_mono)
  then show ?thesis using assms by (simp add: backoff_ceiling_def)
qed

section \<open>Properties\<close>

text \<open>
  C37. Backoff: the delay before the retry of an attempt lies between half the base delay and the
  ceiling \<open>min(max, base * 2^(attempt - 1))\<close>, rounding included, when the configured delays are whole
  milliseconds (the base an even number of them) and half the base does not exceed the maximum.
\<close>

theorem backoff_delay_bounds:
  assumes "retry_base_delay_seconds s = 2 * (of_int n / 1000)" and "retry_max_delay_seconds s = of_int m / 1000"
    and "0 \<le> retry_base_delay_seconds s" and "retry_base_delay_seconds s / 2 \<le> retry_max_delay_seconds s"
    and "conv (backoff_delay s att) t (Inr d)" and "uniform_in t"
  shows "retry_base_delay_seconds s / 2 \<le> d \<and> d \<le> backoff_ceiling s att
     \<and> backoff_ceiling s att \<le> retry_max_delay_seconds s"
proof -
  let ?low = "retry_base_delay_seconds s / 2" and ?high = "backoff_ceiling s att"
  obtain x where t: "t = [(Uniform ?low ?high, RFloat x)]" and d: "d = round3 x"
    using backoff_delay_run [OF assms(5)] by blast
  have "?low \<le> ?high" by (rule backoff_ceiling_ge [OF assms(3,4)])
  moreover have "min ?low ?high \<le> x \<and> x \<le> max ?low ?high"
    using assms(6) unfolding uniform_in_def t by (metis list.set_intros(1))
  ultimately have x: "?low \<le> x" "x \<le> ?high" by (simp_all add: min_absorb1 max_absorb2)
  obtain k where k: "?high = of_int k / 1000" using backoff_ceiling_whole [OF assms(1,2)] by blast
  have low: "?low = of_int n / 1000" using assms(1) by simp
  have "?low \<le> d" using round3_ge [of n x] x(1) by (simp add: d low)
  moreover have "d \<le> ?high" using round3_le [of x k] x(2) by (simp add: d k)
  ultimately show ?thesis by (simp add: backoff_ceiling_def)
qed

theorem backoff_delay_bounds_witness:
  "\<exists>t d. conv (backoff_delay default_settings 3) t (Inr d) \<and> 1 \<le> d \<and> d \<le> 8"
proof -
  let ?s = default_settings
  have ceil: "backoff_ceiling ?s 3 = 8" by (simp add: backoff_ceiling_def default_settings_def)
  have c: "conv (backoff_delay ?s 3) [(Uniform 1 8, RFloat 5)] (Inr (round3 5))"
    by (auto simp: backoff_delay_def conv_bindP_ask_Inr answer_Inr ceil)
      (simp_all add: default_settings_def)
  have u: "uniform_in [(Uniform 1 8, RFloat 5)]" by (simp add: uniform_in_def)
  have "retry_base_delay_seconds ?s = 2 * (of_int 1000 / 1000)" "retry_max_delay_seconds ?s = of_int 60000 / 1000"
    "0 \<le> retry_base_delay_seconds ?s" "retry_base_delay_seconds ?s / 2 \<le> retry_max_delay_seconds ?s"
    by (simp_all add: default_settings_def)
  from backoff_delay_bounds [OF this c u] c show ?thesis
    unfolding ceil by (auto simp: default_settings_def)
qed

text \<open>
  C12. Topic bootstrap ends and gives up neither early nor late: whatever the broker does, at most the given number
  of passes open the admin client and every client that was opened is closed again; and a bootstrap
  that ends after fewer passes has succeeded, or raised what a request raised that is not about the broker being
  away (or what interrupted the pause).
\<close>

theorem ensure_topics_bounded:
  assumes "conv (ensure_topics s retries delay) t v"
  shows "opened t \<le> retries \<and> closed t = opened t
     \<and> (opened t < retries \<longrightarrow> v = Inr () \<or> (\<exists>e. v = Inl e
          \<and> ((\<exists>q. (q, RErr e) \<in> set t) \<or> e = bad_reply) \<and> (\<not> broker_away e \<or> (Sleep delay, RErr e) \<in> set t)))"
  using ensure_loop_ok ensure_loop_persists assms unfolding ensure_topics_def not_retried_def by blast

theorem ensure_topics_bounded_witness:
  "\<exists>t. conv (ensure_topics default_settings 2 2) t (Inr ()) \<and> opened t = 1 \<and> closed t = 1"
proof -
  let ?p = "ensure_topics default_settings 2 2" and ?rs = "[RUnit, RNames [], RUnit, RUnit]"
  have v: "fst (exec scripted ?p ?rs) = Inr ()" and n: "opened (trail scripted ?p ?rs) = 1"
    by (simp_all add: ensure_topics_def ensure_attempt_def create_missing_def desired_topics_def Let_def exec_simps
        trail_simps numeral_2_eq_2)
  from ensure_topics_bounded [OF conv_scripted [of ?p ?rs]] n
  have "closed (trail scripted ?p ?rs) = 1" by simp
  then show ?thesis using conv_scripted [of ?p ?rs] v n by metis
qed

text \<open>
  C36. When the bootstrap returns, every declared topic was either listed by the broker or its
  creation was accepted, or another replica created topics at the same time.
\<close>

theorem ensure_topics_ensures:
  assumes "conv (ensure_topics s retries delay) t (Inr ())"
  shows "\<exists>existing. (ListTopics, RNames existing) \<in> set t
     \<and> (missing_topics s existing = []
        \<or> (\<exists>x. (CreateTopics (missing_topics s existing), x) \<in> set t
             \<and> (ok_resp x \<or> x = RErr TopicAlreadyExistsError)))"
  using ensure_loop_ok assms unfolding ensure_topics_def topics_ensured_def by blast

theorem ensure_topics_ensures_witness:
  "\<exists>t. conv (ensure_topics default_settings 2 2) t (Inr ()) \<and> (\<exists>existing. (ListTopics, RNames existing) \<in> set t)"
proof -
  let ?rs = "[RUnit, RNames [], RUnit, RUnit]"
  have e: "fst (exec scripted (ensure_topics default_settings 2 2) ?rs) = Inr ()"
    by (simp add: ensure_topics_def ensure_attempt_def create_missing_def desired_topics_def Let_def exec_simps
        numeral_2_eq_2)
  then have c: "conv (ensure_topics default_settings 2 2) (trail scripted (ensure_topics default_settings 2 2) ?rs) (Inr ())"
    using conv_scripted [of "ensure_topics default_settings 2 2" ?rs] by simp
  from ensure_topics_ensures [OF c] c show ?thesis by blast
qed

text \<open>
  Headers survive the trip: a consumer reads back the attempt number, the first 500 code points
  of the error, the origin topic and the not-before time that \<open>build\<close> was given.  (Assumed of
  floats: \<open>float(repr(x))\<close> is \<open>x\<close>; of texts: no lone surrogates.)
\<close>

theorem headers_round_trip:
  assumes "1 \<le> a" and "digits_ok a" and "text_ok err" and "text_ok org"
    and "\<And>x. nb = Some x \<Longrightarrow> text_ok (Some (repr_float L x)) \<and> repr_float L x \<noteq> []
      \<and> parse_float L (repr_float L x) = Some (Finite x)"
    and "conv (build L a nb err org) t (Inr hs)"
  shows "get_attempt hs = a \<and> get_error hs = map_option (take 500) err \<and> get_origin_topic hs = org
    \<and> get_not_before L hs = Finite (case nb of None \<Rightarrow> 0 | Some x \<Rightarrow> x)"
  using build_attempt [OF assms(1,2,6)] build_error [OF assms(3,6)] build_origin_topic [OF assms(4,6)]
    build_not_before [of L nb a err org t hs] assms(5,6)
  by (cases nb) (auto simp: text_ok_def)

theorem headers_round_trip_witness:
  "\<exists>hs. fst (exec scripted (build demo_libs 3 (Some (3 / 2)) (Some (lit ''boom'')) (Some (lit ''orders.created''))) [RTime 0])
       = Inr hs \<and> get_attempt hs = 3 \<and> get_error hs = Some (lit ''boom'') \<and> get_not_before demo_libs hs = Finite (3 / 2)"
proof -
  let ?p = "build demo_libs 3 (Some (3 / 2)) (Some (lit ''boom'')) (Some (lit ''orders.created''))"
  obtain hs where hs: "fst (exec scripted ?p [RTime 0]) = Inr hs"
    by (simp add: build_def exec_simps Let_def)
  have c: "conv ?p (trail scripted ?p [RTime 0]) (Inr hs)" using conv_scripted [of ?p "[RTime 0]"] hs by simp
  have "digits_ok 3" by (simp add: digits_ok_def nat_str.simps)
  moreover have "text_ok (Some (lit ''boom''))" "text_ok (Some (lit ''orders.created''))" "text_ok (Some (lit ''1.5''))"
    by (simp_all add: text_ok_def scalar_def surrogate_def)
  ultimately show ?thesis
    using headers_round_trip [OF _ _ _ _ _ c] hs by (simp add: demo_libs_def)
qed

text \<open>
  Whatever headers a record carries (none, repeated, undecodable, not a number, negative, far too
  long), the attempt number read from them is a positive integer of at most 4300 digits.
\<close>

theorem attempt_is_always_positive: "1 \<le> get_attempt hs \<and> digits_ok (get_attempt hs)"
  using get_attempt_ge_1 get_attempt_digits_ok by blast

text \<open>
  Validation accepts exactly the events with a positive quantity, an amount between zero and the
  maximum, a SKU the catalogue may know and no simulated permanent failure; every rejection is a
  \<open>PermanentError\<close>.
\<close>

theorem validate_accepts_iff:
  "(validate L e = None \<longleftrightarrow>
      0 < ev_quantity e \<and> 0 \<le> ev_amount_cents e \<and> ev_amount_cents e \<le> MAX_ORDER_VALUE_CENTS
      \<and> \<not> starts_with (upper L (ev_sku e)) UNKNOWN_SKU_PREFIX \<and> ev_fail_mode e \<noteq> Some PERMANENT)
   \<and> (validate L e = None \<or> (\<exists>msg. validate L e = Some (PermanentError msg)))"
  by (auto simp: validate_def)

text \<open>
  Fulfilment ends in one of the ways the retry policy tells apart: it succeeds, it raises the
  \<open>PermanentError\<close> of validation, it raises a \<open>TransientError\<close> for an event that asks for one, or the
  sleep itself was interrupted.
\<close>

theorem fulfil_outcomes:
  assumes "conv (fulfil C e) t v"
  shows "(v = Inr () \<and> validate (lib C) e = None \<and> ev_fail_mode e \<noteq> Some TRANSIENT)
     \<or> (\<exists>msg. v = Inl (PermanentError msg) \<and> validate (lib C) e = Some (PermanentError msg) \<and> t = [])
     \<or> (\<exists>msg. v = Inl (TransientError msg) \<and> validate (lib C) e = None \<and> ev_fail_mode e = Some TRANSIENT)
     \<or> (\<exists>x exc. v = Inl exc \<and> t = [(Sleep (processing_delay_seconds (cfg C)), x)] \<and> answer get_unit x = Inl exc)"
proof (cases "validate (lib C) e")
  case (Some exc)
  then obtain msg where "exc = PermanentError msg" by (auto simp: validate_def split: if_splits)
  then show ?thesis using assms Some by (auto simp: fulfil_def)
next
  case None
  let ?sleep = "if processing_delay_seconds (cfg C) \<noteq> 0 then sleep (processing_delay_seconds (cfg C)) else Return ()"
  let ?finish = "(if ev_fail_mode e = Some TRANSIENT
    then Raise (TransientError (lit ''simulated downstream timeout (fail_mode=transient)'')) else Return ()) :: unit io"
  from None assms have "conv (seqP ?sleep ?finish) t v" by (simp add: fulfil_def)
  then consider (slept) t2 where "conv ?finish t2 v"
    | (interrupted) exc where "v = Inl exc" "conv ?sleep t (Inl exc)"
    unfolding conv_seqP by blast
  then show ?thesis
  proof cases
    case slept
    then show ?thesis using None by (cases "ev_fail_mode e = Some TRANSIENT") auto
  next
    case interrupted
    then obtain x where "t = [(Sleep (processing_delay_seconds (cfg C)), x)]" "Inl exc = answer get_unit x"
      by (cases "processing_delay_seconds (cfg C) = 0") (auto simp: sleep_def conv_ask)
    then show ?thesis using interrupted(1) by metis
  qed
qed

theorem fulfil_outcomes_witness:
  "\<exists>t msg. conv (fulfil demo_ctx demo_event) t (Inl (TransientError msg)) \<and> ev_fail_mode demo_event = Some TRANSIENT"
proof -
  let ?p = "fulfil demo_ctx demo_event"
  obtain msg where "fst (exec scripted ?p [RUnit]) = Inl (TransientError msg)"
    by (simp add: fulfil_def validate_def sleep_def demo_defs exec_simps starts_with_def UNKNOWN_SKU_PREFIX_def
        MAX_ORDER_VALUE_CENTS_def default_settings_def)
  then have c: "conv ?p (trail scripted ?p [RUnit]) (Inl (TransientError msg))"
    using conv_scripted [of ?p "[RUnit]"] by simp
  have "trail scripted ?p [RUnit] = [(Sleep (processing_delay_seconds (cfg demo_ctx)), RUnit)]"
    by (simp add: fulfil_def validate_def sleep_def demo_defs exec_simps trail_simps starts_with_def
        UNKNOWN_SKU_PREFIX_def MAX_ORDER_VALUE_CENTS_def default_settings_def)
  with fulfil_outcomes [OF c] c show ?thesis by auto
qed

end
