(* ===== verification/Loops.thy ===== *)
theory Loops
  imports OrderConsumer RetryDlq
begin

text \<open>
  What the three consumers get from the loop they share: each is an interpretation of
  \<open>record_handler\<close>, so the laws of the loop hold of each.
\<close>

text \<open>The loops the worker runs, with \<open>polls\<close> the fuel.\<close>

definition worker_loops :: "ctx \<Rightarrow> nat \<Rightarrow> bool io list" where
  "worker_loops C polls =
     [order_consumer_run C polls, retry_scheduler_run C polls, dlq_archiver_run C polls]"

lemma worker_loops_cases:
  assumes "p \<in> set (worker_loops C polls)"
  obtains opts handle where "p = consumer_run opts handle polls" and "record_handler handle"
  using assms
  by (auto simp: worker_loops_def order_consumer_run_def retry_scheduler_run_def dlq_archiver_run_def
      intro: processor.record_handler_axioms scheduler.record_handler_axioms archiver.record_handler_axioms)

section \<open>Properties\<close>

text \<open>
  C29. A consumer that is asked to stop finishes the record in hand and stops: in every conversation
  of any of the three loops, once the stop flag is seen set, the only request left is the one that
  closes the consumer; the loop then reports the stop unless that request fails, and it reports a
  stop only when the flag was set.
\<close>

theorem loops_stop_cleanly:
  assumes "p \<in> set (worker_loops C polls)" and "conv p t v"
  shows "(stop_seen t \<longleftrightarrow> (\<exists>t1 y. t = t1 @ [(IsStopping, RBool True), (ConsumerStop, y)]))
    \<and> (v = Inr True \<longrightarrow> stop_seen t) \<and> (stop_seen t \<longrightarrow> v = Inr True \<or> isl v)"
  using assms(1)
proof (cases rule: worker_loops_cases)
  case (1 opts handle)
  note run = assms(2) [unfolded 1(1)]
  show ?thesis
    using record_handler.run_stop [OF 1(2) run] record_handler.run_result [OF 1(2) run] by blast
qed

definition demo_stop :: "resp list" where
  "demo_stop = [RUnit, RBool False, RBatch [((lit ''orders.created'', 0), [demo_record])],
     RBool False, RTime 0, RUnit, RUnit, RBool True, RUnit]"

theorem loops_stop_cleanly_witness:
  "\<exists>t v. conv (order_consumer_run demo_ctx 5) t v \<and> stop_seen t
     \<and> (\<exists>t1 y. t = t1 @ [(IsStopping, RBool True), (ConsumerStop, y)])"
proof -
  let ?p = "order_consumer_run demo_ctx 5"
  let ?t = "trail scripted ?p demo_stop"
  have "trail scripted (demo_loop opts 5) demo_stop ! 7 = (IsStopping, RBool True)"
    "7 < length (trail scripted (demo_loop opts 5) demo_stop)" for opts
    by code_simp+
  then have "?t ! 7 = (IsStopping, RBool True)" "7 < length ?t" unfolding demo_loop by blast+
  then have "stop_seen ?t" unfolding stop_seen_def by (metis nth_mem)
  moreover have "?p \<in> set (worker_loops demo_ctx 5)" by (simp add: worker_loops_def)
  ultimately show ?thesis using loops_stop_cleanly [OF _ conv_scripted] conv_scripted [of ?p demo_stop] by metis
qed

text \<open>
  The fuel of the loops counts polls and nothing else ends them: a run polls at most \<open>polls\<close>
  times, and one that neither fails nor is asked to stop polls exactly that often.
\<close>

theorem loops_use_their_polls:
  assumes "p \<in> set (worker_loops C polls)" and "conv p t v"
  shows "polls_of t \<le> polls \<and> (\<not> isl v \<and> \<not> stop_seen t \<longrightarrow> polls_of t = polls)"
  using assms(1)
proof (cases rule: worker_loops_cases)
  case (1 opts handle)
  note run = assms(2) [unfolded 1(1)]
  have "v = Inr False" if "\<not> isl v" "\<not> stop_seen t"
    using that record_handler.run_result(1) [OF 1(2) run] by (cases v) auto
  then show ?thesis
    using record_handler.run_polls [OF 1(2) run] by blast
qed

theorem loops_use_their_polls_witness:
  "\<exists>t v. conv (order_consumer_run demo_ctx 1) t v \<and> \<not> isl v \<and> \<not> stop_seen t \<and> polls_of t = 1"
proof -
  let ?p = "order_consumer_run demo_ctx 1"
  have "fst (exec scripted (demo_loop opts 1) demo_poll) = Inr False" for opts by code_simp
  then have "fst (exec scripted ?p demo_poll) = Inr False" unfolding demo_loop .
  then have run: "conv ?p (trail scripted ?p demo_poll) (Inr False)" by (metis conv_scripted)
  have p: "?p \<in> set (worker_loops demo_ctx 1)" by (simp add: worker_loops_def)
  obtain opts handle where "?p = consumer_run opts handle 1" "record_handler handle"
    using worker_loops_cases [OF p] by metis
  then have "\<not> stop_seen (trail scripted ?p demo_poll)"
    using record_handler.run_result(2) [of handle opts 1] run by fastforce
  then show ?thesis using run loops_use_their_polls [OF p run] by (metis sum.disc(2))
qed

text \<open>
  C31. Order within a partition: the offset requests that the records of one partition of a batch
  lead to are commits of the first records of the list, one by one and in order, followed by at most
  one rewind, to the first record that was not committed; no record is skipped.
\<close>

theorem offsets_move_in_order:
  assumes "handle \<in> {order_handle C g, retry_handle C, dlq_handle C}"
    and "conv (handle_records handle tp rs) t v"
  shows "progress tp rs (offset_reqs t)"
proof -
  have "record_handler handle"
    using assms(1) processor.record_handler_axioms scheduler.record_handler_axioms
      archiver.record_handler_axioms by auto
  then show ?thesis using record_handler.records_progress assms(2) by blast
qed

theorem offsets_move_in_order_witness:
  "\<exists>t v. conv (handle_records (order_handle demo_ctx (IdempotencyGuard default_settings None None))
       (lit ''orders.created'', 0) [demo_record, demo_record\<lparr>r_offset := 42\<rparr>]) t v
     \<and> length (offset_reqs t) = 2
     \<and> progress (lit ''orders.created'', 0) [demo_record, demo_record\<lparr>r_offset := 42\<rparr>] (offset_reqs t)"
proof -
  let ?h = "order_handle demo_ctx (IdempotencyGuard default_settings None None)"
  let ?p = "handle_records ?h (lit ''orders.created'', 0) [demo_record, demo_record\<lparr>r_offset := 42\<rparr>]"
  let ?rs = "[RBool False, RTime 0, RUnit, RUnit, RBool False, RTime 0, RErr (OSError []), RUnit, RUnit]"
  have "length (offset_reqs (trail scripted ?p ?rs)) = 2" by code_simp
  then show ?thesis
    using conv_scripted [of ?p ?rs] offsets_move_in_order [of ?h demo_ctx, OF _ conv_scripted] by blast
qed

text \<open>
  C30. A poll that raises, which is what a record without a JSON value makes it do, ends the loop: the only
  request left is the one that closes the consumer, no offset moves, and the run raises what the poll
  raised (or the failure to close).
\<close>

theorem failed_poll_ends_loop:
  assumes "p \<in> set (worker_loops C polls)" and "conv p (t1 @ (GetMany, RErr e) # t2) v"
  shows "\<exists>y. t2 = [(ConsumerStop, y)] \<and> isl v \<and> (y = RUnit \<longrightarrow> v = Inl e)"
  using assms(1)
proof (cases rule: worker_loops_cases)
  case (1 opts handle)
  show ?thesis by (rule record_handler.run_poll_failure [OF 1(2) assms(2) [unfolded 1(1)]])
qed

theorem failed_poll_ends_loop_witness:
  "\<exists>t1 t2 v. conv (order_consumer_run demo_ctx 5) (t1 @ (GetMany, RErr (ValueError [])) # t2) v
     \<and> t2 = [(ConsumerStop, RUnit)] \<and> v = Inl (ValueError [])"
proof -
  let ?p = "order_consumer_run demo_ctx 5"
  let ?rs = "[RUnit, RBool False, RErr (ValueError []), RUnit]"
  have "trail scripted (demo_loop opts 5) ?rs = [(ConsumerStart opts, RUnit), (IsStopping, RBool False)]
      @ (GetMany, RErr (ValueError [])) # [(ConsumerStop, RUnit)]" for opts
    by code_simp
  then obtain opts where t: "trail scripted ?p ?rs = [(ConsumerStart opts, RUnit), (IsStopping, RBool False)]
      @ (GetMany, RErr (ValueError [])) # [(ConsumerStop, RUnit)]"
    unfolding demo_loop by blast
  have "?p \<in> set (worker_loops demo_ctx 5)" by (simp add: worker_loops_def)
  from failed_poll_ends_loop [OF this conv_scripted [of ?p ?rs, unfolded t]] conv_scripted [of ?p ?rs, unfolded t]
  show ?thesis by blast
qed

end
