(* ===== verification/Lifecycle.thy ===== *)
theory Lifecycle
  imports OrderConsumer RetryDlq
begin

text \<open>
  Starting and stopping the two processes (\<open>app/main.py\<close>, \<open>app/worker.py\<close>).

  Start-up and shutdown are sequences of requests.  Between them the worker runs three consumer
  tasks and waits for a signal or for a task to end; that part is a state machine whose steps are
  the statements of \<open>main\<close> and the ends of tasks, in any order.
\<close>

section \<open>Start-up and shutdown\<close>

text \<open>\<open>ensure_topics()\<close> is called with its default arguments.\<close>

definition startup :: "settings \<Rightarrow> bool io" where
  "startup s =
     seqP create_schema
     (seqP (ensure_topics s 30 2)
      (start_producer s False))"

definition shutdown :: "bool \<Rightarrow> bool \<Rightarrow> unit io" where
  "shutdown running client =
     seqP (stop_producer running)
     (seqP (close_redis client)
      dispose)"

text \<open>
  The API's \<open>lifespan\<close>: \<open>serve\<close> is what happens between start-up and shutdown; it returns whether the
  Redis client was built.
\<close>

definition lifespan :: "settings \<Rightarrow> bool io \<Rightarrow> unit io" where
  "lifespan s serve =
     bindP (startup s) (\<lambda>running.
     bindP serve (\<lambda>client.
     shutdown running client))"

section \<open>The worker\<close>

datatype task = Processor | Retry | Dlq

datatype resource = ProducerClient | RedisClient | DatabaseEngine

datatype phase =
    Waiting
  | Asking "task list"
  | Closing "resource list"
  | Crashed

record worker =
  w_phase :: phase
  w_signal :: bool
  w_asked :: "task set"
  w_ended :: "task set"
  w_closed :: "resource list"

definition worker_init :: "worker \<Rightarrow> bool" where
  "worker_init w \<longleftrightarrow>
     w = \<lparr>w_phase = Waiting, w_signal = False, w_asked = {}, w_ended = {}, w_closed = []\<rparr>"

text \<open>\<open>interrupted\<close>: \<open>main\<close> is cancelled at an \<open>await\<close>, or a close raises; nothing more is asked or closed.\<close>

inductive worker_step :: "worker \<Rightarrow> worker \<Rightarrow> bool" where
  signal: "worker_step w (w\<lparr>w_signal := True\<rparr>)"
| ends: "t \<notin> w_ended w \<Longrightarrow> worker_step w (w\<lparr>w_ended := insert t (w_ended w)\<rparr>)"
| wake: "w_phase w = Waiting \<Longrightarrow> w_signal w \<or> w_ended w \<noteq> {} \<Longrightarrow>
    worker_step w (w\<lparr>w_phase := Asking [Processor, Retry, Dlq]\<rparr>)"
| ask: "w_phase w = Asking (t # ts) \<Longrightarrow>
    worker_step w (w\<lparr>w_phase := Asking ts, w_asked := insert t (w_asked w)\<rparr>)"
| drained: "w_phase w = Asking [] \<Longrightarrow> w_ended w = UNIV \<Longrightarrow>
    worker_step w (w\<lparr>w_phase := Closing [ProducerClient, RedisClient, DatabaseEngine]\<rparr>)"
| close: "w_phase w = Closing (r # rs) \<Longrightarrow>
    worker_step w (w\<lparr>w_phase := Closing rs, w_closed := w_closed w @ [r]\<rparr>)"
| interrupted: "worker_step w (w\<lparr>w_phase := Crashed\<rparr>)"

inductive_cases worker_stepE: "worker_step w w'"

text \<open>What holds in each phase.\<close>

definition worker_inv :: "worker \<Rightarrow> bool" where
  "worker_inv w \<longleftrightarrow>
     (case w_phase w of
        Waiting \<Rightarrow> w_asked w = {} \<and> w_closed w = []
      | Asking ts \<Rightarrow> w_closed w = [] \<and> w_asked w = UNIV - set ts
          \<and> (\<exists>us. us @ ts = [Processor, Retry, Dlq])
      | Closing rs \<Rightarrow> w_ended w = UNIV \<and> w_asked w = UNIV
          \<and> w_closed w @ rs = [ProducerClient, RedisClient, DatabaseEngine]
      | Crashed \<Rightarrow> w_closed w = [] \<or> w_ended w = UNIV \<and> w_asked w = UNIV
          \<and> (\<exists>rs. w_closed w @ rs = [ProducerClient, RedisClient, DatabaseEngine]))"

lemma task_UNIV: "(UNIV :: task set) = {Processor, Retry, Dlq}"
proof -
  have "t \<in> {Processor, Retry, Dlq}" for t by (cases t) auto
  then show ?thesis by blast
qed

lemma asking_distinct:
  assumes "us @ t # ts = [Processor, Retry, Dlq]"
  shows "insert t (UNIV - set (t # ts)) = UNIV - set ts"
proof -
  have "distinct (us @ t # ts)" unfolding assms by simp
  then show ?thesis by auto
qed

lemma worker_inv_step: "worker_inv w \<Longrightarrow> worker_step w w' \<Longrightarrow> worker_inv w'"
proof (erule worker_stepE, goal_cases)
  case (4 t ts)
  then obtain us where us: "us @ t # ts = [Processor, Retry, Dlq]" by (auto simp: worker_inv_def)
  then have "\<exists>us. us @ ts = [Processor, Retry, Dlq]" by (metis append_Cons append_Nil append_assoc)
  then show ?case using 4 asking_distinct [OF us] by (simp add: worker_inv_def)
next
  case (2 t)
  then show ?case by (auto simp: worker_inv_def split: phase.splits)
qed (auto simp: worker_inv_def task_UNIV split: phase.splits)

interpretation worker_life: transition_system worker_init worker_step worker_inv
proof
  fix w
  assume "worker_init w"
  then show "worker_inv w" by (simp add: worker_init_def worker_inv_def)
qed (rule worker_inv_step)

section \<open>Properties\<close>

text \<open>
  C32. Graceful shutdown: the worker closes nothing that a consumer may still need.  Whenever it has
  closed any resource, every consumer task was asked to stop and has ended; the producer is closed
  first, then Redis, then the database, also when one of them fails to close or \<open>main\<close> is cancelled.
\<close>

theorem worker_drains_before_closing:
  assumes "reachable worker_init worker_step w" and "w_closed w \<noteq> []"
  shows "w_asked w = UNIV \<and> w_ended w = UNIV
     \<and> (\<exists>rs. w_closed w @ rs = [ProducerClient, RedisClient, DatabaseEngine])"
  using worker_life.inv_reachable [OF assms(1)] assms(2)
  by (auto simp: worker_inv_def split: phase.splits)

text \<open>A run of the worker: one consumer dies, the others are asked to stop and end, the producer is closed.\<close>

definition demo_worker :: worker where
  "demo_worker = \<lparr>w_phase = Closing [RedisClient, DatabaseEngine], w_signal = False, w_asked = UNIV,
     w_ended = UNIV, w_closed = [ProducerClient]\<rparr>"

lemma demo_worker_reachable: "reachable worker_init worker_step demo_worker"
proof -
  let ?w = "\<lambda>ph asked ended. \<lparr>w_phase = ph, w_signal = False, w_asked = asked, w_ended = ended, w_closed = []\<rparr>"
  have "reachable worker_init worker_step (?w Waiting {} {})"
    by (rule reachable.start) (simp add: worker_init_def)
  then have "reachable worker_init worker_step (?w Waiting {} {Retry})"
    by (rule reachable.step) (use worker_step.ends [of Retry "?w Waiting {} {}"] in simp)
  then have "reachable worker_init worker_step (?w (Asking [Processor, Retry, Dlq]) {} {Retry})"
    by (rule reachable.step) (use worker_step.wake [of "?w Waiting {} {Retry}"] in simp)
  then have "reachable worker_init worker_step (?w (Asking [Retry, Dlq]) {Processor} {Retry})"
    by (rule reachable.step) (use worker_step.ask [of "?w (Asking [Processor, Retry, Dlq]) {} {Retry}"] in simp)
  then have "reachable worker_init worker_step (?w (Asking [Dlq]) {Retry, Processor} {Retry})"
    by (rule reachable.step) (use worker_step.ask [of "?w (Asking [Retry, Dlq]) {Processor} {Retry}"] in simp)
  then have "reachable worker_init worker_step (?w (Asking []) {Dlq, Retry, Processor} {Retry})"
    by (rule reachable.step) (use worker_step.ask [of "?w (Asking [Dlq]) {Retry, Processor} {Retry}"] in simp)
  then have "reachable worker_init worker_step (?w (Asking []) {Dlq, Retry, Processor} {Processor, Retry})"
    by (rule reachable.step) (use worker_step.ends [of Processor "?w (Asking []) {Dlq, Retry, Processor} {Retry}"] in simp)
  then have "reachable worker_init worker_step (?w (Asking []) {Dlq, Retry, Processor} {Dlq, Processor, Retry})"
    by (rule reachable.step)
      (use worker_step.ends [of Dlq "?w (Asking []) {Dlq, Retry, Processor} {Processor, Retry}"] in simp)
  moreover have "{Dlq, Retry, Processor} = UNIV" "{Dlq, Processor, Retry} = UNIV" by (auto simp: task_UNIV)
  ultimately have "reachable worker_init worker_step (?w (Asking []) UNIV UNIV)" by simp
  then have "reachable worker_init worker_step (?w (Closing [ProducerClient, RedisClient, DatabaseEngine]) UNIV UNIV)"
    by (rule reachable.step) (use worker_step.drained [of "?w (Asking []) UNIV UNIV"] in simp)
  then show ?thesis
    by (rule reachable.step)
      (use worker_step.close [of "?w (Closing [ProducerClient, RedisClient, DatabaseEngine]) UNIV UNIV"]
        in \<open>simp add: demo_worker_def\<close>)
qed

theorem worker_drains_before_closing_witness:
  "w_closed demo_worker \<noteq> [] \<and> w_asked demo_worker = UNIV \<and> w_ended demo_worker = UNIV"
  using worker_drains_before_closing [OF demo_worker_reachable] by (simp add: demo_worker_def)

end
