(* ===== verification/OrderStates.thy ===== *)
theory OrderStates
  imports OrderSafety
begin

text \<open>
  The state machine of an order, with exactly the arrows that section 5 of \<open>docs/ARCHITECTURE.md\<close> draws, and the
  processor as its implementation.  The code writes one kind of hop that the drawing does not have: a record
  that is delivered again after a run ended without moving the order on (a crash, or an outage after the
  first session) finds the order \<open>PROCESSING\<close> and is logged as a hop from \<open>PROCESSING\<close> to itself.  So the
  processor implements the machine up to stuttering: as long as nobody else writes the order during a
  handler run, the audit trail without these repetitions is a run of the machine.  \<open>COMPLETED\<close> and
  \<open>FAILED\<close> are final there.

  Somebody else can write it when the lock of a run expires; theory \<open>Gaps\<close> shows what the failure path does
  then.
\<close>

section \<open>The machine\<close>

inductive order_moves :: "order_status option \<Rightarrow> order_status \<Rightarrow> bool" where
  accept: "order_moves None PENDING"
| start: "order_moves (Some PENDING) PROCESSING"
| fulfilled: "order_moves (Some PROCESSING) COMPLETED"
| retried: "order_moves (Some PROCESSING) PENDING"
| failed: "order_moves (Some PROCESSING) FAILED"

inductive_simps order_moves_simps [simp]:
  "order_moves None s" "order_moves (Some PENDING) s" "order_moves (Some PROCESSING) s"
  "order_moves (Some COMPLETED) s" "order_moves (Some FAILED) s"

text \<open>The trails of the machine, with the status they end in.\<close>

inductive order_run :: "status_transition list \<Rightarrow> order_status \<Rightarrow> bool" where
  accepted: "st_from_status h = None \<Longrightarrow> order_moves None (st_to_status h) \<Longrightarrow> order_run [h] (st_to_status h)"
| moved: "order_run ts s \<Longrightarrow> st_from_status h = Some s \<Longrightarrow> order_moves (Some s) (st_to_status h) \<Longrightarrow>
    order_run (ts @ [h]) (st_to_status h)"

definition repeats :: "status_transition \<Rightarrow> bool" where
  "repeats h \<longleftrightarrow> st_from_status h = Some PROCESSING \<and> st_to_status h = PROCESSING"

definition hop_ok :: "order_status option \<Rightarrow> order_status \<Rightarrow> bool" where
  "hop_ok s s' \<longleftrightarrow> order_moves s s' \<or> (s = Some PROCESSING \<and> s' = PROCESSING)"

lemma hop_ok_start: "s \<notin> TERMINAL_STATUSES \<Longrightarrow> hop_ok (Some s) PROCESSING"
  by (cases s) (auto simp: TERMINAL_STATUSES_def hop_ok_def)

lemma settled_is_final: "s \<in> TERMINAL_STATUSES \<Longrightarrow> \<not> hop_ok (Some s) s'"
  by (auto simp: TERMINAL_STATUSES_def hop_ok_def)

text \<open>A row whose linked trail consists of moves of the machine and repetitions and ends in the row's status.\<close>

definition lawful :: "order \<Rightarrow> bool" where
  "lawful o' \<longleftrightarrow> audit_ok o' \<and> (\<forall>h \<in> set (o_transitions o'). hop_ok (st_from_status h) (st_to_status h))"

lemma chain_order_run:
  assumes "chain_from None ts" and "ts \<noteq> []" and "\<forall>h \<in> set ts. hop_ok (st_from_status h) (st_to_status h)"
  shows "order_run (filter (\<lambda>h. \<not> repeats h) ts) (st_to_status (last ts))"
  using assms
proof (induction ts rule: rev_induct)
  case (snoc h ts)
  have h: "hop_ok (st_from_status h) (st_to_status h)" using snoc.prems(3) by simp
  show ?case
  proof (cases "ts = []")
    case True
    then have "st_from_status h = None" using snoc.prems(1) by simp
    then show ?thesis using h True order_run.accepted [of h] by (auto simp: hop_ok_def repeats_def)
  next
    case False
    then have run: "order_run (filter (\<lambda>h. \<not> repeats h) ts) (st_to_status (last ts))"
      and from_last: "st_from_status h = Some (st_to_status (last ts))"
      using snoc by (auto simp: chain_from_snoc)
    show ?thesis
    proof (cases "repeats h")
      case True
      then show ?thesis using run from_last by (simp add: repeats_def)
    next
      case not_repeated: False
      then have "order_moves (st_from_status h) (st_to_status h)" using h by (auto simp: hop_ok_def repeats_def)
      then show ?thesis using order_run.moved [OF run from_last] from_last not_repeated by simp
    qed
  qed
qed simp

lemma lawful_order_run: "lawful o' \<Longrightarrow> order_run (filter (\<lambda>h. \<not> repeats h) (o_transitions o')) (o_status o')"
  using chain_order_run [of "o_transitions o'"] by (auto simp: lawful_def audit_ok_def)

lemma create_order_lawful: "always (create_order s p) (\<lambda>t v. \<forall>o' \<in> flushed t. lawful o')"
  by (simp add: create_order_def utcnow_def prog_simps audit_ok_def lawful_def hop_ok_def Let_def split: sum.splits)

section \<open>Undisturbed runs\<close>

text \<open>
  The last row that was written, and conversations in which the database answers with it; before the first
  write it answers with any lawful row, or none.
\<close>

definition write_of :: "req \<Rightarrow> order option" where
  "write_of q = (case q of DbFlush s (SaveOrder o') \<Rightarrow> Some o' | _ \<Rightarrow> None)"

primrec written :: "order option \<Rightarrow> trace \<Rightarrow> order option" where
  "written w [] = w"
| "written w (x # t) = written (case write_of (fst x) of None \<Rightarrow> w | Some o' \<Rightarrow> Some o') t"

definition read_ok :: "order option \<Rightarrow> req \<Rightarrow> resp \<Rightarrow> bool" where
  "read_ok w q r \<longleftrightarrow>
     (\<forall>s i row. q = DbGet s i \<and> r = ROrder row \<longrightarrow>
        (case w of None \<Rightarrow> (\<forall>o'. row = Some o' \<longrightarrow> lawful o') | Some o' \<Rightarrow> row = Some o'))"

primrec current :: "order option \<Rightarrow> trace \<Rightarrow> bool" where
  "current w [] = True"
| "current w (x # t) = (read_ok w (fst x) (snd x) \<and> current (written w [x]) t)"

lemma written_append [simp]: "written w (a @ b) = written (written w a) b"
  by (induction a arbitrary: w) auto

lemma current_append [simp]: "current w (a @ b) \<longleftrightarrow> current w a \<and> current (written w a) b"
  by (induction a arbitrary: w) auto

text \<open>
  \<open>obeys w p R\<close>: in every undisturbed conversation of \<open>p\<close> after \<open>w\<close> was written, the rows written are lawful
  and the outcome satisfies \<open>R\<close> together with the last row written.
\<close>

definition obeys :: "order option \<Rightarrow> 'a io \<Rightarrow> (exn + 'a \<Rightarrow> order option \<Rightarrow> bool) \<Rightarrow> bool" where
  "obeys w p R \<longleftrightarrow> always p (\<lambda>t v. current w t \<longrightarrow> (\<forall>o' \<in> flushed t. lawful o') \<and> R v (written w t))"

lemma obeys_mono: "obeys w p R \<Longrightarrow> (\<And>v w'. R v w' \<Longrightarrow> S v w') \<Longrightarrow> obeys w p S"
  unfolding obeys_def by (erule always_mono) blast

lemma obeys_simps [simp]:
  "obeys w (Return x) R \<longleftrightarrow> R (Inr x) w" "obeys w (Raise e) R \<longleftrightarrow> R (Inl e) w"
  by (simp_all add: obeys_def)

lemma obeys_bindP:
  assumes "obeys w p S" and "\<And>x w'. S (Inr x) w' \<Longrightarrow> obeys w' (f x) R"
    and "\<And>e w'. S (Inl e) w' \<Longrightarrow> R (Inl e) w'"
  shows "obeys w (bindP p f) R"
  unfolding obeys_def always_bindP
  using assms(1) [unfolded obeys_def]
proof (rule always_mono)
  fix t v
  assume S: "current w t \<longrightarrow> (\<forall>o' \<in> flushed t. lawful o') \<and> S v (written w t)"
  show "case v of
      Inl e \<Rightarrow> current w t \<longrightarrow> (\<forall>o' \<in> flushed t. lawful o') \<and> R (Inl e) (written w t)
    | Inr x \<Rightarrow> always (f x) (\<lambda>t' v'. current w (t @ t') \<longrightarrow>
        (\<forall>o' \<in> flushed (t @ t'). lawful o') \<and> R v' (written w (t @ t')))"
    using S assms(2) [of _ "written w t"] assms(3) [of _ "written w t"]
    by (cases v) (auto simp: obeys_def always_conv)
qed

lemma obeys_seqP:
  "obeys w p S \<Longrightarrow> (\<And>x w'. S (Inr x) w' \<Longrightarrow> obeys w' q R) \<Longrightarrow> (\<And>e w'. S (Inl e) w' \<Longrightarrow> R (Inl e) w') \<Longrightarrow>
    obeys w (seqP p q) R"
  unfolding seqP_def by (rule obeys_bindP)

lemma obeys_outcome: "obeys w p (\<lambda>v. R (Inr v)) \<Longrightarrow> obeys w (outcome p) R"
  by (simp add: obeys_def always_outcome)

lemma obeys_try_except:
  assumes "obeys w p S" and "\<And>x w'. S (Inr x) w' \<Longrightarrow> R (Inr x) w'"
    and "\<And>e w'. S (Inl e) w' \<Longrightarrow> if C e then obeys w' (h e) R else R (Inl e) w'"
  shows "obeys w (try_except C p h) R"
  unfolding try_except_def
  by (rule obeys_bindP [OF obeys_outcome [where R = "\<lambda>v w'. \<exists>u. v = Inr u \<and> S u w'"]])
    (use assms in \<open>auto intro: obeys_mono split: sum.split if_splits\<close>)

text \<open>Parts that neither read nor write a row.\<close>

definition no_row :: "req \<Rightarrow> bool" where
  "no_row q \<longleftrightarrow> (\<forall>s i. q \<noteq> DbGet s i) \<and> (\<forall>s o'. q \<noteq> DbFlush s (SaveOrder o'))"

lemma no_row_quiet: "\<forall>x \<in> set t. no_row (fst x) \<Longrightarrow> flushed t = {} \<and> written w t = w"
proof (induction t)
  case (Cons x t)
  then have "write_of (fst x) = None"
    by (auto simp: no_row_def write_of_def split: req.split change.split)
  moreover have "flushed (x # t) = flushed t"
    using Cons.prems by (cases x) (auto simp: no_row_def split: req.split change.split)
  ultimately show ?case using Cons by simp
qed simp

lemma obeys_no_row: "only no_row p \<Longrightarrow> obeys w p (\<lambda>v w'. w' = w)"
  unfolding obeys_def by (rule always_mono [OF only_always]) (auto simp: no_row_quiet)

lemma obeys_then: "only no_row p \<Longrightarrow> (\<And>x. obeys w (f x) R) \<Longrightarrow> (\<And>e. R (Inl e) w) \<Longrightarrow> obeys w (bindP p f) R"
  by (rule obeys_bindP [OF obeys_no_row]) auto

lemma obeys_then_seq: "only no_row p \<Longrightarrow> obeys w q R \<Longrightarrow> (\<And>e. R (Inl e) w) \<Longrightarrow> obeys w (seqP p q) R"
  unfolding seqP_def by (rule obeys_then)

lemma obeys_last: "only no_row p \<Longrightarrow> (\<And>v. R v w) \<Longrightarrow> obeys w p R"
  by (rule obeys_mono [OF obeys_no_row]) auto

section \<open>The parts of the handler\<close>

lemma no_row_calm: "only calm p \<Longrightarrow> only no_row p"
  by (erule only_mono) (auto simp: calm_def no_row_def)

lemma no_row_parts:
  "only no_row (to_dlq C r att error)" "only no_row (complete g c)" "only no_row (publish_raw C topic key val hs)"
  "only no_row (ask get_float TimeTime)"
  by (auto simp: to_dlq_def publish_raw_def get_producer_def build_def complete_def no_row_def Let_def
      split: option.split)

lemmas quiet_parts = no_row_parts calm_parts [THEN no_row_calm]

lemma obeys_session_scope:
  assumes "\<And>s. obeys w (body s) R"
  shows "obeys w (session_scope body) (\<lambda>v w'. \<forall>x. v = Inr x \<longrightarrow> R (Inr x) w')"
proof -
  have quiet: "only no_row (ask get_unit (DbCommit s))" "only no_row (ask get_unit (DbRollback s))"
    "only no_row (ask get_unit (DbClose s))" "only no_row (ask get_sid DbOpen)" for s
    by (simp_all add: no_row_def)
  have committed: "obeys w (bindP (body s) (\<lambda>x. seqP (ask get_unit (DbCommit s)) (Return x)))
      (\<lambda>v w'. \<forall>x. v = Inr x \<longrightarrow> R (Inr x) w')" for s
    by (rule obeys_bindP [OF assms]) (auto intro!: obeys_then_seq quiet)
  have ended: "obeys w (try_except is_Exception (bindP (body s) (\<lambda>x. seqP (ask get_unit (DbCommit s)) (Return x)))
      (\<lambda>e. seqP (ask get_unit (DbRollback s)) (Raise e))) (\<lambda>v w'. \<forall>x. v = Inr x \<longrightarrow> R (Inr x) w')" for s
    by (rule obeys_try_except [OF committed]) (auto intro!: obeys_then_seq quiet)
  show ?thesis
    unfolding session_scope_def try_finally_def
    by (intro obeys_then [OF quiet(4)] obeys_bindP [OF obeys_outcome [where R = "\<lambda>v w'. \<exists>u. v = Inr u \<and> (\<forall>x. u = Inr x \<longrightarrow> R (Inr x) w')"]])
      (auto intro!: obeys_then_seq quiet obeys_mono [OF ended] split: sum.split)
qed

lemma obeys_get_order:
  assumes "\<And>row. case w of None \<Rightarrow> (\<forall>o'. row = Some o' \<longrightarrow> lawful o') | Some o' \<Rightarrow> row = Some o' \<Longrightarrow> obeys w (f row) R"
    and "\<And>e. R (Inl e) w"
  shows "obeys w (bindP (get_order s i) f) R"
proof (rule obeys_bindP)
  show "obeys w (get_order s i) (\<lambda>v w'. w' = w \<and> (\<forall>row. v = Inr row \<longrightarrow>
      (case w of None \<Rightarrow> (\<forall>o'. row = Some o' \<longrightarrow> lawful o') | Some o' \<Rightarrow> row = Some o')))"
    by (auto simp: obeys_def get_order_def always_ask read_ok_def write_of_def answer_Inr)
qed (use assms in auto)

lemma obeys_transition:
  assumes "row = Some old" and "lawful old" and "hop_ok (Some (o_status old)) to"
  shows "obeys w (transition s row to msg att why) (\<lambda>v w'. \<forall>o'. v = Inr o' \<longrightarrow> w' = Some o' \<and> lawful o' \<and> o_status o' = to)"
  using assms(2,3)
  by (auto simp: obeys_def assms(1) transition_def utcnow_def prog_simps Let_def write_of_def lawful_def audit_ok_def
      chain_from_snoc split: sum.splits)

abbreviation started :: "order option \<Rightarrow> bool" where
  "started w \<equiv> \<exists>o'. w = Some o' \<and> lawful o' \<and> o_status o' = PROCESSING"

lemma begin_obeys:
  "obeys None (begin_processing C g event r att c) (\<lambda>v w'. \<forall>o'. v = Inr (Inr o') \<longrightarrow> started w')"
proof -
  let ?R = "\<lambda>v w'. \<forall>o'. v = Inr (Inr o') \<longrightarrow> started w'"
  have body: "obeys None (case row of
       None \<Rightarrow> seqP (complete g c) (seqP (to_dlq C r att msg) (Return (Inl COMMIT)))
     | Some o' \<Rightarrow>
         if o_status o' \<in> TERMINAL_STATUSES
         then seqP (complete g c) (seqP (incr_stat STAT_DUPLICATES 1) (Return (Inl COMMIT)))
         else bindP (transition s (Some o') PROCESSING why (Some att) None) (\<lambda>o''. Return (Inr o''))) ?R"
    if "\<forall>o'. row = Some o' \<longrightarrow> lawful o'" for row msg s why
  proof (cases row)
    case None
    then show ?thesis by (auto intro!: obeys_then_seq quiet_parts)
  next
    case (Some o')
    show ?thesis
    proof (cases "o_status o' \<in> TERMINAL_STATUSES")
      case True
      then show ?thesis using Some by (auto intro!: obeys_then_seq quiet_parts)
    next
      case False
      have "obeys None (transition s (Some o') PROCESSING why (Some att) None)
          (\<lambda>v w'. \<forall>o''. v = Inr o'' \<longrightarrow> w' = Some o'' \<and> lawful o'' \<and> o_status o'' = PROCESSING)"
        by (rule obeys_transition) (use that Some hop_ok_start [OF False] in auto)
      then show ?thesis using Some False by (auto intro: obeys_bindP)
    qed
  qed
  show ?thesis
    unfolding begin_processing_def Let_def
    by (rule obeys_mono [OF obeys_session_scope [where R = ?R]], rule obeys_get_order, rule body) auto
qed

text \<open>What is left of a run once the order is \<open>PROCESSING\<close>: one more hop, from the row that was written.\<close>

lemma second_session_obeys:
  assumes "started w"
    and "\<And>s o'. lawful o' \<Longrightarrow> o_status o' = PROCESSING \<Longrightarrow> obeys w (f s (Some o')) (\<lambda>_ _. True)"
    and "\<And>x w'. obeys w' (rest x) (\<lambda>_ _. True)"
  shows "obeys w (bindP (session_scope (\<lambda>s. bindP (get_order s i) (f s))) rest) (\<lambda>_ _. True)"
proof (rule obeys_bindP [OF obeys_session_scope [where R = "\<lambda>_ _. True"]])
  show "obeys w (bindP (get_order s i) (f s)) (\<lambda>_ _. True)" for s
    by (rule obeys_get_order) (use assms(1,2) in auto)
qed (use assms(3) in auto)

lemma hop_obeys:
  "lawful o' \<Longrightarrow> o_status o' = PROCESSING \<Longrightarrow> order_moves (Some PROCESSING) to \<Longrightarrow>
    obeys w (transition s (Some o') to msg att why) (\<lambda>_ _. True)"
  by (rule obeys_mono [OF obeys_transition]) (auto simp: hop_ok_def)

lemma no_row_seqP_obeys: "only no_row p \<Longrightarrow> obeys w q (\<lambda>_ _. True) \<Longrightarrow> obeys w (seqP p q) (\<lambda>_ _. True)"
  by (rule obeys_then_seq) auto

lemma fail_obeys:
  assumes "started w"
  shows "obeys w (fail_event C g event r att c error retryable) (\<lambda>_ _. True)"
proof -
  have retry: "obeys w (fail_retry C g event r att c error) (\<lambda>_ _. True)"
    unfolding fail_retry_def Let_def
    by (rule obeys_then [OF quiet_parts(11)], rule second_session_obeys [OF assms], erule (1) hop_obeys)
      (auto intro!: no_row_seqP_obeys obeys_then quiet_parts)
  have terminal: "obeys w (fail_terminal C g event r att c error retryable) (\<lambda>_ _. True)"
    unfolding fail_terminal_def Let_def
    by (rule second_session_obeys [OF assms])
      (auto intro!: obeys_bindP [OF hop_obeys] no_row_seqP_obeys quiet_parts split: option.split)
  show ?thesis using retry terminal by (simp add: fail_event_def Let_def)
qed

lemma finish_obeys: "started w \<Longrightarrow> obeys w (finish_processing C g event att c) (\<lambda>_ _. True)"
  unfolding finish_processing_def Let_def
  by (rule second_session_obeys, assumption, erule (1) hop_obeys) (auto intro!: no_row_seqP_obeys quiet_parts)

lemma process_obeys: "obeys None (process C g event r att c) (\<lambda>_ _. True)"
  unfolding process_def
proof (rule obeys_bindP [OF begin_obeys])
  fix v :: "ack + order" and w'
  assume started: "\<forall>o'. Inr v = (Inr (Inr o') :: exn + (ack + order)) \<longrightarrow> started w'"
  show "obeys w' (case v of
         Inl a \<Rightarrow> Return a
       | Inr order \<Rightarrow>
           seqP (put_order C order)
           (bindP (outcome (fulfil C event)) (\<lambda>v.
              case v of
                Inl (PermanentError msg) \<Rightarrow> fail_event C g event r att c msg False
              | Inl (TransientError msg) \<Rightarrow> fail_event C g event r att c msg True
              | Inl e \<Rightarrow> Raise e
              | Inr _ \<Rightarrow> finish_processing C g event att c))) (\<lambda>_ _. True)"
  proof (cases v)
    case (Inr order)
    then have w': "started w'" using started by blast
    show ?thesis
      unfolding Inr sum.case
      by (intro no_row_seqP_obeys quiet_parts obeys_then only_outcome)
        (auto simp: fail_obeys [OF w'] finish_obeys [OF w'] split: sum.split exn.split)
  qed simp
qed simp

lemma order_handle_obeys: "obeys None (order_handle C g r) (\<lambda>_ _. True)"
proof -
  have acquired: "obeys None (try_except is_Exception (process C g event r att c) (\<lambda>e. seqP (release g c) (Raise e)))
      (\<lambda>_ _. True)" for event att c
    by (rule obeys_try_except [OF process_obeys]) (auto intro!: no_row_seqP_obeys quiet_parts)
  show ?thesis
    unfolding order_handle_def Let_def
    by (auto intro!: no_row_seqP_obeys obeys_then quiet_parts acquired split: sum.split claim_status.split)
qed

section \<open>Properties\<close>

text \<open>
  C3. The processor implements the documented state machine of an order, up to stuttering: in a run that nobody
  disturbs (each row it reads is the last one it wrote itself, and a lawful one if it wrote none), every row it
  writes has a linked trail which, without hops from \<open>PROCESSING\<close> to itself, is a run of the machine that ends
  in the row's status; and no hop of it leaves \<open>COMPLETED\<close> or \<open>FAILED\<close>.
\<close>

theorem processor_follows_state_machine:
  assumes "conv (order_handle C g r) t v" and "current None t" and "o' \<in> flushed t"
  shows "audit_ok o' \<and> order_run (filter (\<lambda>h. \<not> repeats h) (o_transitions o')) (o_status o')
     \<and> (\<forall>h \<in> set (o_transitions o'). st_from_status h \<notin> Some ` TERMINAL_STATUSES)"
proof -
  have "lawful o'" using order_handle_obeys [of C g r] assms unfolding obeys_def always_conv by blast
  then show ?thesis using settled_is_final lawful_order_run unfolding lawful_def by fastforce
qed

text \<open>A run whose fulfilment fails: the second read is answered with the row that the first session wrote.\<close>

definition failing_run :: "order \<Rightarrow> resp list" where
  "failing_run row = [RInt 1, RUuid 5, RBool True, RSid 0, ROrder (Some demo_order), RTime 1, RTime 1,
     RUnit, RUnit, RUnit, RBool True, RUnit, RFloat (3 / 2), RSid 1, ROrder (Some row), RTime 2,
     RTime 2, RUnit, RUnit, RUnit, RBool True, RFloat 10, RTime 3, RUnit, RInt 1, RInt 1]"

definition processing_row :: order where
  "processing_row = demo_order\<lparr>o_status := PROCESSING, o_attempts := 1, o_updated_at := 1,
     o_transitions := o_transitions demo_order @ [\<lparr>st_from_status = Some PENDING, st_to_status = PROCESSING,
       st_note = Some (lit ''attempt '' @ str_int 1), st_created_at = 1\<rparr>]\<rparr>"

lemma read_ok_simps:
  "read_ok None (DbGet s i) (ROrder (Some o')) = lawful o'"
  "read_ok (Some w) (DbGet s i) (ROrder row) = (row = Some w)"
  "(\<And>s i. q \<noteq> DbGet s i) \<Longrightarrow> read_ok v q r"
  by (auto simp: read_ok_def)

lemma current_step:
  "current w ((q, r) # t) = (read_ok w q r \<and> current (case write_of q of None \<Rightarrow> w | Some o' \<Rightarrow> Some o') t)"
  by simp

lemma demo_undisturbed:
  "current None (trail scripted demo_handle (failing_run processing_row))"
  apply (simp add: demo_run_simps failing_run_def processing_row_def del: current.simps)
  apply (simp add: current_step read_ok_simps write_of_def del: current.simps)
  apply (simp add: lawful_def audit_ok_def hop_ok_def)
  done

lemma demo_goes_back_to_pending:
  "PENDING \<in> o_status ` flushed (trail scripted demo_handle (failing_run processing_row))"
  by (simp add: demo_run_simps failing_run_def processing_row_def)

text \<open>
  A repetition: the record is delivered again while the order is \<open>PROCESSING\<close>, which is what a run leaves that
  ends before its second session; the new hop goes from \<open>PROCESSING\<close> to \<open>PROCESSING\<close> and is durable.
\<close>

definition resumed_run :: "resp list" where
  "resumed_run = [RInt 1, RUuid 5, RBool True, RSid 0, ROrder (Some processing_row), RTime 9, RUnit, RUnit, RUnit,
     RBool True, RUnit, RErr (ServiceError []), RInt 1]"

lemma processing_is_repeated:
  "\<exists>row hop. durable (trail scripted demo_handle resumed_run) (SaveOrder row)
     \<and> o_transitions row = o_transitions processing_row @ [hop] \<and> repeats hop"
proof -
  let ?t = "trail scripted demo_handle resumed_run"
  have "\<exists>row hop. ?t ! 6 = (DbFlush 0 (SaveOrder row), RUnit)
     \<and> o_transitions row = o_transitions processing_row @ [hop] \<and> repeats hop"
    "length ?t = 13" "?t ! 7 = (DbCommit 0, RUnit)"
    by (simp_all add: demo_run_simps resumed_run_def processing_row_def repeats_def)
  then show ?thesis using durable_adjacent [of 6 ?t 0] by fastforce
qed

theorem processor_follows_state_machine_witness:
  "\<exists>t v o'. conv demo_handle t v \<and> current None t \<and> o' \<in> flushed t \<and> o_status o' = PENDING
     \<and> order_run (filter (\<lambda>h. \<not> repeats h) (o_transitions o')) (o_status o')"
proof -
  obtain o' where o': "o' \<in> flushed (trail scripted demo_handle (failing_run processing_row))" "o_status o' = PENDING"
    using demo_goes_back_to_pending by (metis imageE)
  show ?thesis
    using processor_follows_state_machine [OF conv_scripted demo_undisturbed o'(1)] o' demo_undisturbed conv_scripted
    by metis
qed

end
