(* ===== verification/Gaps.thy ===== *)
theory Gaps
  imports OrderStates
begin

text \<open>
  Two gaps of the failure path.  \<open>OrderConsumer._fail\<close> commits the row as \<open>FAILED\<close> before it publishes the
  dead letter, and a redelivery treats a \<open>FAILED\<close> row as settled: when Kafka refuses the dead letter once,
  it is lost.  And \<open>_fail\<close> does not look at the status of the row that it reads again: when the lock has
  expired and another delivery has settled the order in the meantime, it moves the row back to \<open>PENDING\<close>.
\<close>

section \<open>The dead letter that is refused\<close>

definition last_attempt_ctx :: ctx where
  "last_attempt_ctx = demo_ctx\<lparr>cfg := default_settings\<lparr>max_attempts := 1\<rparr>\<rparr>"

abbreviation last_attempt_handle :: "ack io" where
  "last_attempt_handle \<equiv>
     order_handle last_attempt_ctx (IdempotencyGuard default_settings None None) demo_event_record"

text \<open>The records that Kafka accepted during a conversation.\<close>

definition sent_in :: "trace \<Rightarrow> req list" where
  "sent_in t = map fst (filter (\<lambda>x. is_send (fst x) \<and> ok_resp (snd x)) t)"

text \<open>The first delivery: the last attempt fails, the row is committed, the dead letter is refused.\<close>

definition refused_answers :: "resp list" where
  "refused_answers = [RInt 1, RUuid 5, RBool True, RSid 0, ROrder (Some demo_order), RTime 1, RTime 1,
     RUnit, RUnit, RUnit, RBool True, RUnit, RSid 1, ROrder (Some demo_order), RTime 2, RTime 2, RUnit,
     RUnit, RUnit, RBool True, RTime 3, RErr (ServiceError (lit ''broker away'')), RInt 1]"

text \<open>The second delivery: the claim is acquired again, the row is read back.\<close>

definition redelivery_answers :: "order \<Rightarrow> resp list" where
  "redelivery_answers row = [RInt 1, RUuid 6, RBool True, RSid 2, ROrder (Some row), RInt 1, RInt 1, RUnit, RUnit]"

lemma refused_run:
  "fst (exec scripted last_attempt_handle refused_answers) = Inl (ServiceError (lit ''broker away''))"
  "\<exists>row. o_status row = FAILED \<and> durable (trail scripted last_attempt_handle refused_answers) (SaveOrder row)"
  "sent_in (trail scripted last_attempt_handle refused_answers) = []"
proof -
  show "fst (exec scripted last_attempt_handle refused_answers) = Inl (ServiceError (lit ''broker away''))"
    by (simp add: demo_run_simps last_attempt_ctx_def refused_answers_def)
  show "sent_in (trail scripted last_attempt_handle refused_answers) = []"
    by (simp add: demo_run_simps last_attempt_ctx_def refused_answers_def ok_resp_def sent_in_def)
  let ?t = "trail scripted last_attempt_handle refused_answers"
  have "\<exists>row. o_status row = FAILED \<and> ?t ! 16 = (DbFlush 1 (SaveOrder row), RUnit)"
    "length ?t = 23" "?t ! 17 = (DbCommit 1, RUnit)"
    by (simp_all add: demo_run_simps last_attempt_ctx_def refused_answers_def)
  then obtain row where row: "o_status row = FAILED" "?t ! 16 = (DbFlush 1 (SaveOrder row), RUnit)"
    and "length ?t = 23" "?t ! 17 = (DbCommit 1, RUnit)" by blast
  then have "durable ?t (SaveOrder row)" using durable_adjacent [of 16 ?t] by simp
  with row(1) show "\<exists>row. o_status row = FAILED \<and> durable ?t (SaveOrder row)" by blast
qed

lemma redelivery_run:
  assumes "o_status row = FAILED"
  shows "fst (exec scripted last_attempt_handle (redelivery_answers row)) = Inr COMMIT"
    and "(DbGet 2 (ev_order_id demo_event), ROrder (Some row))
      \<in> set (trail scripted last_attempt_handle (redelivery_answers row))"
    and "sent_in (trail scripted last_attempt_handle (redelivery_answers row)) = []"
  using assms by (simp_all add: demo_run_simps last_attempt_ctx_def redelivery_answers_def sent_in_def)

section \<open>The order that is reopened\<close>

text \<open>
  With two attempts at most, a slow first attempt whose lock expires: another delivery of the record takes the
  first attempt again, its replay takes the second one and fails the order.  This is the row it leaves.
\<close>

definition two_attempts_ctx :: ctx where
  "two_attempts_ctx = demo_ctx\<lparr>cfg := default_settings\<lparr>max_attempts := 2\<rparr>\<rparr>"

abbreviation two_attempts_handle :: "consumer_record \<Rightarrow> ack io" where
  "two_attempts_handle \<equiv> order_handle two_attempts_ctx (IdempotencyGuard default_settings None None)"

definition failed_row :: order where
  "failed_row = demo_order\<lparr>o_status := FAILED, o_attempts := 2, o_updated_at := 9,
     o_failure_reason := Some (lit ''simulated downstream timeout (fail_mode=transient)''),
     o_transitions := o_transitions demo_order @
       [\<lparr>st_from_status = Some PENDING, st_to_status = PROCESSING, st_note = None, st_created_at = 1\<rparr>,
        \<lparr>st_from_status = Some PROCESSING, st_to_status = PROCESSING, st_note = None, st_created_at = 5\<rparr>,
        \<lparr>st_from_status = Some PROCESSING, st_to_status = PENDING, st_note = None, st_created_at = 6\<rparr>,
        \<lparr>st_from_status = Some PENDING, st_to_status = PROCESSING, st_note = None, st_created_at = 8\<rparr>,
        \<lparr>st_from_status = Some PROCESSING, st_to_status = FAILED, st_note = None, st_created_at = 9\<rparr>]\<rparr>"

text \<open>The slow attempt resumes: it reads that row, and its release finds the tombstone.\<close>

definition slow_answers :: "resp list" where
  "slow_answers = [RInt 1, RUuid 5, RBool True, RSid 0, ROrder (Some demo_order), RTime 1, RTime 1,
     RUnit, RUnit, RUnit, RBool True, RUnit, RFloat (3 / 2), RSid 1, ROrder (Some failed_row), RTime 10,
     RTime 10, RUnit, RUnit, RUnit, RBool True, RFloat 10, RTime 11, RUnit, RInt 0, RInt 1]"

abbreviation slow_run :: trace where
  "slow_run \<equiv> trail scripted (two_attempts_handle demo_event_record) slow_answers"

lemma slow_run_ends:
  "fst (exec scripted (two_attempts_handle demo_event_record) slow_answers) = Inr COMMIT"
  "length slow_run = 26" "slow_run ! 14 = (DbGet 1 (o_id demo_order), ROrder (Some failed_row))"
  by (simp_all add: demo_run_simps two_attempts_ctx_def slow_answers_def failed_row_def)

lemma failed_row_lawful: "lawful failed_row" "o_status failed_row = FAILED"
  by (simp_all add: lawful_def audit_ok_def hop_ok_def failed_row_def demo_order_def TERMINAL_STATUSES_def)

lemma slow_run_reopens:
  "\<exists>row hop. durable slow_run (SaveOrder row) \<and> o_status row = PENDING
     \<and> o_transitions row = o_transitions failed_row @ [hop] \<and> st_from_status hop = Some FAILED"
proof -
  have "\<exists>row hop. slow_run ! 17 = (DbFlush 1 (SaveOrder row), RUnit) \<and> o_status row = PENDING
     \<and> o_transitions row = o_transitions failed_row @ [hop] \<and> st_from_status hop = Some FAILED"
    "slow_run ! 18 = (DbCommit 1, RUnit)"
    by (simp_all add: demo_run_simps two_attempts_ctx_def slow_answers_def failed_row_def)
  then show ?thesis using slow_run_ends(2) durable_adjacent [of 17 slow_run 1] by fastforce
qed

text \<open>The retry that it publishes, and what becomes of it.\<close>

lemma slow_run_publishes:
  "\<exists>key hs. slow_run ! 23 = (KafkaSend (topic_retry default_settings) key (r_value demo_event_record) hs, RUnit)"
proof -
  have "case slow_run ! 23 of (KafkaSend topic key val hs, r) \<Rightarrow>
      topic = topic_retry default_settings \<and> val = r_value demo_event_record \<and> r = RUnit | _ \<Rightarrow> False"
    by (simp add: demo_run_simps two_attempts_ctx_def slow_answers_def failed_row_def)
  then show ?thesis by (auto split: prod.splits req.splits)
qed

definition tombstone_answers :: "resp list" where
  "tombstone_answers = [RInt 1, RUuid 7, RBool False, RStr (Some DONE), RInt 1]"

abbreviation replay_of :: "kheaders \<Rightarrow> ack io" where
  "replay_of hs \<equiv> two_attempts_handle (demo_event_record\<lparr>r_headers := hs\<rparr>)"

lemma tombstone_run:
  "fst (exec scripted (replay_of hs) tombstone_answers) = Inr COMMIT"
  "(RedisGet (Keys_event_guard (ev_event_id demo_event)), RStr (Some DONE)) \<in> set (trail scripted (replay_of hs) tombstone_answers)"
  "filter (\<lambda>x. is_db (fst x) \<or> is_send (fst x)) (trail scripted (replay_of hs) tombstone_answers) = []"
  by (simp_all add: demo_run_simps two_attempts_ctx_def tombstone_answers_def)

section \<open>Properties\<close>

text \<open>
  C39. A dead letter can be lost.  There is a delivery of a record that commits its order as
  \<open>FAILED\<close> and then fails because Kafka refuses the dead letter, so that the record is delivered
  again; and the redelivery, which reads that row back, returns \<open>COMMIT\<close>; Kafka
  accepted no record in either.  The order
  is failed, its offset will be committed, and there is no dead letter.
\<close>

theorem dead_letter_can_be_lost:
  "\<exists>C g r t e row t' s. conv (order_handle C g r) t (Inl e) \<and> is_Exception e
     \<and> o_status row = FAILED \<and> durable t (SaveOrder row)
     \<and> sent_in t = []
     \<and> conv (order_handle C g r) t' (Inr COMMIT) \<and> (DbGet s (o_id demo_order), ROrder (Some row)) \<in> set t'
     \<and> sent_in t' = []"
proof -
  obtain row where row: "o_status row = FAILED"
    "durable (trail scripted last_attempt_handle refused_answers) (SaveOrder row)"
    using refused_run(2) by blast
  have "o_id demo_order = ev_order_id demo_event" by (simp add: demo_defs)
  moreover have "is_Exception (ServiceError (lit ''broker away''))" by (simp add: is_Exception_def)
  ultimately show ?thesis
    using row refused_run(3) redelivery_run(2,3) [OF row(1)]
      conv_scripted [of last_attempt_handle refused_answers, unfolded refused_run(1)]
      conv_scripted [of last_attempt_handle "redelivery_answers row", unfolded redelivery_run(1) [OF row(1)]]
    by metis
qed

text \<open>
  C40. A settled order can be reopened, and is then stuck.  There is a run of the processor that reads, in its
  second session, a row that another delivery has moved to \<open>FAILED\<close>, lawfully; it commits a row that goes on
  from there to \<open>PENDING\<close> and publishes a retry, and returns \<open>COMMIT\<close>.  The retry, put back on the orders
  topic with its headers, finds the tombstone of the event and returns \<open>COMMIT\<close> after four requests to Redis:
  nothing will move the order on.
\<close>

theorem settled_order_can_be_reopened:
  "\<exists>C g r t row row' hop key hs t'. conv (order_handle C g r) t (Inr COMMIT)
     \<and> (DbGet 1 (o_id demo_order), ROrder (Some row)) \<in> set t \<and> lawful row \<and> o_status row = FAILED
     \<and> durable t (SaveOrder row') \<and> o_status row' = PENDING
     \<and> o_transitions row' = o_transitions row @ [hop] \<and> st_from_status hop = Some FAILED
     \<and> (KafkaSend (topic_retry (cfg C)) key (r_value r) hs, RUnit) \<in> set t
     \<and> conv (order_handle C g (r\<lparr>r_headers := hs\<rparr>)) t' (Inr COMMIT)
     \<and> (RedisGet (Keys_event_guard (ev_event_id demo_event)), RStr (Some DONE)) \<in> set t'
     \<and> filter (\<lambda>x. is_db (fst x) \<or> is_send (fst x)) t' = []"
proof -
  obtain row hop where row: "durable slow_run (SaveOrder row)" "o_status row = PENDING"
    "o_transitions row = o_transitions failed_row @ [hop]" "st_from_status hop = Some FAILED"
    using slow_run_reopens by blast
  obtain key hs where
    "slow_run ! 23 = (KafkaSend (topic_retry default_settings) key (r_value demo_event_record) hs, RUnit)"
    using slow_run_publishes by blast
  then have sent: "(KafkaSend (topic_retry (cfg two_attempts_ctx)) key (r_value demo_event_record) hs, RUnit) \<in> set slow_run"
    using slow_run_ends(2) nth_mem [of 23 slow_run] by (simp add: two_attempts_ctx_def)
  have read: "(DbGet 1 (o_id demo_order), ROrder (Some failed_row)) \<in> set slow_run"
    using slow_run_ends(2,3) nth_mem [of 14 slow_run] by simp
  show ?thesis
    by (intro exI conjI)
      (fact conv_scripted [of "two_attempts_handle demo_event_record" slow_answers, unfolded slow_run_ends(1)]
        read failed_row_lawful row sent tombstone_run(2,3) [of hs]
        conv_scripted [of "replay_of hs" tombstone_answers, unfolded tombstone_run(1)])+
qed

end
