(* ===== verification/EffectivelyOnce.thy ===== *)
theory EffectivelyOnce
  imports OrderSafety Guard
begin

text \<open>
  Any number of handler runs for deliveries of one event, interleaved.  The runs share one Redis server
  and one clock of identifiers; a log lists every request with its answer and the run it belongs to.
  Each run's part of the log is the beginning of a conversation of \<open>OrderConsumer.handle\<close>.

  Everything here is about logs during which the guard key does not expire and nobody but these runs writes
  it (\<open>unexpired_runs\<close>): every run ends within \<open>idempotency_lock_ttl_seconds\<close> of its claim, and the whole
  within \<open>idempotency_done_ttl_seconds\<close>.  Under that, a run writes rows only while its own token is in the
  key; writes of different runs are separated by a release, and there are none after a tombstone.  Without it
  neither holds, as the source says: a lock that expires hands the event to a second run while the first is
  at work or after it crashed, and theory \<open>Gaps\<close> has a run that writes after the tombstone.
\<close>

section \<open>What one run sends\<close>

lemma guarded_unscripted: "unscripted t \<Longrightarrow> only (\<lambda>q. \<not> is_eval q) p \<Longrightarrow> guarded \<phi> unscripted t p"
  by (induction p arbitrary: t) auto

lemma guarded_unscripted_then:
  assumes "unscripted t" and "only (\<lambda>q. \<not> is_eval q) p" and "\<And>x. only (\<lambda>q. \<not> \<phi> q) (f x)"
  shows "guarded \<phi> unscripted t (bindP p f)"
  by (intro guarded_bindP guarded_unscripted guarded_only assms)

lemma no_eval_scope:
  "(\<And>s. only (\<lambda>q. \<not> is_eval q) (body s)) \<Longrightarrow> only (\<lambda>q. \<not> is_eval q) (session_scope body)"
  by (rule only_session_scope) auto

lemma no_flush_calm: "only calm p \<Longrightarrow> only (\<lambda>q. \<not> is_flush q) p"
  by (erule only_mono) (auto dest: is_flush_not_calm)

lemmas no_flush_parts = no_flush calm_parts [THEN no_flush_calm]

lemma no_flush_publish: "only (\<lambda>q. \<not> is_flush q) (publish_raw C topic key val hs)"
  by (rule only_publish_raw) simp

text \<open>Rows are written before the claim is completed or released.\<close>

lemma fail_retry_unscripted:
  assumes "unscripted t"
  shows "guarded is_flush unscripted t (fail_retry C g event r att c error)"
  unfolding fail_retry_def Let_def
proof (rule guarded_bindP [OF guarded_unscripted [OF assms no_eval_parts(5)]])
  fix t' delay
  assume "conv (backoff_delay (cfg C) att) t' (Inr delay)"
  then have "unscripted (t @ t')" using assms unscripted_parts(5) by simp
  then show "guarded is_flush unscripted (t @ t') (bindP (session_scope (\<lambda>session.
          bindP (get_order session (ev_order_id event)) (\<lambda>order.
            transition session order PENDING
              (Some (lit ''attempt '' @ str_int att @ lit '' failed ('' @ error
                 @ lit ''); retrying in '' @ repr_float (lib C) delay @ lit ''s''))
              (Some att) (Some error)))) (\<lambda>order.
      seqP (put_order C order)
      (bindP (ask get_float TimeTime) (\<lambda>now.
       bindP (build (lib C) (att + 1) (Some (now + delay)) (Some error) (Some (r_topic r))) (\<lambda>headers.
       seqP (publish_raw C (topic_retry (cfg C)) (Some (uuid_str (ev_order_id event))) (r_value r) headers)
      (seqP (release g c)
      (seqP (incr_stat STAT_RETRIES 1)
       (Return COMMIT))))))))"
    by (rule guarded_unscripted_then)
      (auto intro!: no_eval_scope no_eval_parts no_flush_parts no_flush_publish)
qed

lemma fail_terminal_unscripted:
  "unscripted t \<Longrightarrow> guarded is_flush unscripted t (fail_terminal C g event r att c error retryable)"
  unfolding fail_terminal_def Let_def
  by (rule guarded_unscripted_then)
    (auto intro!: no_eval_scope no_eval_parts no_flush_parts split: option.split)

lemma finish_unscripted:
  "unscripted t \<Longrightarrow> guarded is_flush unscripted t (finish_processing C g event att c)"
  unfolding finish_processing_def Let_def
  by (rule guarded_unscripted_then) (auto intro!: no_eval_scope no_eval_parts no_flush_parts)

lemma begin_unscripted:
  assumes "unscripted t"
  shows "guarded is_flush unscripted t (begin_processing C g event r att c)"
  unfolding begin_processing_def Let_def
proof (rule guarded_session_scope)
  fix s
  let ?f = "\<lambda>order. case order of
      None \<Rightarrow> seqP (complete g c) (seqP (to_dlq C r att (lit ''no such order '' @ uuid_str (ev_order_id event)))
               (Return (Inl COMMIT)))
    | Some o' \<Rightarrow> if o_status o' \<in> TERMINAL_STATUSES
        then seqP (complete g c) (seqP (incr_stat STAT_DUPLICATES 1) (Return (Inl COMMIT)))
        else bindP (transition s (Some o') PROCESSING (Some (lit ''attempt '' @ str_int att)) (Some att) None)
          (\<lambda>o''. Return (Inr o''))"
  have opened: "unscripted (t @ [(DbOpen, RSid s)])" using assms by simp
  show "guarded is_flush unscripted (t @ [(DbOpen, RSid s)]) (bindP (get_order s (ev_order_id event)) ?f)"
  proof (rule guarded_bindP [OF guarded_unscripted [OF opened no_eval_parts(6)]])
    fix t' row
    assume "conv (get_order s (ev_order_id event)) t' (Inr row)"
    then have so_far: "unscripted ((t @ [(DbOpen, RSid s)]) @ t')" using opened unscripted_parts(6) by simp
    show "guarded is_flush unscripted ((t @ [(DbOpen, RSid s)]) @ t') (?f row)"
    proof (cases "\<exists>o'. row = Some o' \<and> o_status o' \<notin> TERMINAL_STATUSES")
      case True
      then show ?thesis using so_far
        by (auto intro!: guarded_unscripted no_eval_parts)
    next
      case False
      then show ?thesis by (auto intro!: guarded_only no_flush_parts split: option.split)
    qed
  qed
qed auto

lemma returns_begin_unscripted:
  "returns (begin_processing C g event r att c) (\<lambda>t v. \<forall>o'. v = Inr o' \<longrightarrow> unscripted t)"
proof -
  have "returns (begin_processing C g event r att c) (\<lambda>t v. \<exists>s t' rc rx.
      t = (DbOpen, RSid s) # t' @ [(DbCommit s, rc), (DbClose s, rx)] \<and> ok_resp rc \<and> ok_resp rx
      \<and> (\<forall>o'. v = Inr o' \<longrightarrow> unscripted t'))"
    unfolding begin_processing_def Let_def
    by (rule returns_session_scope, rule returns_bindP [OF returns_get_order])
      (auto simp: returns_conv conv_simps dest: unscripted_parts split: option.split)
  then show ?thesis by (rule returns_mono) auto
qed

lemma order_handle_unscripted:
  assumes "validate_event (lib C) (r_value r) = Inr event"
  shows "guarded is_flush unscripted [] (order_handle C g r)"
proof (rule guarded_order_handle [OF assms is_flush_not_calm])
  fix t t' c
  assume claimed: "conv (claim g (ev_event_id event)) t (Inr c)" and "unscripted t'"
  then have t: "unscripted (t' @ t)" using unscripted_parts(3) by simp
  have begun: "unscripted ((t' @ t) @ u @ w)"
    if "conv (begin_processing C g event r (get_attempt (r_headers r)) c) u (Inr (Inr o'))" "unscripted w"
    for u w o'
    using that t returns_begin_unscripted by (auto simp: returns_conv)
  let ?a = "get_attempt (r_headers r)"
  have fail: "\<forall>w. unscripted w \<longrightarrow> guarded is_flush unscripted ((t' @ t) @ u @ w) (fail_event C g event r ?a c error retryable)"
    if "conv (begin_processing C g event r ?a c) u (Inr (Inr o'))" for u o' error retryable
    using begun [OF that] fail_retry_unscripted fail_terminal_unscripted by (simp add: fail_event_def Let_def)
  have finish: "\<forall>w. unscripted w \<longrightarrow> guarded is_flush unscripted ((t' @ t) @ u @ w) (finish_processing C g event ?a c)"
    if "conv (begin_processing C g event r ?a c) u (Inr (Inr o'))" for u o'
    using begun [OF that] finish_unscripted by simp
  show "guarded is_flush unscripted (t' @ t) (process C g event r ?a c)"
    by (rule guarded_process [OF begin_unscripted [OF t] is_flush_not_calm fail finish])
qed

text \<open>The requests that carry a token to a key; a run carries only tokens that it drew itself.\<close>

fun carries :: "str \<Rightarrow> str \<Rightarrow> req \<Rightarrow> bool" where
  "carries K tok (RedisSet k v nx ex) \<longleftrightarrow> k = K \<and> v = tok"
| "carries K tok (RedisEval s k v ttl) \<longleftrightarrow> k = K \<and> v = tok"
| "carries K tok _ \<longleftrightarrow> False"

definition drawn :: "str \<Rightarrow> trace \<Rightarrow> bool" where
  "drawn tok t \<longleftrightarrow> (\<exists>u. tok = uuid_hex u \<and> (Uuid4, RUuid u) \<in> set t)"

lemma drawn_append: "drawn tok a \<Longrightarrow> drawn tok (a @ b)" "drawn tok b \<Longrightarrow> drawn tok (a @ b)"
  by (auto simp: drawn_def)

lemma claim_carries: "guarded (carries K tok) (drawn tok) t (claim g ev)"
  unfolding claim_def Let_def
proof (rule guarded_bindP)
  fix t' u
  assume "conv (ask get_uuid Uuid4) t' (Inr u)"
  then have t': "t' = [(Uuid4, RUuid u)]" by (auto simp: conv_ask answer_Inr dest: sym)
  let ?p = "bindP (ask get_bool (RedisSet (Keys_event_guard ev) (uuid_hex u) True (Some (g_lock_ttl g)))) (\<lambda>ok.
      if ok then Return \<lparr>c_status = ACQUIRED, c_key = Keys_event_guard ev, c_token = uuid_hex u\<rparr>
      else bindP (ask get_str (RedisGet (Keys_event_guard ev))) (\<lambda>current.
      if current = None then
        bindP (ask get_bool (RedisSet (Keys_event_guard ev) (uuid_hex u) True (Some (g_lock_ttl g)))) (\<lambda>ok.
        if ok then Return \<lparr>c_status = ACQUIRED, c_key = Keys_event_guard ev, c_token = uuid_hex u\<rparr>
        else bindP (ask get_str (RedisGet (Keys_event_guard ev))) (claim_verdict (Keys_event_guard ev) (uuid_hex u)))
      else claim_verdict (Keys_event_guard ev) (uuid_hex u) current))"
  show "guarded (carries K tok) (drawn tok) (t @ t') ?p"
  proof (cases "tok = uuid_hex u")
    case True
    then have "drawn tok (t @ t')" by (auto simp: t' drawn_def)
    then show ?thesis by (rule guarded_met [rotated]) (rule drawn_append(1))
  next
    case False
    then show ?thesis by (intro guarded_only) (auto simp: claim_verdict_def)
  qed
qed (auto intro: guarded_only)

lemma returns_claim_drawn: "returns (claim g ev) (\<lambda>t c. drawn (c_token c) t)"
  unfolding drawn_def
  by (auto simp: returns_def claim_def claim_verdict_def Let_def prog_simps answer_Inr split: sum.splits)

lemma fits_carries: "c_token c \<noteq> tok \<Longrightarrow> fits c (\<lambda>q. \<not> carries (Keys_event_guard ev) tok q)"
  by (auto simp: fits_def elim!: carries.elims)

lemma process_carries:
  assumes "drawn (c_token c) t"
  shows "guarded (carries (Keys_event_guard ev) tok) (drawn tok) t (process C g event r att c)"
    and "guarded (carries (Keys_event_guard ev) tok) (drawn tok) t (release g c)"
proof -
  have "guarded (carries (Keys_event_guard ev) tok) (drawn tok) t (process C g event r att c)
    \<and> guarded (carries (Keys_event_guard ev) tok) (drawn tok) t (release g c)"
  proof (cases "c_token c = tok")
    case True
    then show ?thesis using assms by (intro conjI guarded_met) (auto intro: drawn_append)
  next
    case False
    note fits = fits_carries [OF False, of ev]
    show ?thesis
      by (intro conjI guarded_only only_process [OF fits] only_parts [OF fits] only_to_dlq [OF fits] only_fail_retry [OF fits])
        simp_all
  qed
  then show "guarded (carries (Keys_event_guard ev) tok) (drawn tok) t (process C g event r att c)"
    and "guarded (carries (Keys_event_guard ev) tok) (drawn tok) t (release g c)" by blast+
qed

lemma handle_carries: "guarded (carries (Keys_event_guard ev) tok) (drawn tok) [] (order_handle C g r)"
proof (cases "validate_event (lib C) (r_value r)")
  case (Inl exc)
  have "only (\<lambda>q. \<not> carries (Keys_event_guard ev) tok q) (to_dlq C r att e)" for att e
    by (auto simp: to_dlq_def build_def publish_raw_def get_producer_def Let_def split: option.split)
  then show ?thesis by (auto simp: order_handle_def Inl intro!: guarded_only)
next
  case (Inr event)
  have stat: "only (\<lambda>q. \<not> carries (Keys_event_guard ev) tok q) (incr_stat f n)"
    "only (\<lambda>q. \<not> carries (Keys_event_guard ev) tok q) (sleep d)" for f n d
    by (simp_all add: incr_stat_def sleep_def)
  have "guarded (carries (Keys_event_guard ev) tok) (drawn tok) (t' @ t) (case c_status c of
        ALREADY_DONE \<Rightarrow> seqP (incr_stat STAT_DUPLICATES 1) (Return COMMIT)
      | IN_PROGRESS \<Rightarrow> seqP (sleep (1 / 4)) (Return REDELIVER)
      | ACQUIRED \<Rightarrow> try_except is_Exception (process C g event r (get_attempt (r_headers r)) c)
          (\<lambda>e. seqP (release g c) (Raise e)))"
    if "conv (claim g (ev_event_id event)) t (Inr c)" for t t' c
  proof -
    have "drawn (c_token c) t" using that returns_claim_drawn by (auto simp: returns_conv)
    then have "drawn (c_token c) ((t' @ t) @ u)" for u by (intro drawn_append)
    note carried = process_carries(1) [OF this [of "[]"]] process_carries(2) [OF this]
    show ?thesis
    proof (cases "c_status c")
      case ACQUIRED
      then show ?thesis using carried by (auto intro!: guarded_try_except guarded_seqP)
    qed (auto intro!: guarded_only stat)
  qed
  then have "guarded (carries (Keys_event_guard ev) tok) (drawn tok) [] (seqP (incr_stat STAT_CONSUMED 1)
      (bindP (claim g (ev_event_id event)) (\<lambda>c. case c_status c of
        ALREADY_DONE \<Rightarrow> seqP (incr_stat STAT_DUPLICATES 1) (Return COMMIT)
      | IN_PROGRESS \<Rightarrow> seqP (sleep (1 / 4)) (Return REDELIVER)
      | ACQUIRED \<Rightarrow> try_except is_Exception (process C g event r (get_attempt (r_headers r)) c)
          (\<lambda>e. seqP (release g c) (Raise e)))))"
    by (intro guarded_seqP guarded_bindP claim_carries) (auto intro!: guarded_only stat)
  then show ?thesis by (simp add: order_handle_def Inr)
qed

text \<open>Beside reading it, a run changes a guard key only by \<open>SET NX\<close> and by the two scripts.\<close>

definition guard_change :: "str \<Rightarrow> req \<Rightarrow> bool" where
  "guard_change K q \<longleftrightarrow> (touches K q \<longrightarrow> (\<exists>tok ex. q = RedisSet K tok True ex) \<or> (\<exists>s tok ttl. q = RedisEval s K tok ttl))"

lemma handle_guard_change: "only (guard_change (Keys_event_guard ev)) (order_handle C g r)"
proof -
  let ?P = "guard_change (Keys_event_guard ev)"
  have fits: "fits c ?P" for c
    by (auto simp: fits_def guard_change_def elim!: touches.elims)
  show ?thesis
  proof (rule only_handle [OF fits])
    show "only ?P (claim g ev')" for ev'
      by (auto simp: claim_def claim_verdict_def Let_def guard_change_def)
  qed (auto intro!: only_to_dlq [OF fits] only_fail_retry [OF fits] simp: guard_change_def)
qed

lemma handle_touches:
  assumes "conv (order_handle C g r) (t1 @ (q, x) # t2) v" and "touches (Keys_event_guard ev) q"
  obtains (set) tok ex where "q = RedisSet (Keys_event_guard ev) tok True ex" "drawn tok t1"
    | (eval) s tok ttl where "q = RedisEval s (Keys_event_guard ev) tok ttl" "drawn tok t1"
proof -
  have "drawn tok t1" if "carries (Keys_event_guard ev) tok q" for tok
    using guarded_conv [OF handle_carries assms(1) that] by simp
  moreover have "guard_change (Keys_event_guard ev) q"
    by (rule only_conv [OF handle_guard_change assms(1), of _ x]) simp
  ultimately show thesis using assms(2) set eval by (auto simp: guard_change_def)
qed

section \<open>Runs that share a server\<close>

type_synonym log = "(nat \<times> req \<times> resp) list"

definition seen_by :: "nat \<Rightarrow> log \<Rightarrow> trace" where
  "seen_by i L = map snd (filter (\<lambda>x. fst x = i) L)"

lemma seen_by_simps [simp]:
  "seen_by i [] = []" "seen_by i (A @ B) = seen_by i A @ seen_by i B"
  "seen_by i ((j, x) # L) = (if j = i then x # seen_by i L else seen_by i L)"
  by (simp_all add: seen_by_def)

lemma set_seen_by: "x \<in> set (seen_by i L) \<longleftrightarrow> (i, x) \<in> set L"
  by (force simp: seen_by_def)

text \<open>
  A server answers a request as documented, or the client sees an exception and the command was or was
  not carried out.  \<open>serves K m L m'\<close>: the answers of the log are those of a server that has the keys
  \<open>m\<close> before and \<open>m'\<close> after; in between anything may happen to other keys, but \<open>K\<close> keeps its value: it does not expire.
\<close>

definition reply :: "keyspace \<Rightarrow> req \<Rightarrow> resp \<Rightarrow> keyspace \<Rightarrow> bool" where
  "reply m q r m' \<longleftrightarrow>
     (case redis_exec m q of
        None \<Rightarrow> m' = m
      | Some (r', m'') \<Rightarrow> (r = r' \<and> m' = m'') \<or> ((\<exists>e. r = RErr e) \<and> (m' = m \<or> m' = m'')))"

definition key_value :: "str \<Rightarrow> keyspace \<Rightarrow> str option" where
  "key_value K m = map_option fst (m K)"

fun serves :: "str \<Rightarrow> keyspace \<Rightarrow> log \<Rightarrow> keyspace \<Rightarrow> bool" where
  "serves K m [] m' \<longleftrightarrow> key_value K m = key_value K m'"
| "serves K m ((i, q, r) # L) m' \<longleftrightarrow>
     (\<exists>m1 m2. key_value K m = key_value K m1 \<and> reply m1 q r m2 \<and> serves K m2 L m')"

lemma serves_value: "serves K m L m' \<Longrightarrow> key_value K n = key_value K m \<Longrightarrow> serves K n L m'"
  by (cases L) auto

lemma serves_append: "serves K m (A @ B) m' \<longleftrightarrow> (\<exists>m1. serves K m A m1 \<and> serves K m1 B m')"
proof (induction A arbitrary: m)
  case Nil
  then show ?case using serves_value by fastforce
next
  case (Cons x A)
  then show ?case by (cases x) auto
qed

text \<open>What an answered request does to the value of the key.\<close>

lemma reply_other: "reply m q r m' \<Longrightarrow> \<not> touches K q \<Longrightarrow> key_value K m' = key_value K m"
  using redis_exec_frame [of m q] by (fastforce simp: reply_def key_value_def split: option.splits)

lemma reply_set:
  assumes "reply m (RedisSet K tok True ex) r m'"
  shows "if key_value K m = None then key_value K m' \<in> {None, Some tok} \<and> (r = RBool True \<longrightarrow> key_value K m' = Some tok)
    else key_value K m' = key_value K m \<and> r \<noteq> RBool True"
  using assms by (auto simp: reply_def key_value_def split: if_splits)

lemma reply_eval:
  assumes "reply m (RedisEval s K tok ttl) r m'"
  shows "key_value K m \<noteq> Some tok \<Longrightarrow> key_value K m' = key_value K m \<and> r \<noteq> RInt 1"
    and "key_value K m = Some tok \<Longrightarrow> s = COMPLETE_LUA \<Longrightarrow> key_value K m' \<in> {Some tok, Some DONE}
      \<and> (r = RInt 1 \<longrightarrow> key_value K m' = Some DONE)"
  using assms by (cases s; auto simp: reply_def key_value_def split: if_splits)+

text \<open>
  Runs of the handler for deliveries of the event \<open>ev\<close>, with the guard key free at the start, no expiry of it
  and no foreign write to it (\<open>serves\<close>), and identifiers that no two runs share.
\<close>

definition handlers :: "ctx \<Rightarrow> guard \<Rightarrow> str \<Rightarrow> (nat \<Rightarrow> consumer_record) \<Rightarrow> log \<Rightarrow> bool" where
  "handlers C g ev rec L \<longleftrightarrow>
     (\<forall>i. (\<exists>event. validate_event (lib C) (r_value (rec i)) = Inr event \<and> ev_event_id event = ev)
        \<and> (\<exists>t v. conv (order_handle C g (rec i)) (seen_by i L @ t) v))"

definition fresh_ids :: "log \<Rightarrow> bool" where
  "fresh_ids L \<longleftrightarrow> (\<forall>i j u. (i, Uuid4, RUuid u) \<in> set L \<longrightarrow> (j, Uuid4, RUuid u) \<in> set L \<longrightarrow> i = j)"

definition unexpired_runs :: "ctx \<Rightarrow> guard \<Rightarrow> str \<Rightarrow> (nat \<Rightarrow> consumer_record) \<Rightarrow> log \<Rightarrow> bool" where
  "unexpired_runs C g ev rec L \<longleftrightarrow> handlers C g ev rec L \<and> fresh_ids L
     \<and> (\<exists>m m'. m (Keys_event_guard ev) = None \<and> serves (Keys_event_guard ev) m L m')"

lemma unexpired_runsI:
  "handlers C g ev rec L \<Longrightarrow> fresh_ids L \<Longrightarrow> m (Keys_event_guard ev) = None \<Longrightarrow>
    serves (Keys_event_guard ev) m L m' \<Longrightarrow> unexpired_runs C g ev rec L"
  unfolding unexpired_runs_def by blast

lemma handlers_prefix: "handlers C g ev rec (A @ B) \<Longrightarrow> handlers C g ev rec A"
  unfolding handlers_def by (metis append_assoc seen_by_simps(2))

lemma handlers_conv:
  assumes "handlers C g ev rec (A @ (i, q, x) # B)"
  obtains event t v where "validate_event (lib C) (r_value (rec i)) = Inr event" "ev_event_id event = ev"
    "conv (order_handle C g (rec i)) (seen_by i A @ (q, x) # t) v"
proof -
  obtain event where event: "validate_event (lib C) (r_value (rec i)) = Inr event" "ev_event_id event = ev"
    using assms unfolding handlers_def by blast
  obtain t v where "conv (order_handle C g (rec i)) (seen_by i (A @ (i, q, x) # B) @ t) v"
    using assms unfolding handlers_def by blast
  then have "conv (order_handle C g (rec i)) (seen_by i A @ (q, x) # (seen_by i B @ t)) v" by simp
  with event show thesis by (rule that)
qed

text \<open>The shape of a request that changes the key, with the run that drew its token.\<close>

lemma handlers_touches:
  assumes "handlers C g ev rec (A @ (i, q, x) # B)" and "touches (Keys_event_guard ev) q"
  obtains (set) tok u ex where "q = RedisSet (Keys_event_guard ev) tok True ex" "tok = uuid_hex u" "(i, Uuid4, RUuid u) \<in> set A"
    | (eval) s tok u ttl where "q = RedisEval s (Keys_event_guard ev) tok ttl" "tok = uuid_hex u" "(i, Uuid4, RUuid u) \<in> set A"
proof -
  obtain t v where "conv (order_handle C g (rec i)) (seen_by i A @ (q, x) # t) v"
    using handlers_conv [OF assms(1)] by blast
  then show thesis
    using assms(2) by (cases rule: handle_touches) (auto simp: drawn_def set_seen_by intro: set eval)
qed

lemma handlers_drawn:
  assumes "handlers C g ev rec L" and "(i, q, x) \<in> set L" and "carries (Keys_event_guard ev) tok q"
  shows "\<exists>u. tok = uuid_hex u \<and> (i, Uuid4, RUuid u) \<in> set L"
proof -
  obtain A B where L: "L = A @ (i, q, x) # B" using assms(2) by (metis split_list)
  have "touches (Keys_event_guard ev) q" using assms(3) by (cases q) auto
  with assms(1,3) show ?thesis unfolding L by (elim handlers_touches) auto
qed

lemma tombstone_not_carried:
  assumes "handlers C g ev rec L" and "(i, q, x) \<in> set L"
  shows "\<not> carries (Keys_event_guard ev) DONE q"
  using handlers_drawn [OF assms] uuid_hex_not_done by metis

lemma same_run:
  assumes "handlers C g ev rec L" and "fresh_ids L"
    and "(i, q, x) \<in> set L" "carries (Keys_event_guard ev) tok q"
    and "(j, q', x') \<in> set L" "carries (Keys_event_guard ev) tok q'"
  shows "i = j"
  using handlers_drawn [OF assms(1,3,4)] handlers_drawn [OF assms(1,5,6)] assms(2)
  by (auto simp: fresh_ids_def)

section \<open>Who holds the key\<close>

lemma serves_snoc:
  "serves K m (L @ [(i, q, r)]) m' \<longleftrightarrow>
     (\<exists>m0 m1 m2. serves K m L m0 \<and> key_value K m0 = key_value K m1 \<and> reply m1 q r m2 \<and> key_value K m2 = key_value K m')"
  by (auto simp: serves_append)

text \<open>A run that acquired the claim and sent no script yet has its token in the key.\<close>

lemma holder:
  assumes "handlers C g ev rec L" and "fresh_ids L" and "serves (Keys_event_guard ev) m L m'"
    and "m (Keys_event_guard ev) = None"
    and "(i, RedisSet (Keys_event_guard ev) tok True ex, RBool True) \<in> set L" and "unscripted (seen_by i L)"
  shows "key_value (Keys_event_guard ev) m' = Some tok"
  using assms
proof (induction L arbitrary: m' i tok ex rule: rev_induct)
  case (snoc e L)
  let ?K = "Keys_event_guard ev"
  obtain j q r where e: "e = (j, q, r)" by (cases e)
  obtain m0 m1 m2 where before: "serves ?K m L m0" "key_value ?K m0 = key_value ?K m1" "reply m1 q r m2"
    and after: "key_value ?K m' = key_value ?K m2"
    using snoc.prems(3) unfolding e serves_snoc by metis
  have hs: "handlers C g ev rec L" using snoc.prems(1) by (rule handlers_prefix)
  have ids: "fresh_ids L" using snoc.prems(2) by (auto simp: fresh_ids_def)
  have IH: "key_value ?K m1 = Some tok'"
    if "(i', RedisSet ?K tok' True ex', RBool True) \<in> set L" "unscripted (seen_by i' L)" for i' tok' ex'
    using snoc.IH [OF hs ids before(1) snoc.prems(4) that] before(2) by simp
  have still: "unscripted (seen_by i L)" using snoc.prems(6) by simp
  show ?case
  proof (cases "touches ?K q")
    case False
    then have "(i, RedisSet ?K tok True ex, RBool True) \<in> set L" using snoc.prems(5) by (auto simp: e)
    from IH [OF this still] show ?thesis using reply_other [OF before(3) False] after by simp
  next
    case True
    have req: "handlers C g ev rec (L @ (j, q, r) # [])" using snoc.prems(1) by (simp add: e)
    from req True show ?thesis
    proof (cases rule: handlers_touches)
      case (set tok' u ex')
      note step = reply_set [OF before(3) [unfolded set(1)]]
      show ?thesis
      proof (cases "(i, RedisSet ?K tok True ex, RBool True) \<in> set L")
        case True
        from IH [OF this still] show ?thesis using step after by simp
      next
        case False
        then have "tok' = tok" "r = RBool True" using snoc.prems(5) by (auto simp: e set(1))
        then show ?thesis using step after by (auto split: if_splits)
      qed
    next
      case (eval s tok' u ttl)
      then have won: "(i, RedisSet ?K tok True ex, RBool True) \<in> set L" using snoc.prems(5) by (auto simp: e)
      have "j \<noteq> i" using snoc.prems(6) by (auto simp: e eval(1))
      then have "tok \<noteq> tok'"
        using same_run [OF snoc.prems(1,2), of i "RedisSet ?K tok True ex" "RBool True" tok j q r] won
        by (auto simp: e eval(1))
      then show ?thesis using reply_eval(1) [OF before(3) [unfolded eval(1)]] IH [OF won still] after by simp
    qed
  qed
qed simp

text \<open>A token stays in the key, or gives way to the tombstone, until it is released; the tombstone stays.\<close>

lemma stays:
  assumes "handlers C g ev rec (A @ B)" and "serves (Keys_event_guard ev) m B m'"
    and "key_value (Keys_event_guard ev) m \<in> {Some tok, Some DONE}"
    and "\<And>i ttl x. (i, RedisEval RELEASE_LUA (Keys_event_guard ev) tok ttl, x) \<notin> set B"
  shows "key_value (Keys_event_guard ev) m' \<in> {Some tok, Some DONE}"
  using assms
proof (induction B arbitrary: m' rule: rev_induct)
  case Nil
  then show ?case by simp
next
  case (snoc e B)
  let ?K = "Keys_event_guard ev"
  obtain j q r where e: "e = (j, q, r)" by (cases e)
  obtain m0 m1 m2 where before: "serves ?K m B m0" "key_value ?K m0 = key_value ?K m1" "reply m1 q r m2"
    and after: "key_value ?K m' = key_value ?K m2"
    using snoc.prems(2) unfolding e serves_snoc by metis
  have "handlers C g ev rec (A @ B)" using snoc.prems(1) handlers_prefix [of C g ev rec "A @ B" "[e]"] by simp
  from snoc.IH [OF this before(1) snoc.prems(3)] snoc.prems(4)
  have IH: "key_value ?K m1 \<in> {Some tok, Some DONE}" using before(2) by (auto simp: e)
  have req: "handlers C g ev rec ((A @ B) @ (j, q, r) # [])" using snoc.prems(1) by (simp add: e)
  show ?case
  proof (cases "touches ?K q")
    case False
    then show ?thesis using reply_other [OF before(3)] after IH by simp
  next
    case True
    with req show ?thesis
    proof (cases rule: handlers_touches)
      case (set tok' u ex')
      then show ?thesis using reply_set [OF before(3) [unfolded set(1)]] after IH by (auto split: if_splits)
    next
      case (eval s tok' u ttl)
      have "tok' \<noteq> DONE" using eval(2) uuid_hex_not_done by simp
      moreover have "s = COMPLETE_LUA" if "tok' = tok"
        using that snoc.prems(4) [of j ttl r] by (cases s) (auto simp: e eval(1))
      ultimately show ?thesis
        using reply_eval [OF before(3) [unfolded eval(1)]] after IH
        by (cases "key_value ?K m1 = Some tok'") auto
    qed
  qed
qed

text \<open>When a run writes a row, its own token is in the key.\<close>

lemma writer_holds:
  assumes "handlers C g ev rec (A @ (i, DbFlush s row, x) # B)" and "fresh_ids A"
    and "serves (Keys_event_guard ev) m A m'" and "m (Keys_event_guard ev) = None"
  obtains tok ttl where "(i, RedisSet (Keys_event_guard ev) tok True (Some ttl), RBool True) \<in> set A"
    "key_value (Keys_event_guard ev) m' = Some tok"
proof -
  obtain event t v where event: "validate_event (lib C) (r_value (rec i)) = Inr event" "ev_event_id event = ev"
    and c: "conv (order_handle C g (rec i)) (seen_by i A @ (DbFlush s row, x) # t) v"
    using handlers_conv [OF assms(1)] by blast
  have "won_claim ev (seen_by i A)"
    using guarded_conv [OF order_handle_claims_first [OF event(1)] c] event(2) by (simp add: calm_def)
  then obtain tok ttl where won: "(i, RedisSet (Keys_event_guard ev) tok True (Some ttl), RBool True) \<in> set A"
    by (auto simp: won_claim_def set_seen_by)
  moreover have "unscripted (seen_by i A)"
    using guarded_conv [OF order_handle_unscripted [OF event(1)] c] by simp
  ultimately show thesis
    using that holder [OF handlers_prefix [OF assms(1)] assms(2,3,4)] by blast
qed

section \<open>Example logs\<close>

text \<open>A server that answers exactly as documented, and runs that go one after the other.\<close>

fun replay :: "keyspace \<Rightarrow> trace \<Rightarrow> keyspace option" where
  "replay m [] = Some m"
| "replay m ((q, r) # t) =
     (case redis_exec m q of
        None \<Rightarrow> replay m t
      | Some (r', m') \<Rightarrow> if r = r' then replay m' t else None)"

lemma replay_serves: "replay m t = Some m' \<Longrightarrow> serves K m (map (Pair i) t) m'"
proof (induction t arbitrary: m)
  case (Cons x t)
  obtain q r where x: "x = (q, r)" by (cases x)
  have "\<exists>m1. reply m q r m1 \<and> replay m1 t = Some m'"
    using Cons.prems by (fastforce simp: x reply_def split: option.splits if_splits)
  then show ?case using Cons.IH by (auto simp: x)
qed simp

lemma seen_by_map [simp]: "seen_by i (map (Pair j) t) = (if i = j then t else [])"
  by (induction t) auto

text \<open>The first attempt of the example event, which ends with a retry, under a given identifier.\<close>

definition demo_attempt :: "uuid \<Rightarrow> trace" where
  "demo_attempt u = trail scripted demo_handle (demo_retry_answers[1 := RUuid u])"

lemma demo_attempt_run:
  "filter (\<lambda>x. fst x = Uuid4) (demo_attempt u) = [(Uuid4, RUuid u)]"
  "\<exists>s row. demo_attempt u ! 7 = (DbFlush s row, RUnit)" "length (demo_attempt u) = 26"
  by (simp_all add: demo_attempt_def demo_run_simps demo_retry_answers_def)

lemma demo_attempt_replay:
  "m (Keys_event_guard (lit ''e1'')) = None \<Longrightarrow>
    \<exists>m'. replay m (demo_attempt u) = Some m' \<and> m' (Keys_event_guard (lit ''e1'')) = None"
  by (simp add: demo_attempt_def demo_run_simps demo_retry_answers_def)

lemma demo_missing_replay:
  "\<exists>m'. replay Map.empty (trail scripted demo_handle demo_missing_answers) = Some m'"
  by (simp add: demo_run_simps demo_missing_answers_def)

section \<open>Properties\<close>

text \<open>
  C1. Effectively once, under every interleaving in which the guard key does not expire and nobody else writes it:
  when two different runs write rows for deliveries of one event, the earlier writer released its claim in
  between.  So the writes of one run are never mixed with those of another, and a run whose claim was not
  released is the last one to write.
\<close>

theorem writes_separated_by_release:
  assumes "unexpired_runs C g ev rec (L1 @ (i, DbFlush s row, x) # L2 @ (j, DbFlush s' row', y) # L3)" and "i \<noteq> j"
  shows "\<exists>tok ttl z. (i, RedisEval RELEASE_LUA (Keys_event_guard ev) tok ttl, z) \<in> set L2"
proof (rule ccontr)
  assume kept: "\<not> ?thesis"
  let ?K = "Keys_event_guard ev" and ?A = "L1 @ (i, DbFlush s row, x) # L2"
  obtain m m' where runs: "handlers C g ev rec (?A @ (j, DbFlush s' row', y) # L3)" and ids: "fresh_ids ?A"
    and free: "m ?K = None" and "serves ?K m (?A @ (j, DbFlush s' row', y) # L3) m'"
    using assms(1) by (auto simp: unexpired_runs_def fresh_ids_def)
  then obtain m2 where all: "serves ?K m ?A m2" unfolding serves_append by blast
  then obtain m1 where first: "serves ?K m L1 m1" and "serves ?K m1 ((i, DbFlush s row, x) # L2) m2"
    unfolding serves_append by blast
  then have rest: "serves ?K m1 L2 m2" by (auto simp: reply_def intro: serves_value)
  have runs1: "handlers C g ev rec (L1 @ (i, DbFlush s row, x) # L2 @ (j, DbFlush s' row', y) # L3)"
    using runs by simp
  have ids1: "fresh_ids L1" using ids by (auto simp: fresh_ids_def)
  obtain tok ttl where tok: "(i, RedisSet ?K tok True (Some ttl), RBool True) \<in> set L1" "key_value ?K m1 = Some tok"
    using writer_holds [OF runs1 ids1 first free] by blast
  obtain tok' ttl' where tok': "(j, RedisSet ?K tok' True (Some ttl'), RBool True) \<in> set ?A" "key_value ?K m2 = Some tok'"
    using writer_holds [OF runs ids all free] by blast
  have one: "k = i" if "(k, q, z) \<in> set ?A" "carries ?K tok q" for k q z
    using same_run [OF handlers_prefix [OF runs] ids that, of i "RedisSet ?K tok True (Some ttl)" "RBool True"] tok(1)
    by auto
  have "handlers C g ev rec ((L1 @ [(i, DbFlush s row, x)]) @ L2)" using handlers_prefix [OF runs] by simp
  moreover have "(k, RedisEval RELEASE_LUA ?K tok ttl, z) \<notin> set L2" for k ttl z
    using one [of k "RedisEval RELEASE_LUA ?K tok ttl" z] kept by auto
  ultimately have "key_value ?K m2 \<in> {Some tok, Some DONE}"
    using stays [of C g ev rec "L1 @ [(i, DbFlush s row, x)]" L2 m1 m2 tok] rest tok(2) by auto
  moreover have "tok' \<noteq> DONE"
    using tombstone_not_carried [OF handlers_prefix [OF runs] tok'(1)] by auto
  ultimately have "tok' = tok" using tok'(2) by simp
  then show False using one [OF tok'(1)] assms(2) by simp
qed

definition demo_log :: log where
  "demo_log = map (Pair 0) (demo_attempt 5) @ map (Pair 2) (demo_attempt 6)"

lemma in_demo_attempt: "(Uuid4, RUuid u) \<in> set (demo_attempt u') \<longleftrightarrow> u = u'"
proof -
  have "(Uuid4, RUuid u) \<in> set (demo_attempt u')
    \<longleftrightarrow> (Uuid4, RUuid u) \<in> set (filter (\<lambda>x. fst x = Uuid4) (demo_attempt u'))" by simp
  then show ?thesis unfolding demo_attempt_run(1) by simp
qed

lemma demo_handlers:
  assumes "\<And>i. \<exists>rs. seen_by i L = trail scripted demo_handle rs \<or> seen_by i L = []"
  shows "handlers demo_ctx demo_guard (lit ''e1'') (\<lambda>_. demo_event_record) L"
  unfolding handlers_def
proof (intro allI conjI)
  fix i
  show "\<exists>event. validate_event (lib demo_ctx) (r_value demo_event_record) = Inr event \<and> ev_event_id event = lit ''e1''"
    using demo_valid by (simp add: demo_event_def)
  obtain rs where "seen_by i L = trail scripted demo_handle rs \<or> seen_by i L = []" using assms by blast
  then show "\<exists>t v. conv (order_handle demo_ctx demo_guard demo_event_record) (seen_by i L @ t) v"
    using conv_scripted [of demo_handle rs] by (metis append_Nil append_Nil2)
qed

lemma demo_log_runs: "unexpired_runs demo_ctx demo_guard (lit ''e1'') (\<lambda>_. demo_event_record) demo_log"
proof -
  let ?K = "Keys_event_guard (lit ''e1'')"
  obtain m1 where 1: "replay Map.empty (demo_attempt 5) = Some m1" "m1 ?K = None"
    using demo_attempt_replay [of Map.empty 5] by auto
  obtain m2 where "replay m1 (demo_attempt 6) = Some m2" using demo_attempt_replay [of m1 6] 1(2) by blast
  with 1(1) have "serves ?K Map.empty demo_log m2"
    unfolding demo_log_def serves_append using replay_serves by blast
  moreover have "handlers demo_ctx demo_guard (lit ''e1'') (\<lambda>_. demo_event_record) demo_log"
    by (rule demo_handlers) (auto simp: demo_log_def demo_attempt_def)
  moreover have "fresh_ids demo_log"
    by (auto simp: demo_log_def fresh_ids_def in_demo_attempt)
  ultimately show ?thesis by (intro unexpired_runsI [where m = Map.empty and m' = m2]) simp_all
qed

theorem writes_separated_by_release_witness:
  "\<exists>L1 s row x (L2 :: log) s' row' y L3. demo_log = L1 @ (0, DbFlush s row, x) # L2 @ (2, DbFlush s' row', y) # L3
     \<and> (\<exists>tok ttl z. (0, RedisEval RELEASE_LUA (Keys_event_guard (lit ''e1'')) tok ttl, z) \<in> set L2)"
proof -
  have flush: "\<exists>a b s row. demo_attempt u = a @ (DbFlush s row, RUnit) # b" for u
  proof -
    obtain s row where "demo_attempt u ! 7 = (DbFlush s row, RUnit)" using demo_attempt_run(2) by blast
    then show ?thesis using demo_attempt_run(3) [of u] id_take_nth_drop [of 7 "demo_attempt u"] by fastforce
  qed
  obtain a b s row where 0: "demo_attempt 5 = a @ (DbFlush s row, RUnit) # b" using flush by blast
  obtain a' b' s' row' where 1: "demo_attempt 6 = a' @ (DbFlush s' row', RUnit) # b'" using flush by blast
  let ?L = "map (Pair 0) a @ (0, DbFlush s row, RUnit) # (map (Pair 0) b @ map (Pair 2) a')
    @ (2, DbFlush s' row', RUnit) # map (Pair 2) b'"
  have L: "demo_log = ?L" unfolding demo_log_def 0 1 by simp
  have "\<exists>tok ttl z. (0, RedisEval RELEASE_LUA (Keys_event_guard (lit ''e1'')) tok ttl, z)
      \<in> set (map (Pair 0) b @ map (Pair 2) a' :: log)"
    using demo_log_runs writes_separated_by_release [of demo_ctx demo_guard "lit ''e1''" "\<lambda>_. demo_event_record"
        "map (Pair 0) a" 0 s row RUnit "map (Pair 0) b @ map (Pair 2) a'" 2 s' row' RUnit "map (Pair 2) b'"]
    unfolding L by simp
  with L show ?thesis by blast
qed

text \<open>
  C2. The tombstone is final as long as it lasts: in every interleaving in which the guard key does not expire and
  nobody else writes it, once Redis confirmed that a run completed the guard of an event, no run for any
  delivery of that event writes a row any more.
\<close>

theorem no_write_after_tombstone:
  assumes "unexpired_runs C g ev rec (L1 @ (i, RedisEval COMPLETE_LUA (Keys_event_guard ev) tok ttl, RInt 1) # L2)"
  shows "(j, DbFlush s row, y) \<notin> set L2"
proof
  assume "(j, DbFlush s row, y) \<in> set L2"
  then obtain L3 L4 where L2: "L2 = L3 @ (j, DbFlush s row, y) # L4" by (metis split_list)
  let ?K = "Keys_event_guard ev" and ?e = "(i, RedisEval COMPLETE_LUA (Keys_event_guard ev) tok ttl, RInt 1)"
  let ?A = "(L1 @ [?e]) @ L3"
  obtain m m' where runs: "handlers C g ev rec (?A @ (j, DbFlush s row, y) # L4)" and ids: "fresh_ids ?A"
    and free: "m ?K = None" and "serves ?K m (?A @ (j, DbFlush s row, y) # L4) m'"
    using assms unfolding L2 by (auto simp: unexpired_runs_def fresh_ids_def)
  then obtain m2 where all: "serves ?K m ?A m2" unfolding serves_append [of _ _ ?A] by blast
  then obtain m1 where "serves ?K m (L1 @ [?e]) m1" and rest: "serves ?K m1 L3 m2"
    unfolding serves_append [of _ _ "L1 @ [?e]"] by blast
  then obtain n n' where "reply n (RedisEval COMPLETE_LUA ?K tok ttl) (RInt 1) n'" "key_value ?K n' = key_value ?K m1"
    unfolding serves_snoc by blast
  then have dead: "key_value ?K m1 = Some DONE"
    using reply_eval [of n COMPLETE_LUA ?K tok ttl "RInt 1" n'] by (cases "key_value ?K n = Some tok") auto
  have "(k, RedisEval RELEASE_LUA ?K DONE ttl, z) \<notin> set L3" for k ttl z
    using tombstone_not_carried [OF handlers_prefix [OF runs], of k "RedisEval RELEASE_LUA ?K DONE ttl" z] by auto
  then have "key_value ?K m2 = Some DONE"
    using stays [OF handlers_prefix [OF runs] rest, of DONE] dead by simp
  moreover obtain tok' ttl' where "(j, RedisSet ?K tok' True (Some ttl'), RBool True) \<in> set ?A" "key_value ?K m2 = Some tok'"
    using writer_holds [OF runs ids all free] by blast
  ultimately show False
    using tombstone_not_carried [OF handlers_prefix [OF runs], of j "RedisSet ?K tok' True (Some ttl')"] by auto
qed

theorem no_write_after_tombstone_witness:
  "\<exists>L1 tok ttl L2. (map (Pair 0) (trail scripted demo_handle demo_missing_answers) :: log)
       = L1 @ (0, RedisEval COMPLETE_LUA (Keys_event_guard (lit ''e1'')) tok ttl, RInt 1) # L2
     \<and> (0, DbFlush 0 (SaveOrder demo_order), RUnit) \<notin> set L2"
proof -
  let ?t = "trail scripted demo_handle demo_missing_answers"
  obtain tok ttl where "?t ! 5 = (RedisEval COMPLETE_LUA (Keys_event_guard (lit ''e1'')) tok ttl, RInt 1)"
    using demo_missing_run(2) by blast
  then have t: "?t = take 5 ?t @ (RedisEval COMPLETE_LUA (Keys_event_guard (lit ''e1'')) tok ttl, RInt 1) # drop 6 ?t"
    using id_take_nth_drop [of 5 ?t] demo_missing_run(1) by simp
  have L: "map (Pair 0) ?t = map (Pair 0) (take 5 ?t)
      @ (0, RedisEval COMPLETE_LUA (Keys_event_guard (lit ''e1'')) tok ttl, RInt 1) # map (Pair 0) (drop 6 ?t)"
    by (subst t) simp
  obtain m' where "replay Map.empty ?t = Some m'" using demo_missing_replay by blast
  then have "serves (Keys_event_guard (lit ''e1'')) Map.empty (map (Pair 0) ?t) m'" by (rule replay_serves)
  moreover have "handlers demo_ctx demo_guard (lit ''e1'') (\<lambda>_. demo_event_record) (map (Pair 0) ?t)"
    by (rule demo_handlers) auto
  moreover have "fresh_ids (map (Pair 0) ?t)" by (auto simp: fresh_ids_def)
  ultimately have "unexpired_runs demo_ctx demo_guard (lit ''e1'') (\<lambda>_. demo_event_record) (map (Pair 0) ?t)"
    by (intro unexpired_runsI [where m = Map.empty and m' = m']) simp_all
  from no_write_after_tombstone [OF this [unfolded L]] L show ?thesis by blast
qed

end
