(* ===== verification/JsonText.thy ===== *)
theory JsonText
  imports Effects "HOL-Library.Sublist"
begin

text \<open>
  The text form of JSON as the producer and the consumers use it: \<open>json.dumps(v, separators=(",", ":"))\<close>
  (\<open>_serializer\<close> in \<open>app/kafka/producer.py\<close>) and \<open>json.loads\<close> (the value deserializer of
  \<open>BaseConsumer._build\<close> in \<open>app/kafka/consumers.py\<close>).  The text of a float is that of \<open>libs\<close>.

  The parser is a recursive descent with fuel; every call consumes a character before it recurs, so the
  length of the input bounds the recursion (\<open>fuel_enough\<close>).  The main lemma is the round trip.
\<close>

section \<open>Printing\<close>

text \<open>\<open>ensure_ascii\<close>: everything outside the printable ASCII characters is escaped, in UTF-16 units.\<close>

definition u_escape :: "nat \<Rightarrow> str" where
  "u_escape n = [92, 117] @ hex_fixed 4 n"

definition json_char :: "nat \<Rightarrow> str" where
  "json_char c =
     (if c = 34 then [92, 34]
      else if c = 92 then [92, 92]
      else if c = 10 then [92, 110]
      else if c = 13 then [92, 114]
      else if c = 9 then [92, 116]
      else if c = 12 then [92, 102]
      else if c = 8 then [92, 98]
      else if 32 \<le> c \<and> c \<le> 126 then [c]
      else if c < 0x10000 then u_escape c
      else u_escape (0xD800 + (c - 0x10000) div 0x400) @ u_escape (0xDC00 + (c - 0x10000) mod 0x400))"

definition json_string :: "str \<Rightarrow> str" where
  "json_string s = [34] @ concat (map json_char s) @ [34]"

fun commas :: "str list \<Rightarrow> str" where
  "commas [] = []"
| "commas [x] = x"
| "commas (x # xs) = x @ [44] @ commas xs"

primrec json_text :: "libs \<Rightarrow> json \<Rightarrow> str" where
  "json_text L JNull = lit ''null''"
| "json_text L (JBool b) = (if b then lit ''true'' else lit ''false'')"
| "json_text L (JInt n) = str_int n"
| "json_text L (JFloat x) =
     (case x of
        Finite r \<Rightarrow> repr_float L r
      | Infinity \<Rightarrow> lit ''Infinity''
      | NegInfinity \<Rightarrow> lit ''-Infinity''
      | NaN \<Rightarrow> lit ''NaN'')"
| "json_text L (JStr s) = json_string s"
| "json_text L (JList vs) = [91] @ commas (map (json_text L) vs) @ [93]"
| "json_text L (JObj kvs) =
     [123] @ commas (map (\<lambda>(k, t). json_string k @ [58] @ t) (map (map_prod (\<lambda>k. k) (json_text L)) kvs)) @ [125]"

text \<open>An integer of more than 4300 digits has no text: \<open>ValueError\<close>.\<close>

primrec ints_ok :: "json \<Rightarrow> bool" where
  "ints_ok JNull = True"
| "ints_ok (JBool b) = True"
| "ints_ok (JInt n) = digits_ok n"
| "ints_ok (JFloat x) = True"
| "ints_ok (JStr s) = True"
| "ints_ok (JList vs) = list_all (\<lambda>b. b) (map ints_ok vs)"
| "ints_ok (JObj kvs) = list_all (\<lambda>b. b) (map snd (map (map_prod (\<lambda>k. k) ints_ok) kvs))"

definition dumps :: "libs \<Rightarrow> json \<Rightarrow> str option" where
  "dumps L v = (if ints_ok v then Some (json_text L v) else None)"

section \<open>Parsing\<close>

definition is_ws :: "nat \<Rightarrow> bool" where
  "is_ws c \<longleftrightarrow> c = 32 \<or> c = 9 \<or> c = 10 \<or> c = 13"

definition skip_ws :: "str \<Rightarrow> str" where
  "skip_ws s = dropWhile is_ws s"

definition ascii_hex :: "nat \<Rightarrow> nat option" where
  "ascii_hex c =
     (if 48 \<le> c \<and> c < 58 then Some (c - 48)
      else if 97 \<le> c \<and> c < 103 then Some (c - 87)
      else if 65 \<le> c \<and> c < 71 then Some (c - 55)
      else None)"

fun hex4 :: "str \<Rightarrow> (nat \<times> str) option" where
  "hex4 (a # b # c # d # s) =
     (case (ascii_hex a, ascii_hex b, ascii_hex c, ascii_hex d) of
        (Some a, Some b, Some c, Some d) \<Rightarrow> Some (((a * 16 + b) * 16 + c) * 16 + d, s)
      | _ \<Rightarrow> None)"
| "hex4 s = None"

text \<open>The code point of an escape \<open>\u\<close>: a pair of surrogates is one code point.\<close>

definition u_code :: "str \<Rightarrow> (nat \<times> str) option" where
  "u_code s =
     (case hex4 s of
        None \<Rightarrow> None
      | Some (u, s1) \<Rightarrow>
          if 0xD800 \<le> u \<and> u < 0xDC00 \<and> take 2 s1 = [92, 117] then
            (case hex4 (drop 2 s1) of
               Some (u2, s2) \<Rightarrow>
                 if 0xDC00 \<le> u2 \<and> u2 < 0xE000
                 then Some (0x10000 + (u - 0xD800) * 0x400 + (u2 - 0xDC00), s2)
                 else Some (u, s1)
             | None \<Rightarrow> Some (u, s1))
          else Some (u, s1))"

definition simple_escape :: "nat \<Rightarrow> nat option" where
  "simple_escape e =
     (if e = 34 \<or> e = 92 \<or> e = 47 then Some e
      else if e = 98 then Some 8
      else if e = 102 then Some 12
      else if e = 110 then Some 10
      else if e = 114 then Some 13
      else if e = 116 then Some 9
      else None)"

lemma hex4_length: "hex4 s = Some (u, s') \<Longrightarrow> length s' < length s"
  by (cases s rule: hex4.cases) (auto split: option.splits)

lemma u_code_length: "u_code s = Some (u, s') \<Longrightarrow> length s' < length s"
  by (auto simp: u_code_def split: option.splits prod.splits if_splits dest!: hex4_length)

text \<open>The rest of a string after its opening quote.\<close>

function p_string :: "str \<Rightarrow> (str \<times> str) option" where
  "p_string [] = None"
| "p_string (c # s) =
     (if c = 34 then Some ([], s)
      else if c = 92 then
        (case s of
           [] \<Rightarrow> None
         | e # s' \<Rightarrow>
             if e = 117 then
               (case u_code s' of
                  None \<Rightarrow> None
                | Some (u, s'') \<Rightarrow> map_option (map_prod (Cons u) id) (p_string s''))
             else
               (case simple_escape e of
                  None \<Rightarrow> None
                | Some d \<Rightarrow> map_option (map_prod (Cons d) id) (p_string s')))
      else if c < 32 then None
      else map_option (map_prod (Cons c) id) (p_string s))"
  by pat_completeness auto
termination
  by (relation "measure length") (auto dest: u_code_length)

text \<open>Numbers: an integer part, an optional fraction and an optional exponent.\<close>

definition is_digit :: "nat \<Rightarrow> bool" where
  "is_digit c \<longleftrightarrow> 48 \<le> c \<and> c < 58"

definition int_part :: "str \<Rightarrow> str" where
  "int_part s =
     (case s of
        [] \<Rightarrow> []
      | c # cs \<Rightarrow> if c = 48 then [48] else takeWhile is_digit s)"

definition frac_part :: "str \<Rightarrow> str" where
  "frac_part s =
     (case s of
        [] \<Rightarrow> []
      | c # cs \<Rightarrow>
          if c = 46 \<and> takeWhile is_digit cs \<noteq> [] then 46 # takeWhile is_digit cs else [])"

definition exp_part :: "str \<Rightarrow> str" where
  "exp_part s =
     (case s of
        [] \<Rightarrow> []
      | c # cs \<Rightarrow>
          if c = 101 \<or> c = 69 then
            (let sign = (case cs of [] \<Rightarrow> [] | d # ds \<Rightarrow> if d = 43 \<or> d = 45 then [d] else []);
                 ds = takeWhile is_digit (drop (length sign) cs) in
             if ds = [] then [] else c # sign @ ds)
          else [])"

definition sign_part :: "str \<Rightarrow> str" where
  "sign_part s = (case s of [] \<Rightarrow> [] | c # cs \<Rightarrow> if c = 45 then [45] else [])"

text \<open>Sign, integer part, fraction, exponent, and what follows.\<close>

definition number_split :: "str \<Rightarrow> str \<times> str \<times> str \<times> str \<times> str" where
  "number_split s =
     (let sg = sign_part s;
          s1 = drop (length sg) s;
          ip = int_part s1;
          s2 = drop (length ip) s1;
          fp = frac_part s2;
          s3 = drop (length fp) s2;
          ep = exp_part s3 in
      (sg, ip, fp, ep, drop (length ep) s3))"

definition p_number :: "libs \<Rightarrow> str \<Rightarrow> (json \<times> str) option" where
  "p_number L s =
     (case number_split s of (sg, ip, fp, ep, rest) \<Rightarrow>
        if ip = [] then None
        else if fp = [] \<and> ep = [] then map_option (\<lambda>n. (JInt n, rest)) (py_int (sg @ ip))
        else map_option (\<lambda>x. (JFloat x, rest)) (parse_float L (sg @ ip @ fp @ ep)))"

text \<open>A dict that is filled key by key: a repeated key keeps its place and takes the later value.\<close>

fun set_item :: "(str \<times> json) list \<Rightarrow> str \<Rightarrow> json \<Rightarrow> (str \<times> json) list" where
  "set_item [] k v = [(k, v)]"
| "set_item ((k', v') # d) k v = (if k' = k then (k, v) # d else (k', v') # set_item d k v)"

definition dict_of :: "(str \<times> json) list \<Rightarrow> (str \<times> json) list" where
  "dict_of kvs = foldl (\<lambda>d (k, v). set_item d k v) [] kvs"

definition after :: "str \<Rightarrow> str \<Rightarrow> str option" where
  "after w s = (if take (length w) s = w then Some (drop (length w) s) else None)"

text \<open>Words that stand for a value.\<close>

definition p_word :: "str \<Rightarrow> (json \<times> str) option" where
  "p_word s =
     (case after (lit ''null'') s of Some t \<Rightarrow> Some (JNull, t) | None \<Rightarrow>
      (case after (lit ''true'') s of Some t \<Rightarrow> Some (JBool True, t) | None \<Rightarrow>
       (case after (lit ''false'') s of Some t \<Rightarrow> Some (JBool False, t) | None \<Rightarrow>
        (case after (lit ''NaN'') s of Some t \<Rightarrow> Some (JFloat NaN, t) | None \<Rightarrow>
         (case after (lit ''Infinity'') s of Some t \<Rightarrow> Some (JFloat Infinity, t) | None \<Rightarrow>
          (case after (lit ''-Infinity'') s of Some t \<Rightarrow> Some (JFloat NegInfinity, t) | None \<Rightarrow> None))))))"

text \<open>
  Values.  \<open>p_elems\<close> reads the elements of a list from the first one to the closing bracket, \<open>p_members\<close>
  the members of an object.
\<close>

fun p_value :: "libs \<Rightarrow> nat \<Rightarrow> str \<Rightarrow> (json \<times> str) option"
  and p_elems :: "libs \<Rightarrow> nat \<Rightarrow> str \<Rightarrow> (json list \<times> str) option"
  and p_members :: "libs \<Rightarrow> nat \<Rightarrow> str \<Rightarrow> ((str \<times> json) list \<times> str) option" where
  "p_value L 0 s = None"
| "p_value L (Suc n) s =
     (case s of
        [] \<Rightarrow> None
      | c # cs \<Rightarrow>
          if c = 34 then map_option (map_prod JStr id) (p_string cs)
          else if c = 91 then
            (let s1 = skip_ws cs in
             case after [93] s1 of
               Some s2 \<Rightarrow> Some (JList [], s2)
             | None \<Rightarrow> map_option (map_prod JList id) (p_elems L n s1))
          else if c = 123 then
            (let s1 = skip_ws cs in
             case after [125] s1 of
               Some s2 \<Rightarrow> Some (JObj [], s2)
             | None \<Rightarrow> map_option (map_prod (\<lambda>kvs. JObj (dict_of kvs)) id) (p_members L n s1))
          else (case p_word s of Some r \<Rightarrow> Some r | None \<Rightarrow> p_number L s))"
| "p_elems L 0 s = None"
| "p_elems L (Suc n) s =
     (case p_value L n s of
        None \<Rightarrow> None
      | Some (v, s1) \<Rightarrow>
          (case skip_ws s1 of
             [] \<Rightarrow> None
           | c # s2 \<Rightarrow>
               if c = 93 then Some ([v], s2)
               else if c = 44 then map_option (map_prod (Cons v) id) (p_elems L n (skip_ws s2))
               else None))"
| "p_members L 0 s = None"
| "p_members L (Suc n) s =
     (case s of
        [] \<Rightarrow> None
      | c # cs \<Rightarrow>
          if c \<noteq> 34 then None
          else (case p_string cs of
                  None \<Rightarrow> None
                | Some (k, s1) \<Rightarrow>
                    (case after [58] (skip_ws s1) of
                       None \<Rightarrow> None
                     | Some s2 \<Rightarrow>
                         (case p_value L n (skip_ws s2) of
                            None \<Rightarrow> None
                          | Some (v, s3) \<Rightarrow>
                              (case skip_ws s3 of
                                 [] \<Rightarrow> None
                               | c # s4 \<Rightarrow>
                                   if c = 125 then Some ([(k, v)], s4)
                                   else if c = 44
                                   then map_option (map_prod (Cons (k, v)) id) (p_members L n (skip_ws s4))
                                   else None)))))"

text \<open>\<open>json.loads(s)\<close>; \<open>None\<close> stands for \<open>ValueError\<close>.  A byte order mark is refused, as is text after the value.\<close>

definition loads :: "libs \<Rightarrow> str \<Rightarrow> json option" where
  "loads L s =
     (if take 1 s = [0xFEFF] then None
      else case p_value L (Suc (2 * length s)) (skip_ws s) of
          Some (v, rest) \<Rightarrow> if skip_ws rest = [] then Some v else None
        | None \<Rightarrow> None)"

section \<open>The fuel is enough\<close>

lemma skip_ws_length: "length (skip_ws s) \<le> length s"
  by (simp add: skip_ws_def length_dropWhile_le)

lemma p_string_length: "p_string s = Some (k, s') \<Longrightarrow> length s' < length s"
proof (induction s arbitrary: k rule: p_string.induct)
  case (2 c s)
  then show ?case
    by (fastforce split: if_splits list.splits option.splits dest: u_code_length)
qed simp

lemma after_length: "after w s = Some s' \<Longrightarrow> w \<noteq> [] \<Longrightarrow> length s' < length s"
  by (cases s) (auto simp: after_def split: if_splits)

lemma p_word_length: "p_word s = Some (v, s') \<Longrightarrow> length s' < length s"
  by (auto simp: p_word_def split: option.splits dest: after_length)

lemma prefix_parts:
  "prefix (sign_part s) s" "prefix (int_part s) s" "prefix (frac_part s) s" "prefix (exp_part s) s"
proof -
  show "prefix (sign_part s) s" by (auto simp: sign_part_def split: list.split)
  show "prefix (int_part s) s" by (auto simp: int_part_def takeWhile_is_prefix split: list.split)
  show "prefix (frac_part s) s" by (auto simp: frac_part_def takeWhile_is_prefix split: list.split)
  show "prefix (exp_part s) s"
    by (auto simp: exp_part_def Let_def takeWhile_is_prefix split: list.split)
qed

lemma number_split_text:
  assumes "number_split s = (sg, ip, fp, ep, rest)"
  shows "s = sg @ ip @ fp @ ep @ rest"
proof -
  have "drop (length (f u)) u = z \<Longrightarrow> prefix (f u) u \<Longrightarrow> u = f u @ z" for f :: "str \<Rightarrow> str" and u z
    by (metis append_eq_conv_conj prefixE)
  then show ?thesis using assms prefix_parts unfolding number_split_def Let_def by (metis prod.inject)
qed

lemma p_number_length: "p_number L s = Some (v, s') \<Longrightarrow> length s' < length s"
  by (auto simp: p_number_def split: prod.splits if_splits dest!: number_split_text)

lemma consumes:
  "p_value L n s = Some (v, s') \<Longrightarrow> length s' < length s"
  "p_elems L n s = Some (vs, s') \<Longrightarrow> length s' < length s"
  "p_members L n s = Some (kvs, s') \<Longrightarrow> length s' < length s"
proof (induction L n s and L n s and L n s arbitrary: v s' and vs s' and kvs s'
    rule: p_value_p_elems_p_members.induct)
  case (2 L n s)
  show ?case
  proof (cases s)
    case (Cons c cs)
    have ws: "length (skip_ws cs) < length s" using skip_ws_length [of cs] Cons by simp
    from 2 Cons ws show ?thesis
      by (auto simp: Let_def split: if_splits option.splits
          dest: p_string_length after_length p_word_length p_number_length) fastforce+
  qed (use 2 in simp)
next
  case (4 L n s)
  from 4(3) obtain v s1 where v: "p_value L n s = Some (v, s1)" by (auto split: option.splits)
  with 4(1) have s1: "length s1 < length s" by blast
  from 4(3) v obtain c s2 where c: "skip_ws s1 = c # s2" by (auto split: list.splits)
  then have s2: "length s2 < length s1" using skip_ws_length [of s1] by simp
  show ?case
  proof (cases "c = 93")
    case True
    then show ?thesis using 4(3) v c s1 s2 by simp
  next
    case False
    then obtain ws where "p_elems L n (skip_ws s2) = Some (ws, s')" and "c = 44"
      using 4(3) v c by (auto split: if_splits)
    then have "length s' < length (skip_ws s2)" using 4(2) v c by auto
    then show ?thesis using skip_ws_length [of s2] s1 s2 by linarith
  qed
next
  case (6 L n s)
  from 6(3) obtain cs k s1 where s: "s = 34 # cs" and k: "p_string cs = Some (k, s1)"
    by (auto split: list.splits if_splits option.splits)
  from 6(3) s k obtain s2 where s2: "after [58] (skip_ws s1) = Some s2" by (auto split: option.splits)
  from 6(3) s k s2 obtain v s3 where v: "p_value L n (skip_ws s2) = Some (v, s3)" by (auto split: option.splits)
  from 6(3) s k s2 v obtain c s4 where c: "skip_ws s3 = c # s4" by (auto split: list.splits)
  have "length s3 < length (skip_ws s2)" using 6(1) s k s2 v by auto
  then have less: "length (skip_ws s3) < length s"
    using p_string_length [OF k] after_length [OF s2] skip_ws_length [of s1] skip_ws_length [of s2]
      skip_ws_length [of s3] s by simp
  show ?case
  proof (cases "c = 125")
    case True
    then show ?thesis using 6(3) s k s2 v c less by simp
  next
    case False
    then obtain ws where m: "p_members L n (skip_ws s4) = Some (ws, s')" and "c = 44"
      using 6(3) s k s2 v c by (auto split: if_splits)
    then have "length s' < length (skip_ws s4)" using 6(2) s k s2 v c by auto
    then show ?thesis using skip_ws_length [of s4] less c by simp
  qed
qed simp_all

declare p_value.simps [simp del] p_elems.simps [simp del] p_members.simps [simp del]

lemma fuel_step:
  "(2 * length s < n \<longrightarrow> p_value L (Suc n) s = p_value L n s)
   \<and> (2 * length s + 1 < n \<longrightarrow> p_elems L (Suc n) s = p_elems L n s \<and> p_members L (Suc n) s = p_members L n s)"
proof (induction n arbitrary: s)
  case (Suc n)
  have elems: "p_elems L (Suc n) (skip_ws cs) = p_elems L n (skip_ws cs)"
    and members: "p_members L (Suc n) (skip_ws cs) = p_members L n (skip_ws cs)"
    if "2 * length cs + 1 < n" for cs
    using that Suc.IH [of "skip_ws cs"] skip_ws_length [of cs] by auto
  have val: "p_value L (Suc n) (skip_ws cs) = p_value L n (skip_ws cs)" if "2 * length cs < n" for cs
    using that Suc.IH [of "skip_ws cs"] skip_ws_length [of cs] by auto
  have "p_value L (Suc (Suc n)) s = p_value L (Suc n) s" if "2 * length s < Suc n"
  proof (cases s)
    case (Cons c cs)
    then show ?thesis
      unfolding p_value.simps(2) [of L "Suc n" s] p_value.simps(2) [of L n s]
      using that elems [of cs] members [of cs] by (simp add: Let_def split: option.split)
  qed (simp add: p_value.simps)
  moreover have "p_elems L (Suc (Suc n)) s = p_elems L (Suc n) s" if less: "2 * length s + 1 < Suc n"
  proof -
    have v: "p_value L (Suc n) s = p_value L n s" using less Suc.IH [of s] by simp
    have "p_elems L (Suc n) (skip_ws s2) = p_elems L n (skip_ws s2)"
      if "p_value L n s = Some (v, s1)" "skip_ws s1 = c # s2" for v s1 c s2
      using less consumes(1) [OF that(1)] skip_ws_length [of s1] that(2) by (intro elems) simp
    then show ?thesis
      unfolding p_elems.simps(2) [of L "Suc n" s] p_elems.simps(2) [of L n s] v
      by (auto split: option.split list.split)
  qed
  moreover have "p_members L (Suc (Suc n)) s = p_members L (Suc n) s" if less: "2 * length s + 1 < Suc n"
  proof (cases s)
    case (Cons c cs)
    have "length s2 < length s" if "p_string cs = Some (k, s1)" "after [58] (skip_ws s1) = Some s2" for k s1 s2
      using p_string_length [OF that(1)] after_length [OF that(2)] skip_ws_length [of s1] Cons by simp
    then have v: "p_value L (Suc n) (skip_ws s2) = p_value L n (skip_ws s2) \<and> length (skip_ws s2) < length s"
      if "p_string cs = Some (k, s1)" "after [58] (skip_ws s1) = Some s2" for k s1 s2
      using that less skip_ws_length [of s2] by (fastforce intro: val)
    have "p_members L (Suc n) (skip_ws s4) = p_members L n (skip_ws s4)"
      if "p_string cs = Some (k, s1)" "after [58] (skip_ws s1) = Some s2"
        "p_value L n (skip_ws s2) = Some (w, s3)" "skip_ws s3 = d # s4" for k s1 s2 w s3 d s4
      using less v [OF that(1,2)] consumes(1) [OF that(3)] skip_ws_length [of s3] that(4) by (intro members) simp
    then show ?thesis
      using v unfolding Cons p_members.simps(2) [of L "Suc n" "c # cs"] p_members.simps(2) [of L n "c # cs"]
      by (auto split: option.split list.split)
  qed (simp add: p_members.simps)
  ultimately show ?case by blast
qed simp

text \<open>More fuel than \<open>loads\<close> takes changes nothing.\<close>

lemma fuel_enough: "2 * length s < n \<Longrightarrow> p_value L (n + k) s = p_value L n s"
  by (induction k) (use fuel_step [of s] in auto)

section \<open>The round trip\<close>

lemma ascii_hex_char: "v < 16 \<Longrightarrow> ascii_hex (hex_char v) = Some v"
  by (auto simp: ascii_hex_def hex_char_def)

lemma hex4_fixed: "n < 0x10000 \<Longrightarrow> hex4 (hex_fixed 4 n @ t) = Some (n, t)"
proof -
  assume n: "n < 0x10000"
  have four: "(4 :: nat) = Suc (Suc (Suc (Suc 0)))" by simp
  have "hex_fixed 4 n = [hex_char (n div 16 div 16 div 16 mod 16), hex_char (n div 16 div 16 mod 16),
      hex_char (n div 16 mod 16), hex_char (n mod 16)]"
    unfolding four by simp
  moreover have "((n div 16 div 16 div 16 mod 16 * 16 + n div 16 div 16 mod 16) * 16 + n div 16 mod 16) * 16 + n mod 16 = n"
  proof -
    have "n div 16 div 16 div 16 < 16" using n by (simp add: div_mult2_eq [symmetric] less_mult_imp_div_less)
    then have "n div 16 div 16 div 16 mod 16 = n div 16 div 16 div 16" by (rule mod_less)
    then show ?thesis by (simp only: div_mult_mod_eq)
  qed
  ultimately show ?thesis by (simp add: ascii_hex_char)
qed

text \<open>The two halves of a surrogate pair.\<close>

definition hi_surr :: "nat \<Rightarrow> bool" where
  "hi_surr u \<longleftrightarrow> 0xD800 \<le> u \<and> u < 0xDC00"

definition lo_surr :: "nat \<Rightarrow> bool" where
  "lo_surr u \<longleftrightarrow> 0xDC00 \<le> u \<and> u < 0xE000"

text \<open>The strings that come back: code points, no two of which form a surrogate pair.\<close>

fun str_ok :: "str \<Rightarrow> bool" where
  "str_ok [] = True"
| "str_ok (c # s) = (c < 0x110000 \<and> (hi_surr c \<longrightarrow> (case s of [] \<Rightarrow> True | d # _ \<Rightarrow> \<not> lo_surr d)) \<and> str_ok s)"

text \<open>Does the text go on with an escape of a low surrogate?\<close>

definition lo_next :: "str \<Rightarrow> bool" where
  "lo_next s \<longleftrightarrow> take 2 s = [92, 117] \<and> (case hex4 (drop 2 s) of Some (u, _) \<Rightarrow> lo_surr u | None \<Rightarrow> False)"

lemma u_code_single:
  "n < 0x10000 \<Longrightarrow> (hi_surr n \<Longrightarrow> \<not> lo_next t) \<Longrightarrow> u_code (hex_fixed 4 n @ t) = Some (n, t)"
  by (auto simp: u_code_def hex4_fixed hi_surr_def lo_next_def lo_surr_def split: option.splits)

lemma u_code_pair:
  assumes "0x10000 \<le> c" and "c < 0x110000"
  shows "u_code (hex_fixed 4 (0xD800 + (c - 0x10000) div 0x400) @ u_escape (0xDC00 + (c - 0x10000) mod 0x400) @ t)
    = Some (c, t)"
proof -
  let ?h = "(c - 0x10000) div 0x400" and ?l = "(c - 0x10000) mod 0x400"
  have h: "?h < 0x400" using assms by (simp add: less_mult_imp_div_less)
  have "hex4 (hex_fixed 4 (0xDC00 + ?l) @ t) = Some (0xDC00 + ?l, t)"
    by (rule hex4_fixed) (simp add: less_trans [OF mod_less_divisor])
  moreover have "hex4 (hex_fixed 4 (0xD800 + ?h) @ u) = Some (0xD800 + ?h, u)" for u
    by (rule hex4_fixed) (use h in simp)
  ultimately show ?thesis using h assms by (simp add: u_code_def u_escape_def)
qed

lemma json_char_cases:
  assumes "c < 0x110000"
  obtains e where "json_char c = [92, e]" "e \<noteq> 117" "simple_escape e = Some c" "c < 128"
    | "json_char c = [c]" "c \<noteq> 34" "c \<noteq> 92" "32 \<le> c" "c < 127"
    | "json_char c = 92 # 117 # hex_fixed 4 c" "c < 0x10000"
    | "json_char c = 92 # 117 # hex_fixed 4 (0xD800 + (c - 0x10000) div 0x400)
        @ u_escape (0xDC00 + (c - 0x10000) mod 0x400)" "0x10000 \<le> c"
proof -
  consider "c \<in> {34, 92, 10, 13, 9, 12, 8}" | "c \<notin> {34, 92}" "32 \<le> c" "c \<le> 126"
    | "c \<notin> {34, 92, 10, 13, 9, 12, 8}" "c < 32 \<or> 126 < c" "c < 0x10000" | "0x10000 \<le> c"
    by fastforce
  then show thesis
  proof cases
    case 1
    then show thesis using that(1) by (auto simp: json_char_def simple_escape_def)
  next
    case 2
    then show thesis using that(2) by (auto simp: json_char_def)
  next
    case 3
    then show thesis using that(3) by (auto simp: json_char_def u_escape_def)
  next
    case 4
    then show thesis using that(4) by (auto simp: json_char_def u_escape_def)
  qed
qed

lemma p_string_char:
  assumes "c < 0x110000" and "hi_surr c \<Longrightarrow> \<not> lo_next t"
  shows "p_string (json_char c @ t) = map_option (map_prod (Cons c) id) (p_string t)"
  using assms(1)
proof (cases rule: json_char_cases)
  case 4
  then show ?thesis using assms(1) by (simp add: u_code_pair)
qed (use assms(2) in \<open>simp_all add: u_code_single\<close>)

lemma lo_next_char:
  assumes "c < 0x110000"
  shows "lo_next (json_char c @ t) \<longleftrightarrow> lo_surr c"
  using assms
proof (cases rule: json_char_cases)
  case 4
  have "(c - 0x10000) div 0x400 < 0x400" using assms by (simp add: less_mult_imp_div_less)
  then show ?thesis using 4 by (simp add: lo_next_def lo_surr_def hex4_fixed)
qed (auto simp: lo_next_def hex4_fixed lo_surr_def)

lemma p_string_text: "str_ok s \<Longrightarrow> p_string (concat (map json_char s) @ 34 # t) = Some (s, t)"
proof (induction s)
  case (Cons c s)
  have "\<not> lo_next (concat (map json_char s) @ 34 # t)" if "hi_surr c"
    using that Cons.prems by (cases s) (auto simp: lo_next_char, simp add: lo_next_def)
  then show ?case using Cons by (simp add: p_string_char)
qed simp

text \<open>What may follow a value inside a list or an object, or at the end.\<close>

definition delimited :: "str \<Rightarrow> bool" where
  "delimited t \<longleftrightarrow> (case t of [] \<Rightarrow> True | c # cs \<Rightarrow> c = 44 \<or> c = 93 \<or> c = 125)"

lemma nat_str_zero: "nat_str n = 48 # cs \<Longrightarrow> n = 0 \<and> cs = []"
proof (induction n arbitrary: cs rule: nat_str.induct)
  case (1 n)
  show ?case
  proof (cases "n < 10")
    case True
    then show ?thesis using 1(2) by (simp add: nat_str.simps [of n])
  next
    case False
    then obtain c ds where c: "nat_str (n div 10) = c # ds" by (cases "nat_str (n div 10)") auto
    then have "c = 48" using 1(2) False by (simp add: nat_str.simps [of n])
    then have "n div 10 = 0" using 1(1) False c by simp
    then show ?thesis using False by simp
  qed
qed

lemma int_part_nat_str: "delimited t \<Longrightarrow> int_part (nat_str n @ t) = nat_str n"
proof -
  assume t: "delimited t"
  have "takeWhile is_digit (nat_str n @ t) = nat_str n"
    using t nat_str_digits [of _ n]
    by (subst takeWhile_append2) (auto simp: is_digit_def delimited_def split: list.splits)
  moreover obtain c cs where c: "nat_str n = c # cs" by (rule nat_str_Cons)
  ultimately show ?thesis using nat_str_zero [of n cs] by (cases "c = 48") (auto simp: int_part_def)
qed

lemma p_number_int:
  assumes "digits_ok n" and "delimited t"
  shows "p_number L (str_int n @ t) = Some (JInt n, t)"
proof -
  let ?a = "nat_str (nat \<bar>n\<bar>)"
  let ?sign = "if n < 0 then [45] else [] :: str"
  have shape: "str_int n = ?sign @ ?a" by (auto simp: str_int_def)
  obtain c cs where c: "?a = c # cs" "48 \<le> c" by (rule nat_str_Cons)
  have sign: "sign_part (str_int n @ t) = ?sign"
    using c by (simp add: shape sign_part_def)
  have ends: "frac_part t = []" "exp_part t = []"
    using assms(2) by (auto simp: frac_part_def exp_part_def delimited_def split: list.splits)
  have "drop (length ?sign) (str_int n @ t) = ?a @ t" by (simp add: shape)
  then show ?thesis
    unfolding p_number_def number_split_def Let_def sign
    using int_part_nat_str [OF assms(2), of "nat \<bar>n\<bar>"] ends py_int_str_int [OF assms(1)] by (simp add: shape)
qed

lemma str_int_shape: obtains c cs where "str_int n = (if n < 0 then [45] else []) @ c # cs" "48 \<le> c" "c < 58"
proof -
  obtain c cs where "nat_str (nat \<bar>n\<bar>) = c # cs" "48 \<le> c" "c < 58"
    using nat_str_digits [of _ "nat \<bar>n\<bar>"] by (cases "nat_str (nat \<bar>n\<bar>)") auto
  then show thesis using that [of c cs] by (cases "n < 0") (simp_all add: str_int_def)
qed

lemma p_word_number: "48 \<le> c \<Longrightarrow> c < 58 \<Longrightarrow> p_word (c # t) = None \<and> p_word (45 # c # t) = None"
  by (auto simp: p_word_def after_def)

text \<open>The text of a float: a number with a fraction or an exponent.\<close>

definition float_literal :: "str \<Rightarrow> bool" where
  "float_literal s \<longleftrightarrow>
     (case number_split s of (sg, ip, fp, ep, rest) \<Rightarrow> ip \<noteq> [] \<and> (fp \<noteq> [] \<or> ep \<noteq> []) \<and> rest = [])"

lemma parts_delimited:
  assumes "delimited t"
  shows "takeWhile is_digit (s @ t) = takeWhile is_digit s"
    and "sign_part (s @ t) = sign_part s" and "int_part (s @ t) = int_part s"
    and "frac_part (s @ t) = frac_part s" and "exp_part (s @ t) = exp_part s"
proof -
  have t: "takeWhile is_digit t = []" using assms by (cases t) (auto simp: delimited_def is_digit_def)
  have digits: "takeWhile is_digit (u @ t) = takeWhile is_digit u" for u
    by (cases "\<forall>c \<in> set u. is_digit c") (auto simp: takeWhile_append t takeWhile_eq_all_conv [THEN iffD2])
  show "takeWhile is_digit (s @ t) = takeWhile is_digit s" by (rule digits)
  show "sign_part (s @ t) = sign_part s"
    using assms by (cases s; cases t) (auto simp: sign_part_def delimited_def)
  show "int_part (s @ t) = int_part s"
    using assms t digits [of s] by (cases s; cases t) (auto simp: int_part_def delimited_def)
  show "frac_part (s @ t) = frac_part s"
    using assms digits [of "tl s"] by (cases s; cases t) (auto simp: frac_part_def delimited_def)
  show "exp_part (s @ t) = exp_part s"
  proof (cases s)
    case Nil
    then show ?thesis using assms by (cases t) (auto simp: exp_part_def delimited_def)
  next
    case (Cons c cs)
    then show ?thesis
      using assms digits [of cs] digits [of "tl cs"] t by (cases cs; cases t) (auto simp: exp_part_def delimited_def Let_def)
  qed
qed

lemma number_split_delimited:
  assumes "delimited t" and "number_split s = (sg, ip, fp, ep, [])"
  shows "number_split (s @ t) = (sg, ip, fp, ep, t)"
proof -
  have drop: "drop (length (sign_part u)) (u @ t) = drop (length (sign_part u)) u @ t"
    "drop (length (int_part u)) (u @ t) = drop (length (int_part u)) u @ t"
    "drop (length (frac_part u)) (u @ t) = drop (length (frac_part u)) u @ t"
    "drop (length (exp_part u)) (u @ t) = drop (length (exp_part u)) u @ t" for u
    using prefix_parts [THEN prefix_length_le, of u] by simp_all
  have "number_split (s @ t) = (case number_split s of (sg, ip, fp, ep, rest) \<Rightarrow> (sg, ip, fp, ep, rest @ t))"
    unfolding number_split_def Let_def by (simp only: parts_delimited [OF assms(1)] drop prod.case)
  then show ?thesis using assms(2) by simp
qed

lemma p_number_float:
  assumes "float_literal s" and "parse_float L s = Some x" and "delimited t"
  shows "p_number L (s @ t) = Some (JFloat x, t)"
proof -
  obtain sg ip fp ep where split: "number_split s = (sg, ip, fp, ep, [])" and ip: "ip \<noteq> []" "fp \<noteq> [] \<or> ep \<noteq> []"
    using assms(1) by (auto simp: float_literal_def split: prod.splits)
  then have "s = sg @ ip @ fp @ ep" using number_split_text [OF split] by simp
  then show ?thesis using number_split_delimited [OF assms(3) split] ip assms(2) by (auto simp: p_number_def)
qed

lemma float_literal_shape:
  assumes "float_literal s"
  obtains c cs where "s = c # cs" "48 \<le> c" "c < 58" | c cs where "s = 45 # c # cs" "48 \<le> c" "c < 58"
proof -
  obtain sg ip fp ep where split: "number_split s = (sg, ip, fp, ep, [])" and ip: "ip \<noteq> []"
    using assms by (auto simp: float_literal_def split: prod.splits)
  then have "sg = sign_part s" "ip = int_part (drop (length sg) s)" by (auto simp: number_split_def Let_def)
  then have "sg = [] \<or> sg = [45]" "\<exists>c cs. ip = c # cs \<and> 48 \<le> c \<and> c < 58"
    using ip by (auto simp: sign_part_def int_part_def is_digit_def split: list.splits if_splits)
  then show thesis using that number_split_text [OF split] by auto
qed

text \<open>
  The values that come back: integers within the digit limit, floats whose text reads as the same
  float, strings in which no two code points form a surrogate pair, objects without repeated keys.
\<close>

definition float_ok :: "libs \<Rightarrow> rat \<Rightarrow> bool" where
  "float_ok L r \<longleftrightarrow> float_literal (repr_float L r) \<and> parse_float L (repr_float L r) = Some (Finite r)"

primrec plain :: "libs \<Rightarrow> json \<Rightarrow> bool" where
  "plain L JNull = True"
| "plain L (JBool b) = True"
| "plain L (JInt n) = digits_ok n"
| "plain L (JFloat x) = (case x of Finite r \<Rightarrow> float_ok L r | _ \<Rightarrow> True)"
| "plain L (JStr s) = str_ok s"
| "plain L (JList vs) = list_all (\<lambda>b. b) (map (plain L) vs)"
| "plain L (JObj kvs) = (distinct (map fst kvs) \<and> list_all (\<lambda>(k, b). str_ok k \<and> b) (map (map_prod (\<lambda>k. k) (plain L)) kvs))"

lemma plain_list: "plain L (JList vs) \<longleftrightarrow> (\<forall>v \<in> set vs. plain L v)"
  by (simp add: list_all_iff)

lemma plain_obj: "plain L (JObj kvs) \<longleftrightarrow> distinct (map fst kvs) \<and> (\<forall>(k, v) \<in> set kvs. str_ok k \<and> plain L v)"
  by (auto simp: list_all_iff)

lemma plain_ints_ok: "plain L v \<Longrightarrow> ints_ok v"
  by (induction v) (fastforce simp: list_all_iff)+

lemma set_item_new: "k \<notin> fst ` set d \<Longrightarrow> set_item d k v = d @ [(k, v)]"
  by (induction d) auto

lemma dict_of_distinct: "distinct (map fst kvs) \<Longrightarrow> dict_of kvs = kvs"
proof (induction kvs rule: rev_induct)
  case (snoc x kvs)
  then show ?case by (cases x) (simp add: dict_of_def set_item_new)
qed (simp add: dict_of_def)

text \<open>The first character of the text of a value.\<close>

lemma text_starts: "plain L v \<Longrightarrow> \<exists>c cs. json_text L v = c # cs \<and> \<not> is_ws c \<and> c \<noteq> 93 \<and> c \<noteq> 125"
proof (cases v)
  case (JInt n)
  obtain c cs where "str_int n = (if n < 0 then [45] else []) @ c # cs" "48 \<le> c" "c < 58" by (rule str_int_shape)
  then show ?thesis using JInt by (auto simp: is_ws_def)
next
  case (JFloat x)
  assume "plain L v"
  show ?thesis
  proof (cases x)
    case (Finite r)
    then have "float_literal (repr_float L r)" using JFloat \<open>plain L v\<close> by (simp add: float_ok_def)
    then show ?thesis using JFloat Finite by (cases rule: float_literal_shape) (auto simp: is_ws_def)
  qed (use JFloat in \<open>auto simp: is_ws_def\<close>)
qed (auto simp: is_ws_def json_string_def)

lemma skip_ws_id: "\<not> is_ws c \<Longrightarrow> skip_ws (c # s) = c # s"
  by (simp add: skip_ws_def)

lemma skip_ws_text: "plain L v \<Longrightarrow> skip_ws (json_text L v @ t) = json_text L v @ t"
  using text_starts [of L v] by (auto simp: skip_ws_id)

lemma skip_ws_delimited: "delimited t \<Longrightarrow> skip_ws t = t"
  by (cases t) (auto simp: delimited_def skip_ws_def is_ws_def)

lemma p_elems_text:
  assumes "vs \<noteq> []" and "\<forall>v \<in> set vs. plain L v"
    and val: "\<And>v n t. v \<in> set vs \<Longrightarrow> delimited t \<Longrightarrow> 2 * length (json_text L v) < n \<Longrightarrow>
      p_value L n (json_text L v @ t) = Some (v, t)"
    and "2 * length (commas (map (json_text L) vs)) + 1 < n"
  shows "p_elems L n (commas (map (json_text L) vs) @ 93 # t) = Some (vs, t)"
  using assms
proof (induction vs arbitrary: n)
  case (Cons v vs)
  obtain k where n: "n = Suc k" using Cons.prems(4) by (cases n) auto
  show ?case
  proof (cases vs)
    case Nil
    then have "p_value L k (json_text L v @ 93 # t) = Some (v, 93 # t)"
      using Cons.prems(4) n by (intro Cons.prems(3)) (auto simp: delimited_def)
    then show ?thesis using Nil by (simp add: n p_elems.simps skip_ws_id is_ws_def)
  next
    case (Cons w ws)
    let ?more = "commas (map (json_text L) vs) @ 93 # t"
    have split: "commas (map (json_text L) (v # vs)) = json_text L v @ 44 # commas (map (json_text L) vs)"
      using Cons by simp
    have "p_value L k (json_text L v @ 44 # ?more) = Some (v, 44 # ?more)"
      using Cons.prems(4) n split by (intro Cons.prems(3)) (auto simp: delimited_def)
    moreover have "p_elems L k ?more = Some (vs, t)"
      using Cons.prems Cons n split by (intro Cons.IH) auto
    moreover have "skip_ws ?more = ?more"
      using skip_ws_text [of L w] Cons.prems(2) Cons by (cases ws) auto
    ultimately show ?thesis unfolding split by (simp add: n p_elems.simps skip_ws_id is_ws_def)
  qed
qed simp

lemma p_members_text:
  assumes "kvs \<noteq> []" and "\<forall>(k, v) \<in> set kvs. str_ok k \<and> plain L v"
    and val: "\<And>k v n t. (k, v) \<in> set kvs \<Longrightarrow> delimited t \<Longrightarrow> 2 * length (json_text L v) < n \<Longrightarrow>
      p_value L n (json_text L v @ t) = Some (v, t)"
    and "2 * length (commas (map (\<lambda>(k, v). json_string k @ [58] @ json_text L v) kvs)) + 1 < n"
  shows "p_members L n (commas (map (\<lambda>(k, v). json_string k @ [58] @ json_text L v) kvs) @ 125 # t) = Some (kvs, t)"
  using assms
proof (induction kvs arbitrary: n)
  case (Cons x kvs)
  obtain k v where x: "x = (k, v)" by (cases x)
  obtain m where n: "n = Suc m" using Cons.prems(4) by (cases n) auto
  have key: "p_string (concat (map json_char k) @ 34 # u) = Some (k, u)" for u
    using Cons.prems(2) x by (intro p_string_text) auto
  have colon: "after [58] (58 # u) = Some u" for u by (simp add: after_def)
  have ws: "skip_ws (json_text L v @ u) = json_text L v @ u" for u
    using Cons.prems(2) x by (intro skip_ws_text) auto
  let ?text = "\<lambda>kvs. commas (map (\<lambda>(k, v). json_string k @ [58] @ json_text L v) kvs)"
  show ?case
  proof (cases kvs)
    case Nil
    then have "p_value L m (json_text L v @ 125 # t) = Some (v, 125 # t)"
      using Cons.prems(4) n x by (intro Cons.prems(3)) (auto simp: delimited_def)
    then show ?thesis
      using Nil x by (simp add: n p_members.simps json_string_def key colon ws skip_ws_id is_ws_def)
  next
    case (Cons y ys)
    let ?more = "?text kvs @ 125 # t"
    have split: "?text (x # kvs) = json_string k @ 58 # json_text L v @ 44 # ?text kvs"
      using Cons x by simp
    have "p_value L m (json_text L v @ 44 # ?more) = Some (v, 44 # ?more)"
      using Cons.prems(4) n split x by (intro Cons.prems(3)) (auto simp: delimited_def)
    moreover have "p_members L m ?more = Some (kvs, t)"
      using Cons.prems Cons n split by (intro Cons.IH) auto
    moreover have "skip_ws ?more = ?more"
      using Cons by (cases ys) (auto simp: json_string_def skip_ws_id is_ws_def split: prod.split)
    ultimately show ?thesis
      unfolding split by (simp add: n x p_members.simps json_string_def key colon ws skip_ws_id is_ws_def)
  qed
qed simp

lemma p_value_text:
  "plain L v \<Longrightarrow> delimited t \<Longrightarrow> 2 * length (json_text L v) < n \<Longrightarrow> p_value L n (json_text L v @ t) = Some (v, t)"
proof (induction v arbitrary: n t)
  case (JInt i)
  obtain c cs where "str_int i = (if i < 0 then [45] else []) @ c # cs" "48 \<le> c" "c < 58" by (rule str_int_shape)
  then obtain d ds where d: "str_int i @ t = d # ds" "d \<noteq> 34" "d \<noteq> 91" "d \<noteq> 123" and "p_word (str_int i @ t) = None"
    by (cases "i < 0") (auto simp: p_word_number)
  moreover obtain m where "n = Suc m" using JInt.prems(3) by (cases n) auto
  ultimately show ?case using p_number_int [of i t L] JInt.prems by (simp add: p_value.simps)
next
  case (JFloat x)
  obtain m where n: "n = Suc m" using JFloat.prems(3) by (cases n) auto
  show ?case
  proof (cases x)
    case (Finite r)
    let ?s = "repr_float L r"
    have ok: "float_literal ?s" "parse_float L ?s = Some x" using JFloat.prems(1) Finite by (simp_all add: float_ok_def)
    from ok(1) obtain d ds where "?s @ t = d # ds" "d \<noteq> 34" "d \<noteq> 91" "d \<noteq> 123" "p_word (?s @ t) = None"
      by (cases rule: float_literal_shape) (auto simp: p_word_number)
    then show ?thesis using n Finite p_number_float [OF ok JFloat.prems(2)] by (simp add: p_value.simps)
  qed (use n JFloat.prems in \<open>auto simp: p_value.simps p_word_def after_def\<close>)
next
  case (JStr s)
  obtain m where "n = Suc m" using JStr.prems(3) by (cases n) auto
  then show ?case using JStr.prems p_string_text [of s t] by (simp add: p_value.simps json_string_def)
next
  case (JList vs)
  obtain m where n: "n = Suc m" using JList.prems(3) by (cases n) auto
  show ?case
  proof (cases "vs = []")
    case True
    then show ?thesis by (simp add: n p_value.simps skip_ws_id is_ws_def after_def)
  next
    case False
    then obtain w ws where vs: "vs = w # ws" by (cases vs) auto
    let ?s = "commas (map (json_text L) vs) @ 93 # t"
    have plain: "\<forall>v \<in> set vs. plain L v" using JList.prems(1) by (simp only: plain_list)
    then obtain c cs where c: "json_text L w = c # cs" "\<not> is_ws c" "c \<noteq> 93" using text_starts [of L w] vs by auto
    then have "\<exists>cs. ?s = c # cs" using vs by (cases ws) auto
    then obtain cs' where s: "?s = c # cs'" by blast
    have "skip_ws ?s = ?s" "after [93] ?s = None" unfolding s using c by (simp_all add: skip_ws_id after_def)
    moreover have "p_elems L m ?s = Some (vs, t)"
      by (rule p_elems_text [OF False plain]) (use JList.IH plain JList.prems(3) n in auto)
    ultimately show ?thesis by (simp add: n p_value.simps Let_def)
  qed
next
  case (JObj kvs)
  obtain m where n: "n = Suc m" using JObj.prems(3) by (cases n) auto
  let ?f = "\<lambda>(k, v). json_string k @ [58] @ json_text L v"
  have text': "json_text L (JObj kvs) = [123] @ commas (map ?f kvs) @ [125]"
    by (simp add: case_prod_unfold comp_def)
  show ?case
  proof (cases "kvs = []")
    case True
    then show ?thesis by (simp add: n p_value.simps skip_ws_id is_ws_def after_def dict_of_def)
  next
    case False
    then obtain k w ws where kvs: "kvs = (k, w) # ws" by (cases kvs) auto
    let ?s = "commas (map ?f kvs) @ 125 # t"
    have plain: "distinct (map fst kvs)" "\<forall>(k, v) \<in> set kvs. str_ok k \<and> plain L v"
      using JObj.prems(1) unfolding plain_obj by blast+
    have "\<exists>cs. ?s = 34 # cs" using kvs by (cases ws) (auto simp: json_string_def)
    then obtain cs' where s: "?s = 34 # cs'" by blast
    have "skip_ws ?s = ?s" "after [125] ?s = None" unfolding s by (simp_all add: skip_ws_id is_ws_def after_def)
    moreover have "p_members L m ?s = Some (kvs, t)"
    proof (rule p_members_text [OF False plain(2)])
      fix k v n t
      assume "(k, v) \<in> set kvs" "delimited t" "2 * length (json_text L v) < n"
      then show "p_value L n (json_text L v @ t) = Some (v, t)" using JObj.IH [of "(k, v)" v t n] plain(2) by auto
    next
      show "2 * length (commas (map ?f kvs)) + 1 < m" using JObj.prems(3) unfolding text' n by simp
    qed
    ultimately show ?thesis unfolding text' by (simp add: n p_value.simps Let_def dict_of_distinct [OF plain(1)])
  qed
next
  case JNull
  then show ?case by (cases n) (simp_all add: p_value.simps p_word_def after_def)
next
  case (JBool b)
  then show ?case by (cases n) (auto simp: p_value.simps p_word_def after_def)
qed

text \<open>The text is ASCII.\<close>

lemma hex_fixed_ascii: "x \<in> set (hex_fixed n v) \<Longrightarrow> x < 128"
  by (drule set_hex_fixed) (auto simp: is_hex_char_def)

lemma json_char_ascii: "x \<in> set (json_char c) \<Longrightarrow> x < 128"
  by (auto simp: json_char_def u_escape_def split: if_splits dest: hex_fixed_ascii)

lemma json_string_ascii: "x \<in> set (json_string k) \<Longrightarrow> x < 128"
  by (auto simp: json_string_def dest: json_char_ascii)

lemma commas_set: "x \<in> set (commas ts) \<Longrightarrow> x = 44 \<or> (\<exists>t \<in> set ts. x \<in> set t)"
  by (induction ts rule: commas.induct) auto

lemma float_literal_ascii: "float_literal s \<Longrightarrow> x \<in> set s \<Longrightarrow> x < 128"
proof -
  assume "float_literal s" and x: "x \<in> set s"
  then obtain sg ip fp ep where split: "number_split s = (sg, ip, fp, ep, [])"
    by (auto simp: float_literal_def split: prod.splits)
  have digits: "c \<in> set (takeWhile is_digit u) \<Longrightarrow> c < 128" for c u
    by (drule set_takeWhileD) (simp add: is_digit_def)
  have "c \<in> set (exp_part u) \<Longrightarrow> c < 128" for c u
    by (cases u; cases "tl u") (auto simp: exp_part_def Let_def is_digit_def split: if_splits dest: digits)
  moreover have "c \<in> set (sign_part u) \<union> set (int_part u) \<union> set (frac_part u) \<Longrightarrow> c < 128" for c u
    by (auto simp: sign_part_def int_part_def frac_part_def split: list.splits if_splits dest: digits)
  ultimately have "c \<in> set (sign_part u) \<union> set (int_part u) \<union> set (frac_part u) \<union> set (exp_part u) \<Longrightarrow> c < 128" for c u
    by blast
  then show ?thesis
    using x number_split_text [OF split] split unfolding number_split_def Let_def
    by (metis (no_types, lifting) UnCI append_Nil2 prod.inject set_append Un_iff)
qed

lemma json_text_ascii: "plain L v \<Longrightarrow> x \<in> set (json_text L v) \<Longrightarrow> x < 128"
proof (induction v)
  case (JInt i)
  then show ?case using nat_str_digits by (force simp: str_int_def split: if_splits)
next
  case (JFloat y)
  then show ?case
    by (cases y) (auto simp: float_ok_def dest: float_literal_ascii)
next
  case (JList vs)
  then show ?case by (auto simp: plain_list simp del: plain.simps dest!: commas_set)
next
  case (JObj kvs)
  have member: "x < 128" if "(k, v) \<in> set kvs" "x \<in> set (json_string k) \<or> x \<in> set (json_text L v)" for k v
    using JObj.IH [of "(k, v)" v] JObj.prems(1) that json_string_ascii by (auto simp: plain_obj simp del: plain.simps)
  let ?f = "\<lambda>(k, v). json_string k @ [58] @ json_text L v"
  have "x = 123 \<or> x = 125 \<or> x \<in> set (commas (map ?f kvs))"
    using JObj.prems(2) by (simp add: case_prod_unfold comp_def)
  then show ?case
  proof (elim disjE)
    assume "x \<in> set (commas (map ?f kvs))"
    then consider "x = 44" | k v where "(k, v) \<in> set kvs" "x \<in> set (?f (k, v))"
      using commas_set by fastforce
    then show ?thesis using member by cases auto
  qed simp_all
qed (auto simp: json_string_ascii split: if_splits)

lemma loads_text:
  assumes "plain L v"
  shows "loads L (json_text L v) = Some v"
proof -
  let ?s = "json_text L v"
  obtain c cs where c: "?s = c # cs" "\<not> is_ws c" using text_starts [OF assms] by blast
  have "p_value L (Suc (2 * length ?s)) (?s @ []) = Some (v, [])"
    using assms by (intro p_value_text) (auto simp: delimited_def)
  moreover have "c < 128" using json_text_ascii [OF assms, of c] c by simp
  ultimately show ?thesis using c by (simp add: loads_def skip_ws_def)
qed

interpretation json: codec "json_text L" "loads L" "plain L" for L
  by unfold_locales (rule loads_text)

lemma loads_dumps: "plain L v \<Longrightarrow> \<exists>s. dumps L v = Some s \<and> loads L s = Some v"
  by (simp add: dumps_def plain_ints_ok json.dec_enc)

text \<open>Different values have different texts.\<close>

lemma dumps_inject: "plain L v \<Longrightarrow> plain L w \<Longrightarrow> dumps L v = dumps L w \<Longrightarrow> v = w"
  using json.enc_inject by (simp add: dumps_def plain_ints_ok)

end
