(* ===== verification/Wire.thy ===== *)
theory Wire
  imports JsonText Ladder
begin

text \<open>
  Records as bytes: the serializers of the producer (\<open>_serializer\<close> and the key serializer of
  \<open>start_producer\<close> in \<open>app/kafka/producer.py\<close>) and the deserializers of the consumers
  (\<open>BaseConsumer._build\<close> in \<open>app/kafka/consumers.py\<close>).

  What \<open>json.loads\<close> returns is within the values that \<open>json.dumps\<close> writes back unchanged, so a record
  that was read can be published again as it is; this is what the retry topic rests on.
\<close>

section \<open>What is read can be written\<close>

text \<open>The law of the floating-point library: the text of a float it read is again a float, the same one.\<close>

definition float_text :: "libs \<Rightarrow> bool" where
  "float_text L \<longleftrightarrow> (\<forall>s r. parse_float L s = Some (Finite r) \<longrightarrow> float_ok L r)"

lemma hex4_suffix: "hex4 s = Some (u, s') \<Longrightarrow> suffix s' s"
  by (cases s rule: hex4.cases) (auto simp: suffix_def split: option.splits)

lemma ascii_hex_bound: "ascii_hex c = Some d \<Longrightarrow> d \<le> 15"
  by (auto simp: ascii_hex_def split: if_splits)

lemma hex4_bound: "hex4 s = Some (u, s') \<Longrightarrow> u < 0x10000"
  by (cases s rule: hex4.cases) (auto split: option.splits dest!: ascii_hex_bound)

lemma suffix_drop_trans: "suffix t (drop n s) \<Longrightarrow> suffix t s"
  using suffix_drop suffix_order.trans by blast

lemma u_code_suffix: "u_code s = Some (u, s') \<Longrightarrow> suffix s' s"
  by (auto simp: u_code_def split: option.splits prod.splits if_splits
      dest!: hex4_suffix dest: suffix_drop_trans suffix_order.trans)

lemma u_code_bound: "u_code s = Some (u, s') \<Longrightarrow> u < 0x110000"
  by (auto simp: u_code_def split: option.splits prod.splits if_splits dest: hex4_bound)

lemma u_code_hi: "u_code s = Some (u, s') \<Longrightarrow> hi_surr u \<Longrightarrow> \<not> lo_next s'"
  by (auto simp: u_code_def hi_surr_def lo_next_def lo_surr_def split: option.splits prod.splits if_splits)

lemma u_code_lo: "u_code s = Some (u, s') \<Longrightarrow> lo_surr u \<Longrightarrow> hex4 s = Some (u, s')"
  by (auto simp: u_code_def lo_surr_def split: option.splits prod.splits if_splits)

lemma p_string_suffix: "p_string s = Some (k, s') \<Longrightarrow> suffix s' s"
proof (induction s arbitrary: k rule: p_string.induct)
  case (2 c s)
  then show ?case
    by (fastforce split: if_splits list.splits option.splits intro: suffix_ConsI
        dest: u_code_suffix suffix_order.trans)
qed simp

lemma p_string_lo:
  assumes "p_string s = Some (d # k, s')" and "lo_surr d" and "\<forall>c \<in> set s. scalar c"
  shows "lo_next s"
proof (cases s)
  case (Cons c cs)
  have escape: "\<not> lo_surr x" if "simple_escape e = Some x" for e x
    using that by (auto simp: simple_escape_def lo_surr_def split: if_splits)
  have "\<not> lo_surr c" using assms(3) Cons by (auto simp: scalar_def surrogate_def lo_surr_def)
  then show ?thesis
    using assms(1,2) Cons escape
    by (auto split: if_splits list.splits option.splits simp: lo_next_def dest: u_code_lo)
qed (use assms in simp)

lemma simple_escape_bound: "simple_escape e = Some d \<Longrightarrow> d < 128"
  by (auto simp: simple_escape_def split: if_splits)

lemma p_string_ok: "p_string s = Some (k, s') \<Longrightarrow> \<forall>c \<in> set s. scalar c \<Longrightarrow> str_ok k"
proof (induction s arbitrary: k rule: p_string.induct)
  case (2 c s)
  consider "c = 34" | s1 u s2 k' where "c = 92" "s = 117 # s1" "u_code s1 = Some (u, s2)" "p_string s2 = Some (k', s')" "k = u # k'"
    | e s1 d k' where "c = 92" "s = e # s1" "e \<noteq> 117" "simple_escape e = Some d" "p_string s1 = Some (k', s')" "k = d # k'"
    | k' where "c \<noteq> 34" "c \<noteq> 92" "32 \<le> c" "p_string s = Some (k', s')" "k = c # k'"
    using 2(4) by (auto split: if_splits list.splits option.splits)
  then show ?case
  proof cases
    case 1
    then show ?thesis using 2(4) by simp
  next
    case 2
    have scal: "\<forall>c \<in> set s2. scalar c" using u_code_suffix [OF 2(3)] \<open>\<forall>c \<in> set (_ # _). scalar c\<close> 2(2)
      by (auto dest!: set_mono_suffix)
    then have "str_ok k'" using "2.IH"(1) 2 by auto
    moreover have "case k' of [] \<Rightarrow> True | d # _ \<Rightarrow> \<not> lo_surr d" if "hi_surr u"
      using u_code_hi [OF 2(3) that] p_string_lo [of s2 _ _ s'] 2(4) scal by (auto split: list.split)
    ultimately show ?thesis using u_code_bound [OF 2(3)] 2(5) by simp
  next
    case 3
    then show ?thesis using "2.IH"(2) "2.prems" simple_escape_bound [OF 3(4)] by (auto simp: hi_surr_def)
  next
    case 4
    then show ?thesis using "2.IH"(3) "2.prems" by (auto simp: scalar_def surrogate_def hi_surr_def)
  qed
qed simp

lemma skip_ws_suffix: "suffix (skip_ws s) s"
  by (simp add: skip_ws_def suffix_dropWhile)

lemma after_suffix: "after w s = Some s' \<Longrightarrow> suffix s' s"
  by (auto simp: after_def suffix_drop split: if_splits)

lemma p_word_suffix: "p_word s = Some (v, s') \<Longrightarrow> suffix s' s"
  by (auto simp: p_word_def split: option.splits dest: after_suffix)

lemma p_word_plain: "p_word s = Some (v, s') \<Longrightarrow> plain L v"
  by (auto simp: p_word_def split: option.splits)

lemma p_number_suffix: "p_number L s = Some (v, s') \<Longrightarrow> suffix s' s"
  by (auto simp: p_number_def suffix_def split: prod.splits if_splits dest!: number_split_text)

lemma p_number_plain: "float_text L \<Longrightarrow> p_number L s = Some (v, s') \<Longrightarrow> plain L v"
  by (auto simp: p_number_def float_text_def split: prod.splits if_splits pyfloat.splits dest: py_int_digits_ok)

lemma set_item_keys: "fst ` set (set_item d k v) = insert k (fst ` set d)"
  by (induction d k v rule: set_item.induct) auto

lemma set_item_distinct: "distinct (map fst d) \<Longrightarrow> distinct (map fst (set_item d k v))"
  by (induction d k v rule: set_item.induct) (auto simp: set_item_keys simp flip: image_set)

lemma set_item_set: "set (set_item d k v) \<subseteq> insert (k, v) (set d)"
  by (induction d k v rule: set_item.induct) auto

lemma dict_of_ok: "distinct (map fst (dict_of kvs)) \<and> set (dict_of kvs) \<subseteq> set kvs"
proof (induction kvs rule: rev_induct)
  case (snoc x kvs)
  have "dict_of (kvs @ [x]) = set_item (dict_of kvs) (fst x) (snd x)" by (simp add: dict_of_def case_prod_unfold)
  then show ?case using snoc set_item_distinct set_item_set [of "dict_of kvs" "fst x" "snd x"] by auto
qed (simp add: dict_of_def)

lemma plain_dict: "\<forall>(k, v) \<in> set kvs. str_ok k \<and> plain L v \<Longrightarrow> plain L (JObj (dict_of kvs))"
  unfolding plain_obj using dict_of_ok [of kvs] by blast

lemma scalar_suffix: "suffix s' s \<Longrightarrow> \<forall>c \<in> set s. scalar c \<Longrightarrow> \<forall>c \<in> set s'. scalar c"
  using set_mono_suffix by blast

text \<open>What the three parsers return on text without lone surrogates, with a given fuel.\<close>

definition reads_value :: "libs \<Rightarrow> nat \<Rightarrow> bool" where
  "reads_value L n \<longleftrightarrow> (\<forall>s v s'. p_value L n s = Some (v, s') \<longrightarrow> (\<forall>c \<in> set s. scalar c) \<longrightarrow> plain L v \<and> suffix s' s)"

definition reads_elems :: "libs \<Rightarrow> nat \<Rightarrow> bool" where
  "reads_elems L n \<longleftrightarrow>
     (\<forall>s vs s'. p_elems L n s = Some (vs, s') \<longrightarrow> (\<forall>c \<in> set s. scalar c) \<longrightarrow> (\<forall>v \<in> set vs. plain L v) \<and> suffix s' s)"

definition reads_members :: "libs \<Rightarrow> nat \<Rightarrow> bool" where
  "reads_members L n \<longleftrightarrow>
     (\<forall>s kvs s'. p_members L n s = Some (kvs, s') \<longrightarrow> (\<forall>c \<in> set s. scalar c) \<longrightarrow>
        (\<forall>(k, v) \<in> set kvs. str_ok k \<and> plain L v) \<and> suffix s' s)"

lemma reads_value_step:
  assumes "float_text L" and elems: "reads_elems L n" and members: "reads_members L n"
  shows "reads_value L (Suc n)"
  unfolding reads_value_def
proof (intro allI impI)
  fix s v s'
  assume p: "p_value L (Suc n) s = Some (v, s')" and scalars: "\<forall>c \<in> set s. scalar c"
  obtain c cs where s: "s = c # cs" using p by (cases s) (auto simp: p_value.simps)
  have cs: "\<forall>c \<in> set cs. scalar c" "suffix cs s" using scalars s by (auto simp: suffix_ConsI)
  have ws: "\<forall>c \<in> set (skip_ws cs). scalar c" "suffix (skip_ws cs) s"
    using scalar_suffix [OF skip_ws_suffix cs(1)] suffix_order.trans [OF skip_ws_suffix cs(2)] by blast+
  consider "c = 34" | "c = 91" | "c = 123" | "c \<noteq> 34" "c \<noteq> 91" "c \<noteq> 123" by blast
  then show "plain L v \<and> suffix s' s"
  proof cases
    case 1
    then obtain k where "p_string cs = Some (k, s')" "v = JStr k" using p s by (auto simp: p_value.simps)
    then show ?thesis
      using cs p_string_ok [of cs k s'] p_string_suffix [of cs k s'] suffix_order.trans [of s' cs s] by simp
  next
    case 2
    then consider "after [93] (skip_ws cs) = Some s'" "v = JList []"
      | vs where "p_elems L n (skip_ws cs) = Some (vs, s')" "v = JList vs"
      using p s by (auto simp: p_value.simps Let_def split: option.splits)
    then show ?thesis
    proof cases
      case 1
      then show ?thesis using suffix_order.trans [OF after_suffix ws(2)] by simp
    next
      case 2
      then show ?thesis using elems ws suffix_order.trans [of s' "skip_ws cs" s] by (auto simp: reads_elems_def list_all_iff)
    qed
  next
    case 3
    then consider "after [125] (skip_ws cs) = Some s'" "v = JObj []"
      | kvs where "p_members L n (skip_ws cs) = Some (kvs, s')" "v = JObj (dict_of kvs)"
      using p s by (auto simp: p_value.simps Let_def split: option.splits)
    then show ?thesis
    proof cases
      case 1
      then show ?thesis using suffix_order.trans [OF after_suffix ws(2)] by simp
    next
      case 2
      then show ?thesis
        using members ws suffix_order.trans [of s' "skip_ws cs" s] plain_dict [of kvs L]
        by (auto simp: reads_members_def simp del: plain.simps)
    qed
  next
    case 4
    then show ?thesis
      using p s p_word_suffix p_word_plain p_number_suffix p_number_plain [OF assms(1)]
      by (auto simp: p_value.simps split: option.splits)
  qed
qed

lemma reads_elems_step:
  assumes val: "reads_value L n" and elems: "reads_elems L n"
  shows "reads_elems L (Suc n)"
  unfolding reads_elems_def
proof (intro allI impI)
  fix s vs s'
  assume p: "p_elems L (Suc n) s = Some (vs, s')" and scalars: "\<forall>c \<in> set s. scalar c"
  from p obtain w s1 where w: "p_value L n s = Some (w, s1)" by (auto simp: p_elems.simps split: option.splits)
  from p w obtain c s2 where c: "skip_ws s1 = c # s2" by (auto simp: p_elems.simps split: list.splits)
  have s1: "plain L w" "suffix s1 s" using val w scalars by (auto simp: reads_value_def)
  have s2: "suffix s2 s" using skip_ws_suffix [of s1] c s1(2) by (auto intro: suffix_order.trans dest: suffix_ConsD)
  then have more: "suffix (skip_ws s2) s" using skip_ws_suffix suffix_order.trans by blast
  show "(\<forall>v \<in> set vs. plain L v) \<and> suffix s' s"
  proof (cases "c = 93")
    case True
    then show ?thesis using p w c s1 s2 by (auto simp: p_elems.simps)
  next
    case False
    then obtain ws where ws: "p_elems L n (skip_ws s2) = Some (ws, s')" "vs = w # ws"
      using p w c by (auto simp: p_elems.simps split: if_splits)
    then show ?thesis
      using elems scalar_suffix [OF more scalars] s1 more by (auto simp: reads_elems_def intro: suffix_order.trans)
  qed
qed

lemma reads_members_step:
  assumes val: "reads_value L n" and members: "reads_members L n"
  shows "reads_members L (Suc n)"
  unfolding reads_members_def
proof (intro allI impI)
  fix s kvs s'
  assume p: "p_members L (Suc n) s = Some (kvs, s')" and scalars: "\<forall>c \<in> set s. scalar c"
  from p obtain cs k s1 where s: "s = 34 # cs" and k: "p_string cs = Some (k, s1)"
    by (auto simp: p_members.simps split: list.splits if_splits option.splits)
  from p s k obtain s2 where s2: "after [58] (skip_ws s1) = Some s2" by (auto simp: p_members.simps split: option.splits)
  from p s k s2 obtain w s3 where w: "p_value L n (skip_ws s2) = Some (w, s3)"
    by (auto simp: p_members.simps split: option.splits)
  from p s k s2 w obtain c s4 where c: "skip_ws s3 = c # s4" by (auto simp: p_members.simps split: list.splits)
  have "str_ok k" using p_string_ok [OF k] scalars s by simp
  moreover have in2: "suffix (skip_ws s2) s"
    using p_string_suffix [OF k] after_suffix [OF s2] skip_ws_suffix [of s1] skip_ws_suffix [of s2] s
    by (meson suffix_ConsI suffix_order.trans)
  moreover have "plain L w" and "suffix s3 (skip_ws s2)"
    using val w scalar_suffix [OF in2 scalars] by (auto simp: reads_value_def)
  moreover have "suffix s4 s3" using skip_ws_suffix [of s3] c by (auto dest: suffix_ConsD)
  ultimately have ok: "str_ok k" "plain L w" "suffix s4 s" by (blast intro: suffix_order.trans)+
  then have more: "suffix (skip_ws s4) s" using skip_ws_suffix suffix_order.trans by blast
  show "(\<forall>(k, v) \<in> set kvs. str_ok k \<and> plain L v) \<and> suffix s' s"
  proof (cases "c = 125")
    case True
    then show ?thesis using p s k s2 w c ok by (auto simp: p_members.simps)
  next
    case False
    then obtain ws where ws: "p_members L n (skip_ws s4) = Some (ws, s')" "kvs = (k, w) # ws"
      using p s k s2 w c by (auto simp: p_members.simps split: if_splits)
    then show ?thesis
      using members scalar_suffix [OF more scalars] ok more by (auto simp: reads_members_def intro: suffix_order.trans)
  qed
qed

lemma reads_all: "float_text L \<Longrightarrow> reads_value L n \<and> reads_elems L n \<and> reads_members L n"
proof (induction n)
  case 0
  show ?case
    by (simp add: reads_value_def reads_elems_def reads_members_def p_value.simps p_elems.simps p_members.simps)
next
  case (Suc n)
  then show ?case using reads_value_step reads_elems_step reads_members_step by blast
qed

lemma loads_plain:
  assumes "float_text L" and "loads L s = Some v" and "\<forall>c \<in> set s. scalar c"
  shows "plain L v"
proof -
  obtain rest where "p_value L (Suc (2 * length s)) (skip_ws s) = Some (v, rest)"
    using assms(2) by (auto simp: loads_def split: if_splits option.splits)
  then show ?thesis
    using reads_all [OF assms(1)] scalar_suffix [OF skip_ws_suffix assms(3)] unfolding reads_value_def by blast
qed

section \<open>Bytes\<close>

text \<open>
  \<open>b.decode()\<close>: strict decoding succeeds exactly on the bytes that encode their own decoding.
  \<open>None\<close> stands for \<open>UnicodeDecodeError\<close>.
\<close>

definition utf8_strict :: "bytes \<Rightarrow> str option" where
  "utf8_strict b = (let s = utf8_decode b in if list_all scalar s \<and> utf8_encode s = b then Some s else None)"

lemma utf8_strict_encode: "\<forall>c \<in> set s. scalar c \<Longrightarrow> utf8_strict (utf8_encode s) = Some s"
  by (simp add: utf8_strict_def Let_def utf8_decode_encode list_all_iff)

lemma utf8_strict_scalar: "utf8_strict b = Some s \<Longrightarrow> \<forall>c \<in> set s. scalar c"
  by (auto simp: utf8_strict_def Let_def list_all_iff split: if_splits)

text \<open>\<open>_serializer\<close>.  The text is ASCII, so encoding it cannot fail; the values are JSON, so \<open>default\<close> is not called.\<close>

definition serializer :: "libs \<Rightarrow> json \<Rightarrow> bytes option" where
  "serializer L v = map_option utf8_encode (dumps L v)"

text \<open>The value deserializer; it fails on a record without a value, which has no \<open>decode\<close>.\<close>

definition value_deserializer :: "libs \<Rightarrow> bytes option \<Rightarrow> json option" where
  "value_deserializer L b = Option.bind b (\<lambda>b. Option.bind (utf8_strict b) (loads L))"

text \<open>Keys.  The outer \<open>None\<close> stands for an exception.\<close>

definition key_serializer :: "str option \<Rightarrow> bytes option option" where
  "key_serializer k =
     (case k of
        None \<Rightarrow> Some None
      | Some s \<Rightarrow> if list_all scalar s then Some (Some (utf8_encode s)) else None)"

definition key_deserializer :: "bytes option \<Rightarrow> str option option" where
  "key_deserializer b =
     (case b of
        None \<Rightarrow> Some None
      | Some b \<Rightarrow> if b = [] then Some None else map_option Some (utf8_strict b))"

text \<open>
  A record in the topic.  \<open>store\<close> is what a producer with these serializers makes of the arguments of
  \<open>send_and_wait\<close>; \<open>fetch\<close> is what a consumer with these deserializers makes of a record at a place.
\<close>

record stored =
  m_key :: "bytes option"
  m_value :: "bytes option"
  m_headers :: kheaders

definition store :: "libs \<Rightarrow> str option \<Rightarrow> json \<Rightarrow> kheaders \<Rightarrow> stored option" where
  "store L key val hs =
     Option.bind (key_serializer key) (\<lambda>k.
     Option.bind (serializer L val) (\<lambda>v.
       Some \<lparr>m_key = k, m_value = Some v, m_headers = hs\<rparr>))"

definition fetch :: "libs \<Rightarrow> str \<Rightarrow> int \<Rightarrow> int \<Rightarrow> stored \<Rightarrow> consumer_record option" where
  "fetch L topic part off m =
     Option.bind (key_deserializer (m_key m)) (\<lambda>key.
     Option.bind (value_deserializer L (m_value m)) (\<lambda>val.
       Some \<lparr>r_topic = topic, r_partition = part, r_offset = off, r_key = key, r_value = val,
         r_headers = m_headers m\<rparr>))"

section \<open>Sending and receiving\<close>

lemma dumps_ascii: "plain L v \<Longrightarrow> dumps L v = Some s \<Longrightarrow> \<forall>c \<in> set s. scalar c"
  using json_text_ascii [of L v] by (force simp: dumps_def scalar_def surrogate_def split: if_splits)

lemma serializer_round_trip:
  assumes "plain L v"
  shows "\<exists>b. serializer L v = Some b \<and> value_deserializer L (Some b) = Some v"
proof -
  obtain s where s: "dumps L v = Some s" "loads L s = Some v" using loads_dumps [OF assms] by blast
  then show ?thesis
    using utf8_strict_encode [OF dumps_ascii [OF assms s(1)]] by (simp add: serializer_def value_deserializer_def)
qed

text \<open>The keys that come back: the empty one does not, it is read as no key.\<close>

definition key_ok :: "str option \<Rightarrow> bool" where
  "key_ok k \<longleftrightarrow> (case k of None \<Rightarrow> True | Some s \<Rightarrow> s \<noteq> [] \<and> list_all scalar s)"

lemma utf8_encode_Nil: "utf8_encode s = [] \<longleftrightarrow> s = []"
  by (cases s) (auto simp: utf8_encode_def utf8_char_def)

lemma key_round_trip: "key_ok k \<Longrightarrow> \<exists>b. key_serializer k = Some b \<and> key_deserializer b = Some k"
  by (auto simp: key_ok_def key_serializer_def key_deserializer_def utf8_encode_Nil utf8_strict_encode list_all_iff
      split: option.splits)

lemma fetched_key_ok: "key_deserializer b = Some k \<Longrightarrow> key_ok k"
  by (auto simp: key_deserializer_def key_ok_def list_all_iff utf8_strict_def Let_def utf8_encode_def
      split: option.splits if_splits)

lemma uuid_key_ok: "key_ok (Some (uuid_str u))"
proof -
  have "scalar c" if "c \<in> set (uuid_str u)" for c
    using set_uuid_str [OF that] by (auto simp: is_hex_char_def scalar_def surrogate_def)
  moreover have "uuid_str u \<noteq> []" by (simp add: uuid_str_def Let_def)
  ultimately show ?thesis by (simp add: key_ok_def list_all_iff)
qed

definition arrives :: "libs \<Rightarrow> str \<Rightarrow> str option \<Rightarrow> json \<Rightarrow> kheaders \<Rightarrow> bool" where
  "arrives L topic key val hs \<longleftrightarrow>
     (\<exists>m. store L key val hs = Some m
        \<and> (\<forall>part off. \<exists>r. fetch L topic part off m = Some r
             \<and> r_partition r = part \<and> r_offset r = off \<and> delivers (KafkaSend topic key val hs) r))"

lemma plain_arrives:
  assumes "plain L val" and "key_ok key"
  shows "arrives L topic key val hs"
proof -
  obtain b where b: "serializer L val = Some b" "value_deserializer L (Some b) = Some val"
    using serializer_round_trip [OF assms(1)] by blast
  obtain k where k: "key_serializer key = Some k" "key_deserializer k = Some key"
    using key_round_trip [OF assms(2)] by blast
  show ?thesis using b k by (auto simp: arrives_def store_def fetch_def delivers_def)
qed

lemma sent_value:
  assumes "plain L val" and "key_ok key" and "store L key val hs = Some m" and "fetch L topic part off m = Some r"
  shows "r_value r = val" and "r_key r = key"
proof -
  have "delivers (KafkaSend topic key val hs) r"
    using plain_arrives [OF assms(1,2), of topic hs] assms(3,4) unfolding arrives_def by (metis option.inject)
  then show "r_value r = val" and "r_key r = key" by (simp_all add: delivers_def)
qed

lemma fetched_ok:
  assumes "float_text L" and "fetch L topic part off m = Some r"
  shows "plain L (r_value r)" and "key_ok (r_key r)"
proof -
  obtain b s where "m_value m = Some b" "utf8_strict b = Some s" "loads L s = Some (r_value r)"
    and key: "key_deserializer (m_key m) = Some (r_key r)"
    using assms(2) by (auto simp: fetch_def value_deserializer_def Option.bind_eq_Some_conv)
  then show "plain L (r_value r)" using loads_plain [OF assms(1)] utf8_strict_scalar by blast
  show "key_ok (r_key r)" by (rule fetched_key_ok [OF key])
qed

lemma payload_plain: "plain L v \<Longrightarrow> plain L (payload_dict v)"
  by (cases v) (auto simp: payload_dict_def hi_surr_def lo_surr_def)

text \<open>What the handlers send.\<close>

definition sendable :: "libs \<Rightarrow> req \<Rightarrow> bool" where
  "sendable L q \<longleftrightarrow> (case q of KafkaSend topic key val hs \<Rightarrow> plain L val \<and> key_ok key | _ \<Rightarrow> True)"

lemma spares_sendable: "spares (sendable L)"
  by (auto simp: spares_def sendable_def split: req.split)

lemma order_handle_sendable:
  assumes "plain L (r_value r)" and "key_ok (r_key r)"
  shows "only (sendable L) (order_handle C g r)"
  by (rule only_order_handle [OF spares_sendable spares_sendable])
    (auto intro!: only_to_dlq [OF spares_fits [OF spares_sendable]] only_fail_retry [OF spares_fits [OF spares_sendable]]
      simp: sendable_def assms payload_plain uuid_key_ok)

lemma retry_handle_sendable:
  assumes "plain L (r_value r)" and "key_ok (r_key r)"
  shows "only (sendable L) (retry_handle C r)"
  by (rule retry_handle_only [OF spares_sendable]) (simp add: sendable_def assms)

section \<open>Properties\<close>

text \<open>An event as the producer sends it, with a name outside ASCII and the character U+1F600.\<close>

definition demo_value :: json where
  "demo_value = JObj [(lit ''event_type'', JStr (lit ''order.created'')), (lit ''customer_id'', JStr [233, 0x1F600, 10]),
     (lit ''quantity'', JInt (- 12)), (lit ''fail_mode'', JNull), (lit ''tags'', JList [JBool True, JFloat (Finite (3 / 2))])]"

lemma demo_float_ok: "float_ok demo_libs (3 / 2)"
proof -
  have "float_literal (lit ''1.5'')" by code_simp
  then show ?thesis by (simp add: float_ok_def demo_libs_def)
qed

lemma demo_value_plain: "plain demo_libs demo_value"
  using demo_float_ok
  by (simp add: demo_value_def hi_surr_def lo_surr_def digits_ok_def nat_str.simps)

lemma demo_value_arrives: "arrives demo_libs (lit ''orders.created'') (Some (uuid_str 7)) demo_value []"
  by (rule plain_arrives [OF demo_value_plain uuid_key_ok])

text \<open>
  C9. A record that was read can be passed on: whatever the processor publishes to the retry or the
  dead-letter topic, or the retry scheduler to the main topic, while it handles a record that a consumer
  has decoded, can be serialised, and whoever reads it gets the key, value and headers that were sent.
\<close>

theorem passed_on_records_arrive:
  assumes "float_text (lib C)" and "fetch (lib C) topic part off m = Some r"
    and "conv (order_handle C g r) t v \<or> conv (retry_handle C r) t v"
    and "(KafkaSend topic' key val hs, x) \<in> set t"
  shows "\<exists>m'. store (lib C) key val hs = Some m'
        \<and> (\<forall>part off. \<exists>r'. fetch (lib C) topic' part off m' = Some r'
             \<and> r_partition r' = part \<and> r_offset r' = off \<and> delivers (KafkaSend topic' key val hs) r')"
proof -
  note ok = fetched_ok [OF assms(1,2)]
  have "sendable (lib C) (KafkaSend topic' key val hs)"
    using assms(3,4) only_conv [OF order_handle_sendable [OF ok]] only_conv [OF retry_handle_sendable [OF ok]] by blast
  then show ?thesis using plain_arrives [of "lib C" val key] by (simp add: sendable_def arrives_def)
qed

lemma demo_float_text: "float_text demo_libs"
proof -
  have "parse_float demo_libs s = Some (Finite (3 / 2))" for s by (simp add: demo_libs_def)
  then show ?thesis using demo_float_ok unfolding float_text_def by (metis option.inject pyfloat.inject)
qed

text \<open>The example record of the retry topic, in bytes: an empty object under the key of order 7.\<close>

definition demo_stored :: stored where
  "demo_stored = \<lparr>m_key = Some (utf8_encode (uuid_str 7)), m_value = Some (utf8_encode (lit ''{}'')),
     m_headers = r_headers demo_retry_record\<rparr>"

lemma demo_fetch: "fetch demo_libs (lit ''orders.retry'') 0 6 demo_stored = Some demo_retry_record"
proof -
  have "value_deserializer demo_libs (Some (utf8_encode (lit ''{}''))) = Some (JObj [])"
    using serializer_round_trip [of demo_libs "JObj []"] by (simp add: serializer_def dumps_def)
  moreover have "key_deserializer (Some (utf8_encode (uuid_str 7))) = Some (Some (uuid_str 7))"
    using key_round_trip [OF uuid_key_ok] uuid_key_ok by (auto simp: key_serializer_def key_ok_def)
  ultimately show ?thesis by (simp add: fetch_def demo_stored_def demo_retry_record_def)
qed

theorem passed_on_records_arrive_witness:
  "\<exists>t v key val hs m'. conv (retry_handle demo_ctx demo_retry_record) t v
     \<and> (KafkaSend (topic_orders default_settings) key val hs, RUnit) \<in> set t
     \<and> store demo_libs key val hs = Some m'
     \<and> (\<exists>r'. fetch demo_libs (topic_orders default_settings) 0 0 m' = Some r' \<and> r_value r' = JObj [])"
proof -
  have demo_lib: "lib demo_ctx = demo_libs" by (simp add: demo_ctx_def)
  let ?p = "retry_handle demo_ctx demo_retry_record"
  let ?t = "trail scripted ?p [RFloat 1, RUnit, RUnit]"
  have "\<exists>hs. (KafkaSend (topic_orders default_settings) (Some (uuid_str 7)) (JObj []) hs, RUnit) \<in> set ?t"
    by (simp add: retry_handle_def demo_ctx_def build_def publish_raw_def get_producer_def sleep_def Let_def
        trail_simps exec_simps demo_retry_record_def split: option.split)
  then obtain hs where sent: "(KafkaSend (topic_orders default_settings) (Some (uuid_str 7)) (JObj []) hs, RUnit) \<in> set ?t"
    by blast
  have "float_text (lib demo_ctx)" "fetch (lib demo_ctx) (lit ''orders.retry'') 0 6 demo_stored = Some demo_retry_record"
    using demo_float_text demo_fetch by (simp_all add: demo_lib)
  from passed_on_records_arrive [OF this disjI2 [OF conv_scripted] sent]
  obtain m' r' where "store demo_libs (Some (uuid_str 7)) (JObj []) hs = Some m'"
    "fetch demo_libs (topic_orders default_settings) 0 0 m' = Some r'"
    "delivers (KafkaSend (topic_orders default_settings) (Some (uuid_str 7)) (JObj []) hs) r'"
    unfolding demo_lib by blast
  then show ?thesis using conv_scripted sent by (fastforce simp: delivers_def)
qed

text \<open>
  C10. A replay is byte-identical: when a record that this producer wrote comes back to the main topic after
  any number of rounds through the retry topic, its value is written as the same bytes.
\<close>

theorem replays_are_byte_identical:
  assumes "digits_ok (max_attempts (cfg C))" and "topic_retry (cfg C) \<noteq> topic_dlq (cfg C)"
    and "plain (lib C) val" and "key_ok key" and "store (lib C) key val hs = Some m"
    and "fetch (lib C) topic part off m = Some r" and "(replayed C g ^^ n) r r'"
  shows "\<exists>m'. store (lib C) (r_key r') (r_value r') (r_headers r') = Some m' \<and> m_value m' = m_value m"
proof -
  have r: "r_value r = val" "r_key r = key"
    using sent_value [OF assms(3-6)] by simp_all
  have "key_ok (r_key r')"
  proof (cases n)
    case (Suc k)
    then obtain s where "replayed C g s r'" using assms(7) by auto
    then show ?thesis using replayed_next [OF assms(1,2)] uuid_key_ok by metis
  qed (use assms(4,7) r in simp)
  moreover have "r_value r' = val" using replayed_steps [OF assms(1,2,7)] r by simp
  ultimately show ?thesis
    using key_round_trip [of "r_key r'"] assms(5) by (auto simp: store_def Option.bind_eq_Some_conv)
qed

theorem replays_are_byte_identical_witness:
  "\<exists>m r' m'. store demo_libs None (JObj []) [] = Some m
     \<and> fetch demo_libs (lit ''orders.created'') 0 41 m = Some demo_event_record
     \<and> (replayed demo_ctx (IdempotencyGuard default_settings None None) ^^ 1) demo_event_record r'
     \<and> store demo_libs (r_key r') (r_value r') (r_headers r') = Some m' \<and> m_value m' = m_value m"
proof -
  have demo_lib: "lib demo_ctx = demo_libs" "cfg demo_ctx = default_settings" by (simp_all add: demo_ctx_def)
  have ok: "plain (lib demo_ctx) (JObj [])" "key_ok None" by (simp_all add: key_ok_def)
  then obtain m r where m: "store (lib demo_ctx) None (JObj []) [] = Some m"
    "fetch (lib demo_ctx) (lit ''orders.created'') 0 41 m = Some r" "r_partition r = 0" "r_offset r = 41"
    "delivers (KafkaSend (lit ''orders.created'') None (JObj []) []) r"
    using plain_arrives [of "lib demo_ctx" "JObj []" None "lit ''orders.created''" "[]"] unfolding arrives_def by blast
  then have r: "r = demo_event_record" by (simp add: delivers_def demo_event_record_def demo_record_def)
  obtain r' where r': "(replayed demo_ctx (IdempotencyGuard default_settings None None) ^^ 1) r r'"
    using demo_replay r by auto
  have "digits_ok (max_attempts (cfg demo_ctx))" "topic_retry (cfg demo_ctx) \<noteq> topic_dlq (cfg demo_ctx)"
    using demo_digits by (simp_all add: demo_lib) (simp add: default_settings_def)
  from replays_are_byte_identical [OF this ok m(1,2) r'] show ?thesis
    using m(1,2) r r' unfolding demo_lib by blast
qed

end
