(* ===== verification/Pipeline.thy ===== *)
theory Pipeline
  imports Wire Service
begin

text \<open>
  From the API to the worker: what \<open>submit_order\<close> publishes is what \<open>OrderConsumer.handle\<close> gets to see.
  The link is the topic; pydantic's dumping and validation are the parameters \<open>dump_event\<close> and
  \<open>validate_event\<close>, of which the round trip is assumed for the events of the order in question.
\<close>

definition dumps_back :: "libs \<Rightarrow> order \<Rightarrow> bool" where
  "dumps_back L o' \<longleftrightarrow>
     (\<forall>e. event_of o' e \<longrightarrow> plain L (dump_event L e) \<and> validate_event L (dump_event L e) = Inr e)"

section \<open>Properties\<close>

text \<open>
  C11. An accepted order reaches the processor: when \<open>submit_order\<close> returned a new order, Kafka has
  accepted a record for it whose bytes, read at any place of the main topic, are decoded to a record that
  validates as an event of that order with all its fields, under the order's key and as attempt 1.
\<close>

theorem accepted_order_reaches_processor:
  assumes "conv (submit_order C s p key) t (Inr (o', False))" and "dumps_back (lib C) o'"
  shows "\<exists>e hs m. event_of o' e
     \<and> acked t (KafkaSend (topic_orders (cfg C)) (Some (uuid_str (o_id o'))) (dump_event (lib C) e) hs)
     \<and> store (lib C) (Some (uuid_str (o_id o'))) (dump_event (lib C) e) hs = Some m
     \<and> (\<forall>part off. \<exists>r. fetch (lib C) (topic_orders (cfg C)) part off m = Some r
          \<and> r_topic r = topic_orders (cfg C) \<and> r_offset r = off \<and> r_key r = Some (uuid_str (o_id o'))
          \<and> validate_event (lib C) (r_value r) = Inr e \<and> get_attempt (r_headers r) = 1)"
proof -
  obtain e hs where e: "event_of o' e" "get_attempt hs = 1"
    and sent: "acked t (KafkaSend (topic_orders (cfg C)) (Some (uuid_str (o_id o'))) (dump_event (lib C) e) hs)"
    using submit_order_result [OF assms(1)] by (auto simp: published_in_def)
  have ok: "plain (lib C) (dump_event (lib C) e)" "validate_event (lib C) (dump_event (lib C) e) = Inr e"
    using assms(2) e(1) by (simp_all add: dumps_back_def)
  from plain_arrives [OF ok(1) uuid_key_ok, of "topic_orders (cfg C)" "o_id o'" hs] obtain m where
    "store (lib C) (Some (uuid_str (o_id o'))) (dump_event (lib C) e) hs = Some m"
    "\<forall>part off. \<exists>r. fetch (lib C) (topic_orders (cfg C)) part off m = Some r \<and> r_offset r = off
       \<and> delivers (KafkaSend (topic_orders (cfg C)) (Some (uuid_str (o_id o'))) (dump_event (lib C) e) hs) r"
    unfolding arrives_def by blast
  then show ?thesis using e sent ok(2) unfolding delivers_def req.inject by metis
qed

text \<open>Libraries for the example: an event of the order 9 is its id and its time, in unary.\<close>

definition unary_libs :: libs where
  "unary_libs = demo_libs\<lparr>
     dump_event := (\<lambda>e. JList [JStr (ev_event_id e), JBool (ev_occurred_at e < 0),
       JList (replicate (nat \<bar>ev_occurred_at e\<bar>) JNull)]),
     validate_event := (\<lambda>v. case v of
         JList [JStr i, JBool neg, JList ns] \<Rightarrow> Inr \<lparr>ev_event_id = i, ev_event_type = lit ''order.created'',
           ev_occurred_at = (if neg then - int (length ns) else int (length ns)), ev_order_id = 9,
           ev_customer_id = lit ''c'', ev_sku = lit ''sku'', ev_quantity = 1, ev_amount_cents = 100, ev_fail_mode = None\<rparr>
       | _ \<Rightarrow> Inl [])\<rparr>"

lemma str_ok_scalar: "\<forall>c \<in> set s. scalar c \<Longrightarrow> str_ok s"
  by (induction s) (auto simp: scalar_def surrogate_def hi_surr_def)

lemma uuid_str_ok: "str_ok (uuid_str u)"
  using uuid_key_ok [of u] by (intro str_ok_scalar) (simp add: key_ok_def list_all_iff)

lemma unary_dumps_back:
  assumes "accepted_row demo_payload o'" and "o_id o' = 9"
  shows "dumps_back unary_libs o'"
  unfolding dumps_back_def
proof (intro allI impI conjI)
  fix e
  assume e: "event_of o' e"
  then obtain u where u: "ev_event_id e = uuid_str u" by (auto simp: event_of_def)
  show "plain unary_libs (dump_event unary_libs e)"
    by (simp add: unary_libs_def u uuid_str_ok list_all_iff)
  show "validate_event unary_libs (dump_event unary_libs e) = Inr e"
    using e assms by (cases e) (simp add: unary_libs_def event_of_def accepted_row_def demo_payload_def)
qed

theorem accepted_order_reaches_processor_witness:
  "\<exists>t o' e hs m r. conv (submit_order (demo_ctx\<lparr>lib := unary_libs\<rparr>) 0 demo_payload None) t (Inr (o', False))
     \<and> event_of o' e \<and> store unary_libs (Some (uuid_str 9)) (dump_event unary_libs e) hs = Some m
     \<and> fetch unary_libs (topic_orders default_settings) 1 5 m = Some r
     \<and> validate_event unary_libs (r_value r) = Inr e \<and> get_attempt (r_headers r) = 1"
proof -
  let ?C = "demo_ctx\<lparr>lib := unary_libs\<rparr>"
  let ?p = "submit_order ?C 0 demo_payload None"
  have C: "lib ?C = unary_libs" "cfg ?C = default_settings" by (simp_all add: demo_ctx_def)
  have "\<exists>o'. fst (exec stock ?p Map.empty) = Inr (o', False) \<and> o_id o' = 9"
    by (simp add: submit_order_def accept_order_def create_order_def utcnow_def
      remember_key_def new_event_def publish_event_def get_producer_def build_def incr_stat_def put_order_def
      Let_def exec_simps stock_def demo_ctx_def settled_def answer_def)
  then obtain o' where run: "conv ?p (trail stock ?p Map.empty) (Inr (o', False))" and o': "o_id o' = 9"
    using conv_exec [of ?p stock Map.empty] by metis
  have "accepted_row demo_payload o'" using submit_order_result [OF run] by simp
  then have "dumps_back (lib ?C) o'" using unary_dumps_back o' by simp
  from accepted_order_reaches_processor [OF run this] obtain e hs m where
    m: "event_of o' e" "store unary_libs (Some (uuid_str 9)) (dump_event unary_libs e) hs = Some m"
    "\<forall>part off. \<exists>r. fetch unary_libs (topic_orders default_settings) part off m = Some r
       \<and> validate_event unary_libs (r_value r) = Inr e \<and> get_attempt (r_headers r) = 1"
    unfolding C o' by blast
  then show ?thesis using run by blast
qed

end
