(* ===== verification/Logging.thy ===== *)
theory Logging
  imports Demo
begin

text \<open>
  Configuration of the \<open>logging\<close> module (\<open>app/logging_config.py\<close>).  The state is the part of that module
  which \<open>setup_logging\<close> changes, with the module's own flag.  \<open>setLevel\<close> raises \<open>ValueError\<close> for a name that
  is not a level; then the handler is installed already and the flag is not set.
\<close>

section \<open>State\<close>

record log_handler =
  lh_stream :: str
  lh_fmt :: str
  lh_datefmt :: str

record logging =
  configured :: bool
  root_handlers :: "log_handler list"
  root_level :: int
  aiokafka_level :: int

text \<open>The names that \<open>setLevel\<close> knows.\<close>

definition level_number :: "str \<Rightarrow> int option" where
  "level_number name = map_of
     [(lit ''CRITICAL'', 50), (lit ''FATAL'', 50), (lit ''ERROR'', 40), (lit ''WARN'', 30), (lit ''WARNING'', 30),
      (lit ''INFO'', 20), (lit ''DEBUG'', 10), (lit ''NOTSET'', 0)] name"

definition stdout_handler :: log_handler where
  "stdout_handler = \<lparr>lh_stream = lit ''stdout'',
     lh_fmt = lit ''%(asctime)s %(levelname)-7s [%(name)s] %(message)s'', lh_datefmt = lit ''%H:%M:%S''\<rparr>"

section \<open>Operation\<close>

definition setup_logging :: "libs \<Rightarrow> settings \<Rightarrow> logging \<Rightarrow> (exn + unit) \<times> logging" where
  "setup_logging L s st =
     (if configured st then (Inr (), st)
      else
        let st1 = st\<lparr>root_handlers := [stdout_handler]\<rparr> in
        case level_number (upper L (log_level s)) of
          None \<Rightarrow> (Inl (ValueError (lit ''Unknown level: '' @ repr_str L (upper L (log_level s)))), st1)
        | Some n \<Rightarrow> (Inr (), st1\<lparr>root_level := n, aiokafka_level := 30, configured := True\<rparr>))"

section \<open>Laws\<close>

text \<open>Both entry points call it on import; however often it is called, the state is that of one call.\<close>

lemma setup_logging_again: "setup_logging L s (snd (setup_logging L s st)) = setup_logging L s st"
  by (simp add: setup_logging_def Let_def split: option.split)

lemma setup_logging_idempotent:
  "((\<lambda>st. snd (setup_logging L s st)) ^^ Suc n) st = snd (setup_logging L s st)"
  by (induction n) (simp_all add: setup_logging_again)

text \<open>No record is logged twice: a state that was not configured ends with one handler, also on an error.\<close>

lemma setup_logging_one_handler:
  "\<not> configured st \<Longrightarrow> root_handlers (snd (setup_logging L s st)) = [stdout_handler]"
  by (simp add: setup_logging_def Let_def split: option.split)

lemma setup_logging_default:
  "setup_logging demo_libs default_settings \<lparr>configured = False, root_handlers = [h], root_level = 30, aiokafka_level = 0\<rparr>
    = (Inr (), \<lparr>configured = True, root_handlers = [stdout_handler], root_level = 20, aiokafka_level = 30\<rparr>)"
proof -
  have "level_number (upper demo_libs (log_level default_settings)) = Some 20"
    by (simp add: demo_libs_def default_settings_def level_number_def)
  then show ?thesis by (simp add: setup_logging_def)
qed

end
