(* ===== verification/Columns.thy ===== *)
theory Columns
  imports OrderSafety RetryDlq Service
begin

text \<open>
  The column types of the tables (\<open>app/models.py\<close>): lengths of \<open>String\<close> columns and the ranges of \<open>Integer\<close>
  and \<open>BigInteger\<close> columns, which the database enforces.  The lemmas say which rows the program writes
  fit.  \<open>String\<close> and \<open>Text\<close> are not checked for characters that the database cannot store.
\<close>

section \<open>Column types\<close>

definition string_column :: "nat \<Rightarrow> str \<Rightarrow> bool" where
  "string_column n s \<longleftrightarrow> length s \<le> n"

definition integer_column :: "int \<Rightarrow> bool" where
  "integer_column n \<longleftrightarrow> - (2 ^ 31) \<le> n \<and> n < 2 ^ 31"

definition bigint_column :: "int \<Rightarrow> bool" where
  "bigint_column n \<longleftrightarrow> - (2 ^ 63) \<le> n \<and> n < 2 ^ 63"

fun fail_mode_value :: "fail_mode \<Rightarrow> str" where
  "fail_mode_value TRANSIENT = lit ''transient''"
| "fail_mode_value PERMANENT = lit ''permanent''"

definition transition_fits :: "status_transition \<Rightarrow> bool" where
  "transition_fits t \<longleftrightarrow>
     (case st_from_status t of None \<Rightarrow> True | Some s \<Rightarrow> string_column 16 (status_value s))
     \<and> string_column 16 (status_value (st_to_status t))"

definition order_fits :: "order \<Rightarrow> bool" where
  "order_fits o' \<longleftrightarrow>
     string_column 64 (o_customer_id o') \<and> string_column 64 (o_sku o')
     \<and> integer_column (o_quantity o') \<and> bigint_column (o_amount_cents o')
     \<and> string_column 16 (status_value (o_status o')) \<and> integer_column (o_attempts o')
     \<and> (case o_fail_mode o' of None \<Rightarrow> True | Some m \<Rightarrow> string_column 16 (fail_mode_value m))
     \<and> list_all transition_fits (o_transitions o')"

definition dead_letter_fits :: "dead_letter \<Rightarrow> bool" where
  "dead_letter_fits d \<longleftrightarrow>
     (case dl_event_id d of JNull \<Rightarrow> True | JStr s \<Rightarrow> string_column 64 s | _ \<Rightarrow> False)
     \<and> string_column 128 (dl_source_topic d) \<and> integer_column (dl_partition d)
     \<and> bigint_column (dl_offset d) \<and> integer_column (dl_attempts d)"

lemma status_fits [simp]: "string_column 16 (status_value s)"
  by (cases s) (simp_all add: string_column_def)

lemma fail_mode_fits [simp]: "string_column 16 (fail_mode_value m)"
  by (cases m) (simp_all add: string_column_def)

lemma transition_fits [simp]: "transition_fits t"
  by (simp add: transition_fits_def split: option.split)

lemma order_fits_iff:
  "order_fits o' \<longleftrightarrow> length (o_customer_id o') \<le> 64 \<and> length (o_sku o') \<le> 64
     \<and> integer_column (o_quantity o') \<and> bigint_column (o_amount_cents o') \<and> integer_column (o_attempts o')"
  by (auto simp: order_fits_def string_column_def [of 64] list_all_iff split: option.split)

section \<open>The rows that are written\<close>

text \<open>A transition changes neither the text of the request nor its numbers, only the attempts.\<close>

interpretation columns: row_invariant order_fits integer_column
proof
  fix old att s to msg why
  assume "order_fits old" and "\<And>n. att = Some n \<Longrightarrow> integer_column n"
  then show "always (transition s (Some old) to msg att why) (\<lambda>t v. \<forall>o' \<in> flushed t. order_fits o')"
    by (auto simp: transition_def utcnow_def prog_simps Let_def order_fits_iff split: sum.splits option.splits)
qed

lemma create_order_fits:
  assumes "order_create_ok p"
  shows "always (create_order s p) (\<lambda>t v. \<forall>o' \<in> flushed t. order_fits o' \<longleftrightarrow> oc_amount_cents p < 2 ^ 63)"
  using assms
  by (auto simp: create_order_def utcnow_def prog_simps Let_def order_fits_iff order_create_ok_def
      integer_column_def bigint_column_def split: sum.splits)

lemma no_rows: "only (\<lambda>q. \<forall>s o'. q \<noteq> DbFlush s (SaveOrder o')) p \<Longrightarrow> conv p t v \<Longrightarrow> flushed t = {}"
  using only_conv [of "\<lambda>q. \<forall>s o'. q \<noteq> DbFlush s (SaveOrder o')" p t v] by (fastforce simp: flushed_def)

lemma submit_order_rows:
  assumes run: "conv (submit_order C s p key) t v" and "o' \<in> flushed t"
  shows "\<exists>t' v'. conv (create_order s p) t' v' \<and> o' \<in> flushed t'"
proof -
  have resolve: "only (\<lambda>q. \<forall>s o'. q \<noteq> DbFlush s (SaveOrder o')) (resolve_idempotency_key s k)" for k
    by (rule only_mono [OF resolve_only]) auto
  have rest: "only (\<lambda>q. \<forall>s o'. q \<noteq> DbFlush s (SaveOrder o')) (seqP (ask get_unit (DbCommit s))
     (seqP (remember_key C key order)
     (bindP (new_event order (oc_fail_mode p)) (\<lambda>event.
      seqP (publish_event C event None 1 None None None)
     (seqP (incr_stat STAT_PUBLISHED 1)
     (seqP (put_order C order)
      (Return (order, False))))))))" for order
    by (auto simp: remember_key_def new_event_def publish_event_def get_producer_def build_def incr_stat_def
        put_order_def Let_def split: option.split intro!: only_bindP only_seqP)
  show ?thesis
    using assms resolve [THEN no_rows] rest [THEN no_rows]
    by (fastforce simp: submit_order_def accept_order_def conv_bindP [of "create_order s p"]
        conv_bindP [of "case key of None \<Rightarrow> _ | Some k \<Rightarrow> _ k"] split: option.splits if_splits)
qed

text \<open>The row the archiver writes; its time does not matter.\<close>

lemma archived_row_fits:
  "dead_letter_fits (archived_row r created) \<longleftrightarrow>
     (case json_get (payload_dict (r_value r)) (lit ''event_id'') of
        JNull \<Rightarrow> True | JStr s \<Rightarrow> length s \<le> 64 | _ \<Rightarrow> False)
     \<and> length (dl_source_topic (archived_row r created)) \<le> 128
     \<and> integer_column (r_partition r) \<and> bigint_column (r_offset r) \<and> get_attempt (r_headers r) < 2 ^ 31"
  using get_attempt_ge_1 [of "r_headers r"]
  by (auto simp: dead_letter_fits_def archived_row_def string_column_def integer_column_def [of "get_attempt _"]
      split: json.split)

text \<open>What the database does with a dead letter that does not fit: it refuses the row.\<close>

definition refuses_misfits :: "trace \<Rightarrow> bool" where
  "refuses_misfits t \<longleftrightarrow>
     (\<forall>s d x. (DbFlush s (SaveDeadLetter d), x) \<in> set t \<longrightarrow> \<not> dead_letter_fits d \<longrightarrow> \<not> ok_resp x)"

lemma durable_fits:
  assumes "refuses_misfits t" and "durable t (SaveDeadLetter d)"
  shows "dead_letter_fits d"
  using assms unfolding durable_def acked_def refuses_misfits_def by force

text \<open>The archiver fails on such a dead letter, and the loop asks for it again.\<close>

lemma misfit_fails:
  assumes "\<not> dead_letter_fits (archived_row r 0)" and "conv (dlq_handle C r) t v" and "refuses_misfits t"
  shows "isl v"
proof (cases v)
  case (Inr a)
  with assms(2) obtain created where "durable t (SaveDeadLetter (archived_row r created))"
    using dlq_handle_archives [of C r] by (auto simp: returns_conv)
  then have "dead_letter_fits (archived_row r created)" by (rule durable_fits [OF assms(3)])
  then have False using assms(1) by (simp add: dead_letter_fits_def archived_row_def)
  then show ?thesis ..
qed simp

lemma misfit_not_settled:
  assumes "\<not> dead_letter_fits (archived_row r 0)" and "conv (safe_handle (dlq_handle C) r) t v" and "refuses_misfits t"
  shows "v = Inr REDELIVER \<or> (\<exists>e. v = Inl e \<and>
    (\<not> is_Exception e \<or> (\<exists>t' x. t = t' @ [(Sleep 1, x)] \<and> (x = RErr e \<or> e = bad_reply))))"
proof -
  from assms(2) consider e t1 x where "conv (dlq_handle C r) t1 (Inl e)" "t = t1 @ [(Sleep 1, x)]"
      "v = Inr REDELIVER \<or> (\<exists>e'. v = Inl e' \<and> answer get_unit x = Inl e')"
    | e where "v = Inl e" "\<not> is_Exception e" | a where "conv (dlq_handle C r) t (Inr a)"
    by (auto simp: safe_handle_def conv_try_except conv_seqP sleep_def conv_ask)
  then show ?thesis
  proof cases
    case 1
    then show ?thesis using answer_Inl [of get_unit x] by blast
  next
    case 3
    then show ?thesis using misfit_fails [OF assms(1) 3 assms(3)] by simp
  qed blast
qed

section \<open>Properties\<close>

text \<open>
  C22. What the API accepts fits the table but for one column: for a request within the declared constraints,
  a row that \<open>submit_order\<close> writes fits the columns of \<open>orders\<close> exactly when the amount is below 2^63, a
  bound that the schema does not declare.
\<close>

theorem accepted_orders_fit:
  assumes "order_create_ok p" and "conv (submit_order C s p key) t v" and "o' \<in> flushed t"
  shows "order_fits o' \<longleftrightarrow> oc_amount_cents p < 2 ^ 63"
  using submit_order_rows [OF assms(2,3)] create_order_fits [OF assms(1), of s] unfolding always_conv by blast

text \<open>A request that is within the constraints and does not fit.\<close>

definition huge_payload :: order_create where
  "huge_payload = demo_payload\<lparr>oc_amount_cents := 2 ^ 63\<rparr>"

theorem accepted_orders_fit_witness:
  "\<exists>t v o'. conv (submit_order demo_ctx 0 huge_payload None) t v \<and> o' \<in> flushed t \<and> \<not> order_fits o'
     \<and> order_create_ok huge_payload"
proof -
  let ?p = "submit_order demo_ctx 0 huge_payload None"
  have ok: "order_create_ok huge_payload"
    by (simp add: order_create_ok_def huge_payload_def demo_payload_def)
  have "\<exists>o'. o' \<in> flushed (trail scripted ?p [RUuid 1, RTime 0, RTime 0, RTime 0, RErr (ServiceError [])])"
    by (simp add: submit_order_def accept_order_def create_order_def utcnow_def Let_def trail_simps exec_simps)
  then obtain o' where "o' \<in> flushed (trail scripted ?p [RUuid 1, RTime 0, RTime 0, RTime 0, RErr (ServiceError [])])"
    by blast
  then show ?thesis
    using accepted_orders_fit [OF ok conv_scripted] conv_scripted ok by (fastforce simp: huge_payload_def)
qed

text \<open>
  C21. The processor never writes a row that the table cannot hold: as long as the rows the database returns
  fit their columns and the attempt number of the record fits an \<open>Integer\<close>, so does every row it writes.
\<close>

theorem processor_rows_fit:
  assumes "conv (order_handle C g r) t v" and "rows_ok order_fits t"
    and "get_attempt (r_headers r) < 2 ^ 31" and "o' \<in> flushed t"
  shows "order_fits o'"
proof -
  have "integer_column (get_attempt (r_headers r))"
    using assms(3) get_attempt_ge_1 [of "r_headers r"] by (simp add: integer_column_def)
  from keepsD [OF columns.order_handle_keeps [OF this] assms(1,2,4)] show ?thesis .
qed

theorem processor_rows_fit_witness:
  "\<exists>t v o'. conv demo_handle t v \<and> rows_ok order_fits t \<and> o' \<in> flushed t \<and> order_fits o'"
proof -
  let ?t = "trail scripted demo_handle demo_retry_answers"
  have ok: "rows_ok order_fits ?t"
    by (simp add: demo_run_simps demo_retry_answers_def order_fits_iff integer_column_def bigint_column_def)
  have "get_attempt (r_headers demo_event_record) < 2 ^ 31"
    by (simp add: demo_event_record_def demo_record_def get_attempt_def)
  with ok show ?thesis using processor_rows_fit [OF conv_scripted ok] demo_retry_rows(3) conv_scripted by blast
qed

text \<open>
  C20. A dead letter that does not fit its table is never committed and always comes back: when the database
  refuses such a row, which happens when \<open>event_id\<close> is no string of at most 64 characters, the topic is too long
  or a number out of range (\<open>archived_row_fits\<close>), each delivery of the record ends with a rewind to it and no
  commit, unless the loop was asked to stop before, the task is cancelled, or one of the loop's own
  requests (the stop flag, the pause, the rewind) fails.
\<close>

theorem misfit_dead_letter_comes_back:
  assumes misfit: "\<not> dead_letter_fits (archived_row r 0)"
    and run: "conv (handle_records (dlq_handle C) tp (r # rs)) t v" and refused: "refuses_misfits t"
  shows "(v = Inr False \<and> offset_reqs t = [Seek tp (r_offset r)])
    \<or> (v = Inr True \<and> t = [(IsStopping, RBool True)])
    \<or> (\<exists>e. v = Inl e \<and> set (offset_reqs t) \<subseteq> {Seek tp (r_offset r)}
         \<and> (\<not> is_Exception e \<or> (\<exists>t' q x. t = t' @ [(q, x)] \<and> q \<in> {IsStopping, Sleep 1, Seek tp (r_offset r)}
              \<and> (x = RErr e \<or> e = bad_reply))))"
proof -
  let ?rest = "\<lambda>a. if a = REDELIVER
      then seqP (ask get_unit (Seek tp (r_offset r))) (Return False)
      else seqP (ask get_unit (CommitOffset tp (r_offset r + 1))) (handle_records (dlq_handle C) tp rs)"
  from run obtain x t1 where t: "t = (IsStopping, x) # t1"
    and cs: "case answer get_bool x of Inl e \<Rightarrow> t1 = [] \<and> v = Inl e
      | Inr stopping \<Rightarrow> conv (if stopping then Return True else bindP (safe_handle (dlq_handle C) r) ?rest) t1 v"
    by (auto simp: conv_bindP_ask)
  show ?thesis
  proof (cases "answer get_bool x")
    case (Inl e)
    then have "t = [] @ [(IsStopping, x)]" "v = Inl e" "x = RErr e \<or> e = bad_reply"
      using cs t answer_Inl [OF Inl] by simp_all
    then show ?thesis by fastforce
  next
    case (Inr stopping)
    show ?thesis
    proof (cases stopping)
      case True
      then show ?thesis using Inr cs t by (simp add: answer_Inr)
    next
      case False
      then have "conv (bindP (safe_handle (dlq_handle C) r) ?rest) t1 v" using Inr cs by simp
      then obtain t2 w t3 where t1: "t1 = t2 @ t3" and w: "conv (safe_handle (dlq_handle C) r) t2 w"
        and rest: "case w of Inl e \<Rightarrow> t3 = [] \<and> v = Inl e | Inr a \<Rightarrow> conv (?rest a) t3 v"
        by (rule conv_bindPE)
      have quiet: "offset_reqs t2 = []" by (rule archiver.safe_no_offsets [OF w])
      from misfit_not_settled [OF misfit w] refused consider "w = Inr REDELIVER"
        | e where "w = Inl e" "\<not> is_Exception e"
        | e t' x where "w = Inl e" "t2 = t' @ [(Sleep 1, x)]" "x = RErr e \<or> e = bad_reply"
        unfolding t t1 refuses_misfits_def by fastforce
      then show ?thesis
      proof cases
        case 1
        with rest have "conv (seqP (ask get_unit (Seek tp (r_offset r))) (Return False)) t3 v" by simp
        then obtain y where t3: "t3 = [(Seek tp (r_offset r), y)]"
          and v: "v = Inr False \<or> (\<exists>e. v = Inl e \<and> answer get_unit y = Inl e)"
          by (auto simp: conv_seqP conv_ask)
        have "t = ((IsStopping, x) # t2) @ [(Seek tp (r_offset r), y)]" "offset_reqs t = [Seek tp (r_offset r)]"
          using quiet by (simp_all add: t t1 t3)
        then show ?thesis using v answer_Inl [of get_unit y] by fastforce
      next
        case 2
        then show ?thesis using rest quiet by (simp add: t t1)
      next
        case (3 e t' y)
        then have "t = ((IsStopping, x) # t') @ [(Sleep 1, y)]" "v = Inl e" "offset_reqs t = []"
          using rest quiet by (simp_all add: t t1)
        then show ?thesis using 3(3) by fastforce
      qed
    qed
  qed
qed

text \<open>A dead letter whose event id is a number: the database refuses it, the loop is told to deliver it again.\<close>

definition misfit_record :: consumer_record where
  "misfit_record = demo_dlq_record\<lparr>r_value := JObj [(lit ''event_id'', JInt 5)]\<rparr>"

theorem misfit_dead_letter_comes_back_witness:
  "\<exists>t. conv (handle_records (dlq_handle demo_ctx) (lit ''orders.dlq'', 0) [misfit_record]) t (Inr False)
     \<and> refuses_misfits t \<and> \<not> dead_letter_fits (archived_row misfit_record 0)
     \<and> offset_reqs t = [Seek (lit ''orders.dlq'', 0) (r_offset misfit_record)]"
proof -
  let ?p = "handle_records (dlq_handle demo_ctx) (lit ''orders.dlq'', 0) [misfit_record]"
  let ?rs = "[RBool False, RSid 0, RTime 0, RErr (ServiceError []), RUnit, RUnit, RUnit, RUnit]"
  have misfit: "\<not> dead_letter_fits (archived_row misfit_record 0)"
    by (simp add: archived_row_fits misfit_record_def payload_dict_def json_get_def)
  have ok: "refuses_misfits (trail scripted ?p ?rs)" and v: "fst (exec scripted ?p ?rs) = Inr False"
    by (auto simp: refuses_misfits_def safe_handle_def dlq_handle_def record_dead_letter_def session_scope_def
        utcnow_def sleep_def Let_def exec_simps trail_simps is_Exception_def ok_resp_def)
  show ?thesis
    using misfit_dead_letter_comes_back [OF misfit conv_scripted [of ?p ?rs] ok] conv_scripted [of ?p ?rs] misfit ok
    unfolding v by auto
qed

end
