(* ===== verification/DeadLetters.thy ===== *)
theory DeadLetters
  imports Columns Api
begin

text \<open>
  A dead letter from the topic to the HTTP surface: what \<open>DlqArchiver\<close> stores, \<open>GET /dead-letters\<close> can show.
  The response model asks for a string or nothing as event id and for an object as payload; the column type gives
  the first, the archiver's wrapping of other payloads the second.
\<close>

section \<open>Rows and the response model\<close>

lemma dead_letter_out_of_iff:
  "(\<exists>out. dead_letter_out_of (key, d) = Some out) \<longleftrightarrow>
     (dl_event_id d = JNull \<or> (\<exists>s. dl_event_id d = JStr s)) \<and> (\<exists>kvs. dl_payload d = JObj kvs)"
  by (auto simp: dead_letter_out_of_def split: json.splits)

lemma dead_letter_out_of_fields:
  assumes "dead_letter_out_of (key, d) = Some out"
  shows "do_id out = key" and "do_order_id out = dl_order_id d" and "do_source_topic out = dl_source_topic d"
    and "do_partition out = dl_partition d" and "do_offset out = dl_offset d" and "do_attempts out = dl_attempts d"
    and "do_error out = dl_error d" and "JObj (do_payload out) = dl_payload d" and "do_created_at out = dl_created_at d"
    and "dl_event_id d = (case do_event_id out of None \<Rightarrow> JNull | Some s \<Rightarrow> JStr s)"
  using assms by (auto simp: dead_letter_out_of_def split: json.splits)

lemma archived_row_shown:
  assumes "dead_letter_fits (archived_row r created)"
  shows "\<exists>out. dead_letter_out_of (key, archived_row r created) = Some out"
proof -
  have "dl_payload (archived_row r created) = payload_dict (r_value r)" by (simp add: archived_row_def)
  moreover have "\<exists>kvs. payload_dict (r_value r) = JObj kvs" by (simp add: payload_dict_def split: json.split)
  ultimately show ?thesis
    using assms unfolding dead_letter_out_of_iff by (auto simp: dead_letter_fits_def split: json.splits)
qed

lemma those_map:
  assumes "\<forall>x \<in> set xs. \<exists>y. f x = Some y"
  shows "\<exists>ys. those (map f xs) = Some ys \<and> list_all2 (\<lambda>x y. f x = Some y) xs ys"
  using assms
proof (induction xs)
  case (Cons x xs)
  then obtain y ys where "f x = Some y" "those (map f xs) = Some ys" "list_all2 (\<lambda>x y. f x = Some y) xs ys" by auto
  then show ?case by auto
qed simp

section \<open>Property\<close>

text \<open>
  C19. The archive is readable: when each row that the database lists was made durable by some run of the archiver, in a
  database that refuses rows that do not fit their columns, the endpoint answers 200 with one entry per
  row, in the order of the rows, and each entry has every field of its row: the key, order id, event id, source
  topic, partition, offset, attempts, error, payload and time.
\<close>

theorem archived_letters_are_listed:
  assumes "conv (api_list_dead_letters s limit offset) t v"
    and "(DbSelectDeadLetters s limit offset, RDeadLetters rows) \<in> set t"
    and "\<forall>x \<in> set rows. \<exists>C r t v. conv (dlq_handle C r) t v \<and> refuses_misfits t \<and> durable t (SaveDeadLetter (snd x))"
  shows "\<exists>outs. v = Inr (200, outs) \<and> list_all2 (\<lambda>(key, d) out. do_id out = key
     \<and> do_order_id out = dl_order_id d
     \<and> (case do_event_id out of None \<Rightarrow> JNull | Some ev \<Rightarrow> JStr ev) = dl_event_id d
     \<and> do_source_topic out = dl_source_topic d \<and> do_partition out = dl_partition d \<and> do_offset out = dl_offset d
     \<and> do_attempts out = dl_attempts d \<and> do_error out = dl_error d
     \<and> JObj (do_payload out) = dl_payload d \<and> do_created_at out = dl_created_at d) rows outs"
proof -
  have "\<exists>out. dead_letter_out_of x = Some out" if "x \<in> set rows" for x
    using assms(3) that archiver_writes durable_fits archived_row_shown [of _ _ "fst x"]
    by (metis prod.collapse)
  then obtain outs where outs: "those (map dead_letter_out_of rows) = Some outs"
    and rel: "list_all2 (\<lambda>x y. dead_letter_out_of x = Some y) rows outs"
    using those_map [of rows dead_letter_out_of] by blast
  from assms(1) obtain x t' where t: "t = (DbSelectDeadLetters s limit offset, x) # t'"
    and rest: "case answer get_dead x of Inl e \<Rightarrow> t' = [] \<and> v = Inl e
      | Inr letters \<Rightarrow> conv (case those (map dead_letter_out_of letters) of
           Some outs \<Rightarrow> Return (200, outs) | None \<Rightarrow> Raise (ServiceError (lit ''response validation''))) t' v"
    by (auto simp: api_list_dead_letters_def list_dead_letters_def conv_bindP_ask)
  then have "t' = []" by (auto split: sum.splits option.splits)
  then have "x = RDeadLetters rows" using assms(2) t by simp
  then have "v = Inr (200, outs)" using rest outs by simp
  moreover have "list_all2 (\<lambda>(key, d) out. do_id out = key \<and> do_order_id out = dl_order_id d
     \<and> (case do_event_id out of None \<Rightarrow> JNull | Some ev \<Rightarrow> JStr ev) = dl_event_id d
     \<and> do_source_topic out = dl_source_topic d \<and> do_partition out = dl_partition d \<and> do_offset out = dl_offset d
     \<and> do_attempts out = dl_attempts d \<and> do_error out = dl_error d
     \<and> JObj (do_payload out) = dl_payload d \<and> do_created_at out = dl_created_at d) rows outs"
    using rel by (rule list_all2_mono) (use dead_letter_out_of_fields in \<open>force split: prod.split\<close>)
  ultimately show ?thesis by blast
qed

text \<open>The archived row of a record that is no object, listed under key 1.\<close>

lemma demo_row_fits: "dead_letter_fits (archived_row demo_dlq_record 0)"
  by code_simp

lemma demo_archived:
  "\<exists>t v. conv (dlq_handle demo_ctx demo_dlq_record) t v \<and> refuses_misfits t
     \<and> durable t (SaveDeadLetter (archived_row demo_dlq_record 0))"
proof -
  let ?p = "dlq_handle demo_ctx demo_dlq_record"
  let ?t = "trail scripted ?p [RSid 0, RTime 0, RUnit, RUnit, RUnit, RInt 1]"
  have run: "?t = [(DbOpen, RSid 0), (UtcNow, RTime 0), (DbFlush 0 (SaveDeadLetter (archived_row demo_dlq_record 0)), RUnit),
      (DbCommit 0, RUnit), (DbClose 0, RUnit), (RedisHincrby Keys_STATS STAT_DLQ 1, RInt 1)]"
    by (simp add: dlq_handle_def record_dead_letter_def session_scope_def utcnow_def incr_stat_def archived_row_def
        Let_def settled_def exec_simps trail_simps)
  have "refuses_misfits ?t" unfolding run using demo_row_fits by (auto simp: refuses_misfits_def)
  moreover have "durable ?t (SaveDeadLetter (archived_row demo_dlq_record 0))"
    using durable_adjacent [of 2 ?t 0] unfolding run by simp
  ultimately show ?thesis using conv_scripted by blast
qed

theorem archived_letters_are_listed_witness:
  "\<exists>outs. conv (api_list_dead_letters 0 50 0)
       [(DbSelectDeadLetters 0 50 0, RDeadLetters [(1, archived_row demo_dlq_record 0)])] (Inr (200, outs))
     \<and> map do_id outs = [1] \<and> map do_attempts outs = [1] \<and> map do_offset outs = [2]"
proof -
  let ?d = "archived_row demo_dlq_record 0"
  let ?q = "DbSelectDeadLetters 0 50 0" and ?r = "RDeadLetters [(1, archived_row demo_dlq_record 0)]"
  obtain out where "dead_letter_out_of (1, ?d) = Some out" using archived_row_shown [OF demo_row_fits] by blast
  then have run: "conv (api_list_dead_letters 0 50 0) [(?q, ?r)] (Inr (200, [out]))"
    by (simp add: api_list_dead_letters_def list_dead_letters_def conv_bindP_ask)
  have "dl_attempts ?d = 1" "dl_offset ?d = 2"
    by (simp_all add: archived_row_def demo_dlq_record_def get_attempt_def)
  then show ?thesis
    using archived_letters_are_listed [OF run, of "[(1, ?d)]"] run demo_archived
    by (fastforce simp: list_all2_Cons1)
qed

end
