(* ===== verification/Delays.thy ===== *)
theory Delays
  imports RetryDlq
begin

text \<open>
  How long the retry scheduler holds a batch.  The comment of \<open>RetryScheduler\<close> says that sleeping in the loop
  is safe because the delays are capped well below the broker's limit between two polls; a batch holds many
  records, and what bounds their sum is that the delays are absolute times: while one record is held, the
  others come closer to theirs.
\<close>

section \<open>Time\<close>

text \<open>
  The clock after a request, when it showed \<open>now\<close> before it: a sleep that returns takes at least its duration.
\<close>

definition tick :: "req \<times> resp \<Rightarrow> rat \<Rightarrow> rat" where
  "tick x now = (case fst x of
       TimeTime \<Rightarrow> (case snd x of RFloat y \<Rightarrow> y | _ \<Rightarrow> now)
     | Sleep d \<Rightarrow> if ok_resp (snd x) then now + d else now
     | _ \<Rightarrow> now)"

definition nap :: "req \<times> resp \<Rightarrow> rat" where
  "nap x = (case fst x of Sleep d \<Rightarrow> if ok_resp (snd x) then d else 0 | _ \<Rightarrow> 0)"

lemma tick_simps [simp]:
  "tick (TimeTime, RFloat y) now = y" "tick (Sleep d, r) now = (if ok_resp r then now + d else now)"
  by (simp_all add: tick_def)

lemma nap_simps [simp]: "nap (TimeTime, r) = 0" "nap (Sleep d, r) = (if ok_resp r then d else 0)"
  by (simp_all add: nap_def)

lemma nap_none: "\<forall>d. fst x \<noteq> Sleep d \<Longrightarrow> nap x = 0"
  by (simp add: nap_def split: req.split)

definition slept :: "trace \<Rightarrow> rat" where
  "slept t = sum_list (map nap t)"

definition time_after :: "trace \<Rightarrow> rat \<Rightarrow> rat" where
  "time_after t = fold tick t"

text \<open>A clock that never runs backwards.\<close>

primrec clock :: "rat \<Rightarrow> trace \<Rightarrow> bool" where
  "clock now [] = True"
| "clock now (x # t) = (now \<le> tick x now \<and> clock (tick x now) t)"

lemma time_simps [simp]:
  "slept [] = 0" "slept (x # t) = nap x + slept t" "slept (a @ b) = slept a + slept b"
  "time_after [] now = now" "time_after (x # t) now = time_after t (tick x now)" "time_after (a @ b) now = time_after b (time_after a now)"
  by (simp_all add: slept_def time_after_def)

lemma clock_append [simp]: "clock now (a @ b) \<longleftrightarrow> clock now a \<and> clock (time_after a now) b"
  by (induction a arbitrary: now) auto

lemma clock_after: "clock now t \<Longrightarrow> now \<le> time_after t now"
  by (induction t arbitrary: now) (auto intro: order_trans)

lemma no_naps:
  assumes "\<forall>x \<in> set t. \<forall>d. fst x \<noteq> Sleep d"
  shows "slept t = 0"
proof -
  have "nap x = 0" if "x \<in> set t" for x
    using assms that nap_none by blast
  then show ?thesis by (simp add: slept_def cong: map_cong)
qed

section \<open>Budgets\<close>

text \<open>
  \<open>paid H now t k\<close>: what was slept comes out of the time that is left until \<open>H\<close>, up to \<open>k\<close> seconds.
\<close>

definition paid :: "rat \<Rightarrow> rat \<Rightarrow> trace \<Rightarrow> rat \<Rightarrow> bool" where
  "paid H now t k \<longleftrightarrow> slept t + max 0 (H - time_after t now) \<le> max 0 (H - now) + k"

lemma paid_append: "paid H now a k \<Longrightarrow> paid H (time_after a now) b l \<Longrightarrow> paid H now (a @ b) (k + l)"
  unfolding paid_def by simp

lemma paid_mono: "paid H now t k \<Longrightarrow> k \<le> l \<Longrightarrow> paid H now t l"
  unfolding paid_def by simp

lemma paid_quiet:
  assumes "\<forall>x \<in> set t. \<forall>d. fst x \<noteq> Sleep d" and "clock now t"
  shows "paid H now t 0"
  using no_naps [OF assms(1)] clock_after [OF assms(2)] by (auto simp: paid_def)

section \<open>The scheduler\<close>

definition due_by :: "ctx \<Rightarrow> rat \<Rightarrow> consumer_record \<Rightarrow> bool" where
  "due_by C H r \<longleftrightarrow>
     (case get_not_before (lib C) (r_headers r) of Finite x \<Rightarrow> x \<le> H | Infinity \<Rightarrow> False | _ \<Rightarrow> True)"

text \<open>One record: at most one sleep, after the clock is read.\<close>

lemma replay_sends:
  assumes "conv (bindP (build L att None err None) (\<lambda>headers. seqP (publish_raw C topic key val headers) (Return COMMIT))) t v"
    and "x \<in> set t"
  shows "fst x \<noteq> Sleep d"
proof -
  have "only (\<lambda>q. \<forall>d. q \<noteq> Sleep d)
      (bindP (build L att None err None) (\<lambda>headers. seqP (publish_raw C topic key val headers) (Return COMMIT)))"
    by (auto simp: build_def publish_raw_def get_producer_def Let_def split: option.split intro!: only_bindP only_seqP)
  from only_conv [OF this assms(1)] assms(2) show ?thesis by (cases x) auto
qed

lemma retry_handle_paid:
  assumes run: "conv (retry_handle C r) t v" and "clock now t" and "due_by C H r"
  shows "paid H now t 0"
proof -
  let ?wait = "wait_time (get_not_before (lib C) (r_headers r))"
  let ?cap = "retry_max_delay_seconds (cfg C)"
  let ?pause = "\<lambda>y. if pf_positive (?wait y) then sleep (pf_min (?wait y) ?cap) else Return ()"
  let ?send = "bindP (build (lib C) (get_attempt (r_headers r)) None (get_error (r_headers r)) None) (\<lambda>headers.
      seqP (publish_raw C (topic_orders (cfg C)) (r_key r) (r_value r) headers) (Return COMMIT))"
  from run obtain x t1 where t: "t = (TimeTime, x) # t1"
    and rest: "case answer get_float x of Inl e \<Rightarrow> t1 = [] \<and> v = Inl e | Inr y \<Rightarrow> conv (seqP (?pause y) ?send) t1 v"
    by (auto simp: retry_handle_def Let_def conv_bindP_ask)
  show ?thesis
  proof (cases "answer get_float x")
    case (Inl e)
    then show ?thesis using rest t assms(2) by (intro paid_quiet) auto
  next
    case (Inr y)
    then have y: "x = RFloat y" and run': "conv (seqP (?pause y) ?send) t1 v"
      using rest by (simp_all add: answer_Inr)
    show ?thesis
    proof (cases "pf_positive (?wait y)")
      case False
      then have "\<forall>z \<in> set t. \<forall>d. fst z \<noteq> Sleep d"
        using run' t replay_sends by (fastforce simp: conv_seqP)
      then show ?thesis using assms(2) by (rule paid_quiet)
    next
      case True
      with run' obtain z t2 where t1: "t1 = (Sleep (pf_min (?wait y) ?cap), z) # t2"
        and t2: "\<forall>w \<in> set t2. \<forall>d. fst w \<noteq> Sleep d"
        using replay_sends by (fastforce simp: sleep_def conv_seqP conv_ask)
      have "pf_min (?wait y) ?cap \<le> H - y"
        using True assms(3) by (cases "get_not_before (lib C) (r_headers r)") (auto simp: due_by_def)
      moreover have "now \<le> y" "clock (tick (Sleep (pf_min (?wait y) ?cap), z) y) t2"
        using assms(2) unfolding t t1 y by simp_all
      ultimately show ?thesis
        using no_naps [OF t2] clock_after [of _ t2] unfolding paid_def t t1 y by (fastforce split: if_splits)
    qed
  qed
qed

text \<open>A record that is not settled costs a second more, and ends its partition's part of the batch.\<close>

lemma safe_handle_paid:
  assumes "conv (safe_handle (retry_handle C) r) t v" and "clock now t" and "due_by C H r"
  shows "paid H now t (if v = Inr COMMIT then 0 else 1)"
proof -
  from assms(1) consider "conv (retry_handle C r) t v"
    | e t1 y where "conv (retry_handle C r) t1 (Inl e)" "t = t1 @ [(Sleep 1, y)]" "v \<noteq> Inr COMMIT"
    by (fastforce simp: safe_handle_def conv_try_except conv_seqP sleep_def conv_ask split: if_splits)
  then show ?thesis
  proof cases
    case 1
    then show ?thesis using retry_handle_paid [OF 1 assms(2,3)] by (auto intro: paid_mono)
  next
    case 2
    then have "paid H now t1 0" using assms retry_handle_paid by auto
    moreover have "paid H (time_after t1 now) [(Sleep 1, y)] 1" by (auto simp: paid_def)
    ultimately show ?thesis using 2 paid_append by fastforce
  qed
qed

text \<open>The conversation about a partition: stopped, ended by a record that is not settled, or gone on with.\<close>

lemma handle_records_cases:
  assumes "conv (handle_records handle tp (r # rs)) t v"
  obtains (stopped) x where "t = [(IsStopping, x)]"
    | (ended) x t2 w q where "t = (IsStopping, x) # t2 @ q" and "conv (safe_handle handle r) t2 w" and "w \<noteq> Inr COMMIT"
        and "\<forall>z \<in> set q. \<forall>d. fst z \<noteq> Sleep d"
    | (settled) x t2 y t3 where "t = (IsStopping, x) # t2 @ (CommitOffset tp (r_offset r + 1), y) # t3"
        and "conv (safe_handle handle r) t2 (Inr COMMIT)" and "t3 = [] \<or> conv (handle_records handle tp rs) t3 v"
proof -
  let ?rest = "\<lambda>a. if a = REDELIVER
      then seqP (ask get_unit (Seek tp (r_offset r))) (Return False)
      else seqP (ask get_unit (CommitOffset tp (r_offset r + 1))) (handle_records handle tp rs)"
  from assms obtain x t1 where t: "t = (IsStopping, x) # t1"
    and cs: "case answer get_bool x of Inl e \<Rightarrow> t1 = [] \<and> v = Inl e
      | Inr stopping \<Rightarrow> conv (if stopping then Return True else bindP (safe_handle handle r) ?rest) t1 v"
    by (auto simp: conv_bindP_ask)
  show thesis
  proof (cases "t1 = []")
    case True
    then show thesis using stopped t by simp
  next
    case False
    with cs have "conv (bindP (safe_handle handle r) ?rest) t1 v" by (auto split: sum.splits if_splits)
    then obtain t2 w t3 where t1: "t1 = t2 @ t3" and w: "conv (safe_handle handle r) t2 w"
      and rest: "case w of Inl e \<Rightarrow> t3 = [] \<and> v = Inl e | Inr a \<Rightarrow> conv (?rest a) t3 v"
      by (rule conv_bindPE)
    show thesis
    proof (cases "w = Inr COMMIT")
      case True
      then have "conv (seqP (ask get_unit (CommitOffset tp (r_offset r + 1))) (handle_records handle tp rs)) t3 v"
        using rest by simp
      then obtain y t4 where "t3 = (CommitOffset tp (r_offset r + 1), y) # t4"
        "t4 = [] \<or> conv (handle_records handle tp rs) t4 v"
        by (auto simp: conv_seqP conv_ask)
      then show thesis using settled t t1 w True by simp
    next
      case False
      have "\<forall>z \<in> set t3. \<forall>d. fst z \<noteq> Sleep d"
      proof (cases w)
        case (Inr a)
        with False have "a = REDELIVER" by (cases a) auto
        then show ?thesis using rest Inr by (auto simp: conv_seqP conv_ask)
      qed (use rest in simp)
      then show thesis using ended t t1 w False by simp
    qed
  qed
qed

lemma paid_quiet_one: "clock now [(q, x)] \<Longrightarrow> \<forall>d. q \<noteq> Sleep d \<Longrightarrow> paid H now [(q, x)] 0"
  by (rule paid_quiet) auto

lemma handle_records_paid:
  assumes "conv (handle_records (retry_handle C) tp rs) t v" and "clock now t" and "\<forall>r \<in> set rs. due_by C H r"
  shows "paid H now t 1"
  using assms
proof (induction rs arbitrary: t now)
  case Nil
  then show ?case by (auto simp: paid_def)
next
  case (Cons r rs)
  have r: "due_by C H r" using Cons.prems(3) by simp
  from Cons.prems(1) show ?case
  proof (cases rule: handle_records_cases)
    case (stopped x)
    then show ?thesis using Cons.prems(2) by (auto intro: paid_mono [OF paid_quiet])
  next
    case (ended x t2 w q)
    note t = ended(1)
    let ?n = "tick (IsStopping, x) now"
    have "paid H now [(IsStopping, x)] 0" "paid H ?n t2 1" "paid H (time_after t2 ?n) q 0"
      using Cons.prems(2) safe_handle_paid [OF ended(2) _ r, of ?n] ended(3) paid_quiet [OF ended(4)] unfolding t
      by (auto intro: paid_quiet_one)
    then have "paid H now ([(IsStopping, x)] @ t2 @ q) (0 + (1 + 0))"
      by (intro paid_append) auto
    then show ?thesis unfolding t by simp
  next
    case (settled x t2 y t3)
    note t = settled(1)
    let ?n = "tick (IsStopping, x) now" and ?commit = "(CommitOffset tp (r_offset r + 1), y)"
    let ?m = "tick ?commit (time_after t2 ?n)"
    have "paid H now [(IsStopping, x)] 0" "paid H ?n t2 0" "paid H (time_after t2 ?n) [?commit] 0"
      using Cons.prems(2) safe_handle_paid [OF settled(2) _ r, of ?n] unfolding t
      by (auto intro: paid_quiet_one)
    moreover have "paid H ?m t3 1"
      using settled(3) Cons.IH [of t3 ?m] Cons.prems(2,3) unfolding t by (auto simp: paid_def)
    ultimately have "paid H now ([(IsStopping, x)] @ t2 @ [?commit] @ t3) (0 + (0 + (0 + 1)))"
      by (intro paid_append) auto
    then show ?thesis unfolding t by simp
  qed
qed

lemma handle_batch_paid:
  assumes "conv (handle_batch (retry_handle C) batch) t v" and "clock now t"
    and "\<forall>(tp, rs) \<in> set batch. \<forall>r \<in> set rs. due_by C H r"
  shows "paid H now t (of_nat (length batch))"
  using assms
proof (induction batch arbitrary: t now)
  case Nil
  then show ?case by (auto simp: paid_def)
next
  case (Cons part batch)
  obtain tp rs where part: "part = (tp, rs)" by (cases part)
  from Cons.prems(1) obtain t1 w t2 where t: "t = t1 @ t2"
    and w: "conv (handle_records (retry_handle C) tp rs) t1 w"
    and t2: "t2 = [] \<or> conv (handle_batch (retry_handle C) batch) t2 v"
  proof -
    from Cons.prems(1) obtain t1 w t2 where "t = t1 @ t2" and "conv (handle_records (retry_handle C) tp rs) t1 w"
      and "case w of Inl e \<Rightarrow> t2 = [] \<and> v = Inl e
        | Inr stopping \<Rightarrow> conv (if stopping then Return True else handle_batch (retry_handle C) batch) t2 v"
      unfolding part handle_batch.simps by (rule conv_bindPE)
    then show thesis using that [of t1 t2 w] by (auto split: sum.splits if_splits)
  qed
  have "paid H now t1 1"
    using handle_records_paid [OF w] Cons.prems(2,3) unfolding t part by auto
  moreover have "paid H (time_after t1 now) t2 (of_nat (length batch))"
    using t2 Cons.IH [of t2] Cons.prems(2,3) unfolding t by (auto simp: paid_def)
  ultimately show ?case unfolding t using paid_append by fastforce
qed

section \<open>Property\<close>

text \<open>
  C16. The scheduler does not hold a batch longer than its longest delay: when no record of the batch is due
  later than \<open>d\<close> seconds after the batch was handed over, and the clock does not run backwards, the sleeps
  over the whole batch, of any number of records, add up to at most \<open>d\<close> seconds and one more second for each
  partition.
\<close>

theorem scheduler_holds_no_longer:
  assumes "conv (handle_batch (retry_handle C) batch) t v" and "clock now t" and "0 \<le> d"
    and "\<forall>(tp, rs) \<in> set batch. \<forall>r \<in> set rs. due_by C (now + d) r"
  shows "slept t \<le> d + of_nat (length batch)"
  using handle_batch_paid [OF assms(1,2,4)] assms(3) by (simp add: paid_def)

text \<open>A record that is due half a second after the batch was handed over.\<close>

definition demo_hold :: "resp list" where
  "demo_hold = [RBool False, RFloat 1, RUnit, RUnit, RUnit]"

abbreviation demo_held_batch :: "(topic_partition \<times> consumer_record list) list" where
  "demo_held_batch \<equiv> [((lit ''orders.retry'', 0), [demo_retry_record])]"

lemma demo_due: "get_not_before (lib demo_ctx) (r_headers demo_retry_record) = Finite (3 / 2)"
  by code_simp

lemma ok_resp_code [code]: "ok_resp r = (case r of RErr _ \<Rightarrow> False | _ \<Rightarrow> True)"
  by (auto simp: ok_resp_def split: resp.split)

lemma demo_held:
  "clock 1 (trail scripted (handle_batch (retry_handle demo_ctx) demo_held_batch) demo_hold)"
  "slept (trail scripted (handle_batch (retry_handle demo_ctx) demo_held_batch) demo_hold) = 1 / 2"
  by code_simp+

theorem scheduler_holds_no_longer_witness:
  "\<exists>t v. conv (handle_batch (retry_handle demo_ctx) demo_held_batch) t v \<and> slept t = 1 / 2
     \<and> slept t \<le> 1 / 2 + of_nat (length demo_held_batch)"
  using scheduler_holds_no_longer [OF conv_scripted demo_held(1), of "1 / 2"] demo_held(2) demo_due conv_scripted
  by (fastforce simp: due_by_def)

end
