(* ===== verification/Spec2Isabelle.thy ===== *)
theory Spec2Isabelle
  imports Racing OrderSafety RetryDlq Ladder Guard Service KeyRace CacheReads Api Policies Loops Lifecycle Gaps
    EffectivelyOnce Wire Pipeline Logging OrderStates Columns DeadLetters Delays
begin

text \<open>
  OrderFlow: an order pipeline on FastAPI, Kafka, Redis and Postgres.

  \<^bold>\<open>The program.\<close>  The API (\<open>src/app/main.py\<close>, \<open>api/routes.py\<close>, \<open>service.py\<close>) accepts an order: it
  writes a row, remembers the client's idempotency key in Redis and publishes \<open>order.created\<close>.  The
  worker (\<open>worker.py\<close>) runs three consumers in one event loop (\<open>kafka/consumers.py\<close>).  The processor
  claims each event in Redis (\<open>idempotency.py\<close>), moves the order through its states
  (\<open>repository.py\<close>, \<open>db.py\<close>), does the work (\<open>processing.py\<close>) and completes the claim; a transient
  failure goes to the retry topic with a delay, a permanent or last one to the dead-letter topic.  The
  retry scheduler publishes a record back to the main topic when it is due.  The archiver stores dead
  letters.  Reads go through a cache (\<open>cache.py\<close>).  What a record carries beside its value is in its
  headers (\<open>kafka/headers.py\<close>).

  \<^bold>\<open>How code is modelled.\<close>  A coroutine is a value of \<open>prog\<close> (theory \<open>Prelude\<close>): it returns, raises, or
  sends a request and goes on with the answer.  Each \<open>await\<close> on another system is one request of the type
  \<open>req\<close> (theory \<open>Effects\<close>), sent in the order of the source; \<open>try\<close>, \<open>except\<close> and \<open>finally\<close> are
  combinators, and every exception is a value of \<open>exn\<close>.  \<open>conv p t v\<close> says that \<open>p\<close> can have the
  conversation \<open>t\<close> and end with \<open>v\<close>, whatever the other systems answer, an exception at any request
  included; \<open>exec h p w\<close> runs \<open>p\<close> against services \<open>h\<close>.  Most safety properties quantify over all
  conversations and so assume nothing of Kafka, Postgres or Redis.  Where a property rests on Redis,
  \<open>redis_contract\<close> states the documented behaviour of the commands used, with expiry and with commands
  that fail before or after taking effect; its instances \<open>stock\<close> and \<open>minted\<close> show that it can hold.

  \<^bold>\<open>Theories, with the source they model.\<close>
  \<^item> \<open>Prelude\<close>: programs, conversations, the rules about them; the locales \<open>transition_system\<close> and \<open>codec\<close>.
  \<^item> \<open>PyText\<close>: Python's text: UTF-8 with replacement, \<open>int\<close> and \<open>str\<close> of integers with the limit of 4300
    digits, \<open>uuid.UUID\<close>, \<open>strip\<close> and \<open>split\<close>; three interpretations of \<open>codec\<close>, a fourth in \<open>JsonText\<close>.
  \<^item> \<open>JsonText\<close>: \<open>json.dumps\<close> and \<open>json.loads\<close> on text.  \<open>Wire\<close>: the serializers of \<open>kafka/producer.py\<close> and
    the deserializers of \<open>BaseConsumer._build\<close>, and records as bytes.  \<open>Logging\<close>: \<open>logging_config.py\<close>.
  \<^item> \<open>Domain\<close>: \<open>config.py\<close>, \<open>models.py\<close>, \<open>schemas.py\<close>.  \<open>Effects\<close>: \<open>errors.py\<close> and the requests.
  \<^item> \<open>Headers\<close>: \<open>kafka/headers.py\<close>.  \<open>Producer\<close>: \<open>kafka/producer.py\<close> and \<open>kafka/admin.py\<close>.
  \<^item> \<open>RedisClient\<close>: \<open>redis_client.py\<close>.  \<open>Idempotency\<close>: \<open>idempotency.py\<close> with its two Lua scripts.
  \<^item> \<open>Database\<close>: \<open>db.py\<close> and \<open>repository.py\<close>.  \<open>Cache\<close>: \<open>cache.py\<close>.  \<open>Processing\<close>: \<open>processing.py\<close>.
  \<^item> \<open>ConsumeLoop\<close>: \<open>BaseConsumer\<close>, and the locale \<open>record_handler\<close> that a handler must satisfy.
    \<open>build_consumer\<close> is \<open>_build\<close>.  \<open>OrderConsumer\<close>: the processor.  \<open>RetryDlq\<close>: the retry scheduler and the archiver.  Each of the three
    handlers is an interpretation of \<open>record_handler\<close>.
  \<^item> \<open>Service\<close>: \<open>service.py\<close>.  \<open>Api\<close>: \<open>api/routes.py\<close>.  \<open>Lifecycle\<close>: \<open>worker.py\<close> and \<open>lifespan\<close> of \<open>main.py\<close>.
  \<^item> \<open>OrderStates\<close>: the state machine of an order in \<open>docs/ARCHITECTURE.md\<close>.  \<open>Columns\<close>: the column types
    of \<open>models.py\<close>.  \<open>Delays\<close>: clocks and sleeps.  \<open>DeadLetters\<close>: the archive and the schema that shows it.
  \<^item> \<open>Demo\<close>: concrete parameters and scripted answers for the examples.

  \<^bold>\<open>What is shown.\<close>
  \<^item> Delivery (\<open>OrderConsumer\<close>, \<open>RetryDlq\<close>, \<open>Loops\<close>): no consumer commits an offset before its record is
    accounted for; offsets of a partition move in order; a stop is obeyed at the next record; a poll that
    raises ends the loop with nothing committed.
  \<^item> Effects once (\<open>Racing\<close>, \<open>Guard\<close>, \<open>OrderSafety\<close>): among racing workers at most one acquires an event;
    effects need the claim; a settled order is not written again; the tombstone is earned; a failed run
    gives its claim back, and a released event can be claimed; \<open>complete\<close> and \<open>release\<close> are atomic
    compare-and-set and compare-and-delete.
  \<^item> Effects once, composed (\<open>EffectivelyOnce\<close>): in every interleaving of handler runs for deliveries of one
    event against one Redis server, writes of different runs are separated by a release, and no run writes
    after the tombstone, as long as the guard key does not expire and no one else writes it; a run that
    outlives its lock, or a crashed run whose lock expires, is outside these theorems, and only what holds of
    every conversation (\<open>OrderSafety\<close>) is left then.
  \<^item> The wire (\<open>JsonText\<close>, \<open>Wire\<close>): what \<open>json.dumps\<close> writes is read back; what \<open>json.loads\<close> returned can be
    written again, so every record that a consumer passes on arrives as it was sent, and a replay has the
    bytes of the original.  This is the assumption \<open>delivers\<close> of the retry ladder.
  \<^item> The pipeline (\<open>Pipeline\<close>): an order that the API accepted reaches the processor as an event of that order,
    through the bytes in the topic.
  \<^item> Retry (\<open>OrderSafety\<close>, \<open>Ladder\<close>, \<open>RetryDlq\<close>): the attempt number grows by one per round and is bounded,
    so the ladder ends; dead letters are archived as they were sent, and what is archived can be listed
    (\<open>DeadLetters\<close>).  The scheduler holds a batch of any size no longer than its longest delay (\<open>Delays\<close>).
  \<^item> State (\<open>OrderSafety\<close>, \<open>OrderStates\<close>, \<open>Lifecycle\<close>): the audit trail of an order stays linked, and as long as
    nobody else writes the order during a run it is, up to repetitions of \<open>PROCESSING\<close>, a run of the documented
    state machine; the worker drains its
    consumers before it closes what they use.
  \<^item> Rows (\<open>Columns\<close>): the locale \<open>row_invariant\<close> of \<open>Database\<close> carries an invariant of rows through the processor;
    its interpretations are the audit trail and the column types.  Two columns can be missed: the amount of
    an order above 2^63, and the event id of a dead letter, which the archiver then never commits but rewinds to.
  \<^item> The API (\<open>Service\<close>, \<open>CacheReads\<close>, \<open>Api\<close>): an event is published only after its order is durable; a
    repeated key returns the first order; what each status code means, the health probe's in terms of what the
    dependencies answered; a cache outage reads the database.
  \<^item> Policies (\<open>Policies\<close>): topic bootstrap, which gives up neither early nor late; headers, validation, fulfilment, backoff.
  \<^item> Limits of the design (\<open>KeyRace\<close>, \<open>Gaps\<close>): two concurrent requests with one key can both create an order;
    a dead letter that Kafka refuses once can be lost; an order that another delivery has settled can be
    moved back to pending by a run that outlived its lock.

  \<^bold>\<open>Bounds.\<close>  The consume loop runs until it is stopped; its model takes the number of polls as fuel.  Every
  theorem about a loop holds for every number of polls, and \<open>Loops\<close> shows that a run which neither fails
  nor is stopped uses exactly that many, so the fuel cuts no behaviour short of its last poll.  The
  attempts of \<open>ensure_topics\<close> are the argument \<open>retries\<close> of the source.  Integers are unbounded as in
  Python, UUIDs are 128-bit words.  Delays and times are exact rationals; the quotient behind the reported
  hit ratio is rounded to a double.  The JSON parser takes fuel; every call consumes a character before the
  next, so twice the length of the text is enough, and more changes nothing (\<open>fuel_enough\<close>).

  \<^bold>\<open>Parameters.\<close>  The record \<open>libs\<close> holds what pydantic and the C library compute (validating and dumping
  models, the text of a float, \<open>upper\<close>, ISO dates); a theorem that needs a law of theirs states it.

  \<^bold>\<open>Not modelled.\<close>  Log messages; construction of the engine, the Redis client and the producer beyond
  its serializers (the arguments of third-party constructors, which only those libraries read); keys,
  indexes and foreign keys of the tables; the recursion limit of Python, so
  JSON nested deeper than it raises an error that the model does not; FastAPI's routing, request parsing and
  JSON rendering; fresh values for a record without \<open>event_id\<close> or \<open>occurred_at\<close> (validation is a function of
  the record); the FastAPI object and the console entry points.  The rest of the source that no definition
  covers is imports, docstrings and comments.  A record that cannot be decoded is an exception of
  \<open>GetMany\<close>: the Kafka client calls the deserializers inside that request.
\<close>

end
